(* ===== verification/Prelude.thy ===== *)
theory Prelude
  imports Main "HOL-Library.Word"
begin

text \<open>
  Shared vocabulary of the development: the integer widths of inc/types.h, the state monad
  in which every kernel operation is written, the Hoare triples and the rewriting rules the
  component proofs run on, and generic facts on lists, searches and intrusive linked lists.

  An operation of the kernel is a function from a state to a result and a new state. The
  result is \<open>Inr x\<close> when the C function returns \<open>x\<close> to its caller, and \<open>Inl e\<close> when control
  leaves the call chain for good: a panic, a jump to user mode, a halted CPU. So a C function
  declared \<open>noreturn\<close> is one that only produces \<open>Inl\<close>.
\<close>

unbundle bit_operations_syntax

type_synonym u8 = "8 word"
type_synonym u16 = "16 word"
type_synonym u32 = "32 word"
type_synonym u64 = "64 word"

type_synonym ('s, 'e, 'a) kmon = "'s \<Rightarrow> ('e + 'a) \<times> 's"

declare Let_def [simp]

named_theorems exec \<open>symbolic execution of monadic programs\<close>
named_theorems hoare_rules \<open>composition rules for Hoare triples\<close>

subsection \<open>The monad\<close>

definition ret :: "'a \<Rightarrow> ('s, 'e, 'a) kmon" where
  "ret x = (\<lambda>s. (Inr x, s))"

definition exit_with :: "'e \<Rightarrow> ('s, 'e, 'a) kmon" where
  "exit_with e = (\<lambda>s. (Inl e, s))"

definition gets :: "('s \<Rightarrow> 'a) \<Rightarrow> ('s, 'e, 'a) kmon" where
  "gets f = (\<lambda>s. (Inr (f s), s))"

definition modify :: "('s \<Rightarrow> 's) \<Rightarrow> ('s, 'e, unit) kmon" where
  "modify f = (\<lambda>s. (Inr (), f s))"

definition bnd :: "('s, 'e, 'a) kmon \<Rightarrow> ('a \<Rightarrow> ('s, 'e, 'b) kmon) \<Rightarrow> ('s, 'e, 'b) kmon" where
  "bnd m f = (\<lambda>s. case m s of (Inl e, s') \<Rightarrow> (Inl e, s') | (Inr x, s') \<Rightarrow> f x s')"

definition thn :: "('s, 'e, 'a) kmon \<Rightarrow> ('s, 'e, 'b) kmon \<Rightarrow> ('s, 'e, 'b) kmon" where
  "thn m n = bnd m (\<lambda>_. n)"

definition whenM :: "bool \<Rightarrow> ('s, 'e, unit) kmon \<Rightarrow> ('s, 'e, unit) kmon" where
  "whenM b m = (if b then m else ret ())"

fun for_each :: "'b list \<Rightarrow> ('b \<Rightarrow> ('s, 'e, unit) kmon) \<Rightarrow> ('s, 'e, unit) kmon" where
  "for_each [] f = ret ()"
| "for_each (x # xs) f = thn (f x) (for_each xs f)"

lemma ret_exec [exec, simp]: "ret x s = (Inr x, s)"
  by (simp add: ret_def)

lemma exit_exec [exec, simp]: "exit_with e s = (Inl e, s)"
  by (simp add: exit_with_def)

lemma gets_exec [exec, simp]: "gets f s = (Inr (f s), s)"
  by (simp add: gets_def)

lemma modify_exec [exec, simp]: "modify f s = (Inr (), f s)"
  by (simp add: modify_def)

lemma bnd_Inr [exec]: "m s = (Inr x, s') \<Longrightarrow> bnd m f s = f x s'"
  by (simp add: bnd_def)

lemma bnd_Inl [exec]: "m s = (Inl e, s') \<Longrightarrow> bnd m f s = (Inl e, s')"
  by (simp add: bnd_def)

lemma thn_Inr [exec]: "m s = (Inr x, s') \<Longrightarrow> thn m n s = n s'"
  by (simp add: thn_def bnd_def)

lemma thn_Inl [exec]: "m s = (Inl e, s') \<Longrightarrow> thn m n s = (Inl e, s')"
  by (simp add: thn_def bnd_def)

lemma bnd_ret [simp]: "bnd (ret x) f = f x"
  by (simp add: bnd_def fun_eq_iff)

lemma bnd_gets [simp]: "bnd (gets g) f s = f (g s) s"
  by (simp add: bnd_def)

lemma thn_modify [simp]: "thn (modify g) n s = n (g s)"
  by (simp add: thn_def bnd_def)

lemma bnd_modify [simp]: "bnd (modify g) f s = f () (g s)"
  by (simp add: bnd_def)

lemma thn_ret [simp]: "thn (ret x) n = n"
  by (simp add: thn_def)

lemma bnd_exit [simp]: "bnd (exit_with e) f = exit_with e"
  by (simp add: bnd_def fun_eq_iff)

lemma thn_exit [simp]: "thn (exit_with e) n = exit_with e"
  by (simp add: thn_def)

lemma bnd_assoc: "bnd (bnd m f) g = bnd m (\<lambda>x. bnd (f x) g)"
  by (auto simp: bnd_def fun_eq_iff split: prod.splits sum.splits)

lemma thn_bnd_assoc: "thn (bnd m f) n = bnd m (\<lambda>x. thn (f x) n)"
  by (simp add: thn_def bnd_assoc)

lemma whenM_True [simp]: "whenM True m = m"
  by (simp add: whenM_def)

lemma whenM_False [simp]: "whenM False m = ret ()"
  by (simp add: whenM_def)

lemma bnd_cases:
  assumes "bnd m f s = (r, s'')"
  obtains (exits) e where "m s = (Inl e, s'')" "r = Inl e"
    | (returns) x s' where "m s = (Inr x, s')" "f x s' = (r, s'')"
  using assms by (auto simp: bnd_def split: prod.splits sum.splits)

lemma thn_returns:
  assumes "thn m n s = (Inr y, s'')"
  obtains x s' where "m s = (Inr x, s')" "n s' = (Inr y, s'')"
  using assms by (auto simp: thn_def bnd_def split: prod.splits sum.splits)

lemma bnd_returns:
  assumes "bnd m f s = (Inr y, s'')"
  obtains x s' where "m s = (Inr x, s')" "f x s' = (Inr y, s'')"
  using assms by (auto simp: bnd_def split: prod.splits sum.splits)

subsection \<open>Hoare triples\<close>

text \<open>
  \<open>triple P m Q E\<close>: started in a state with \<open>P\<close>, the operation either returns with \<open>Q\<close> or
  leaves with \<open>E\<close>. \<open>keeps I m\<close> is the triple of an invariant.
\<close>

definition triple :: "('s \<Rightarrow> bool) \<Rightarrow> ('s, 'e, 'a) kmon \<Rightarrow> ('a \<Rightarrow> 's \<Rightarrow> bool) \<Rightarrow> ('e \<Rightarrow> 's \<Rightarrow> bool) \<Rightarrow> bool" where
  "triple P m Q E \<longleftrightarrow>
     (\<forall>s. P s \<longrightarrow> (case m s of (Inl e, s') \<Rightarrow> E e s' | (Inr x, s') \<Rightarrow> Q x s'))"

definition keeps :: "('s \<Rightarrow> bool) \<Rightarrow> ('s, 'e, 'a) kmon \<Rightarrow> bool" where
  "keeps I m \<longleftrightarrow> triple I m (\<lambda>_. I) (\<lambda>_. I)"

lemma keepsI: "(\<And>s r s'. I s \<Longrightarrow> m s = (r, s') \<Longrightarrow> I s') \<Longrightarrow> keeps I m"
  by (auto simp: keeps_def triple_def split: prod.splits sum.splits)

lemma keepsD: "keeps I m \<Longrightarrow> I s \<Longrightarrow> I (snd (m s))"
  by (cases "m s"; cases "fst (m s)") (force simp: keeps_def triple_def)+

lemma keeps_result: "keeps I m \<Longrightarrow> I s \<Longrightarrow> m s = (r, s') \<Longrightarrow> I s'"
  using keepsD by fastforce

lemma keeps_ret [hoare_rules, intro!, simp]: "keeps I (ret x)"
  by (simp add: keeps_def triple_def)

lemma keeps_exit [hoare_rules, intro!, simp]: "keeps I (exit_with e)"
  by (simp add: keeps_def triple_def)

lemma keeps_gets [hoare_rules, intro!, simp]: "keeps I (gets f)"
  by (simp add: keeps_def triple_def)

lemma keeps_modify: "(\<And>s. I s \<Longrightarrow> I (f s)) \<Longrightarrow> keeps I (modify f)"
  by (simp add: keeps_def triple_def)

lemma keeps_bnd [hoare_rules, intro]:
  "keeps I m \<Longrightarrow> (\<And>x. keeps I (f x)) \<Longrightarrow> keeps I (bnd m f)"
  by (rule keepsI, erule bnd_cases) (auto dest: keeps_result)

lemma keeps_thn [hoare_rules, intro]: "keeps I m \<Longrightarrow> keeps I n \<Longrightarrow> keeps I (thn m n)"
  by (simp add: thn_def keeps_bnd)

lemma keeps_if [hoare_rules]: "keeps I m \<Longrightarrow> keeps I n \<Longrightarrow> keeps I (if b then m else n)"
  by simp

lemma keeps_whenM [hoare_rules, intro]: "keeps I m \<Longrightarrow> keeps I (whenM b m)"
  by (simp add: whenM_def)

lemma keeps_case_option [hoare_rules]:
  "keeps I m \<Longrightarrow> (\<And>x. keeps I (f x)) \<Longrightarrow> keeps I (case p of None \<Rightarrow> m | Some x \<Rightarrow> f x)"
  by (cases p) simp_all

lemma keeps_case_sum [hoare_rules]:
  "(\<And>x. keeps I (f x)) \<Longrightarrow> (\<And>x. keeps I (g x)) \<Longrightarrow> keeps I (case p of Inl x \<Rightarrow> f x | Inr x \<Rightarrow> g x)"
  by (cases p) simp_all

lemma keeps_case_prod [hoare_rules]:
  "(\<And>x y. keeps I (f x y)) \<Longrightarrow> keeps I (case p of (x, y) \<Rightarrow> f x y)"
  by (cases p) simp_all

lemma keeps_Let [hoare_rules]: "keeps I (f x) \<Longrightarrow> keeps I (let y = x in f y)"
  by simp

lemma keeps_for_each [hoare_rules]:
  "(\<And>x. keeps I (f x)) \<Longrightarrow> keeps I (for_each xs f)"
  by (induction xs) (auto intro: keeps_thn)

subsection \<open>Operations that never return\<close>

definition noreturn :: "('s, 'e, 'a) kmon \<Rightarrow> bool" where
  "noreturn m \<longleftrightarrow> (\<forall>s. \<exists>e s'. m s = (Inl e, s'))"

lemma noreturn_exit [intro!, simp]: "noreturn (exit_with e)"
  by (simp add: noreturn_def)

lemma noreturn_bnd: "(\<And>x. noreturn (f x)) \<Longrightarrow> noreturn (bnd m f)"
  by (force simp: noreturn_def bnd_def split: prod.splits sum.splits)

lemma noreturn_bnd_left: "noreturn m \<Longrightarrow> noreturn (bnd m f)"
  unfolding noreturn_def by (meson bnd_Inl)

lemma noreturn_thn: "noreturn n \<Longrightarrow> noreturn (thn m n)"
  by (simp add: thn_def noreturn_bnd)

lemma noreturn_if: "noreturn m \<Longrightarrow> noreturn n \<Longrightarrow> noreturn (if b then m else n)"
  by simp

text \<open>The other extreme: operations that always come back to their caller.\<close>

definition returns :: "('s, 'e, 'a) kmon \<Rightarrow> bool" where
  "returns m \<longleftrightarrow> (\<forall>s. \<exists>x s'. m s = (Inr x, s'))"

lemma returns_basic [intro!, simp]: "returns (ret x)" "returns (gets f)" "returns (modify g)"
  by (simp_all add: returns_def)

lemma returns_bnd [intro]: "returns m \<Longrightarrow> (\<And>x. returns (f x)) \<Longrightarrow> returns (bnd m f)"
  unfolding returns_def by (metis bnd_Inr)

lemma returns_thn [intro]: "returns m \<Longrightarrow> returns n \<Longrightarrow> returns (thn m n)"
  by (simp add: thn_def returns_bnd)

lemma returns_whenM [intro]: "returns m \<Longrightarrow> returns (whenM b m)"
  by (simp add: whenM_def)

lemma returns_for_each [intro]: "(\<And>x. returns (f x)) \<Longrightarrow> returns (for_each xs f)"
  by (induction xs) auto

lemma returns_case_prod [intro]: "(\<And>x y. returns (f x y)) \<Longrightarrow> returns (case p of (x, y) \<Rightarrow> f x y)"
  by (cases p) simp

lemma returns_if [intro]: "returns m \<Longrightarrow> returns n \<Longrightarrow> returns (if b then m else n)"
  by simp

lemmas returns_rules = returns_thn returns_bnd returns_for_each returns_whenM returns_if returns_case_prod
  returns_basic

lemma for_each_modify [exec]: "for_each xs (\<lambda>x. modify (g x)) s = (Inr (), fold g xs s)"
  by (induction xs arbitrary: s) simp_all

subsection \<open>Intrusive linked lists\<close>

text \<open>
  Both free lists of the kernel (physical pages, environments) are singly linked through a
  field of the array element. \<open>flist link h xs\<close>: from head \<open>h\<close>, the links visit exactly \<open>xs\<close>.
\<close>

fun flist :: "('a \<Rightarrow> 'a option) \<Rightarrow> 'a option \<Rightarrow> 'a list \<Rightarrow> bool" where
  "flist link h [] \<longleftrightarrow> h = None"
| "flist link h (x # xs) \<longleftrightarrow> h = Some x \<and> flist link (link x) xs"

lemma flist_upd [simp]: "x \<notin> set xs \<Longrightarrow> flist (link(x := y)) h xs = flist link h xs"
  by (induction xs arbitrary: h) auto

lemma flist_cong: "(\<And>x. x \<in> set xs \<Longrightarrow> link x = link' x) \<Longrightarrow> flist link h xs = flist link' h xs"
  by (induction xs arbitrary: h) auto

lemma flist_None [simp]: "flist link None xs \<longleftrightarrow> xs = []"
  by (cases xs) auto

lemma flist_Some: "flist link (Some x) xs \<longleftrightarrow> (\<exists>ys. xs = x # ys \<and> flist link (link x) ys)"
  by (cases xs) auto

lemma flist_unique: "flist link h xs \<Longrightarrow> flist link h ys \<Longrightarrow> xs = ys"
proof (induction xs arbitrary: h ys)
  case Nil then show ?case by (cases ys) auto
next
  case (Cons x xs) then show ?case by (cases ys) auto
qed

subsection \<open>Searches and indices\<close>

lemma find_Some_nth:
  "List.find P xs = Some x \<longleftrightarrow> (\<exists>i < length xs. x = xs ! i \<and> P x \<and> (\<forall>j < i. \<not> P (xs ! j)))"
  by (auto simp: find_Some_iff)

lemma upto_nth [simp]: "i < n \<Longrightarrow> [0..<n] ! i = i"
  by simp

end
