(* ===== verification/Machine.thy ===== *)
theory Machine
  imports Prelude
begin

text \<open>
  The constants and macros of inc/types.h, inc/mmu.h, inc/memlayout.h, inc/error.h,
  inc/syscall.h and inc/env.h, at their 32-bit width, with the laws of the address
  decomposition the page tables rest on.
\<close>

section \<open>Integers of the C code\<close>

text \<open>ROUNDDOWN and ROUNDUP of inc/types.h, on unsigned 32-bit values: both wrap.\<close>

definition ROUNDDOWN :: "u32 \<Rightarrow> u32 \<Rightarrow> u32" where
  "ROUNDDOWN a n = a - a mod n"

definition ROUNDUP :: "u32 \<Rightarrow> u32 \<Rightarrow> u32" where
  "ROUNDUP a n = ROUNDDOWN (a + n - 1) n"

section \<open>Error codes\<close>

datatype kerror = E_UNSPECIFIED | E_BAD_ENV | E_INVAL | E_NO_MEM | E_NO_FREE_ENV | E_FAULT
  | E_IPC_NOT_RECV | E_EOF

fun errno :: "kerror \<Rightarrow> u32" where
  "errno E_UNSPECIFIED = 1"
| "errno E_BAD_ENV = 2"
| "errno E_INVAL = 3"
| "errno E_NO_MEM = 4"
| "errno E_NO_FREE_ENV = 5"
| "errno E_FAULT = 6"
| "errno E_IPC_NOT_RECV = 7"
| "errno E_EOF = 8"

definition MAXERROR :: u32 where "MAXERROR = 9"

text \<open>What the C functions return: the negated code, read as a signed 32-bit integer.\<close>

definition err :: "kerror \<Rightarrow> u32" where
  "err e = - errno e"

lemma err_neq_0 [simp]: "err e \<noteq> 0"
  by (cases e) (simp_all add: err_def)

lemma err_negative [simp]: "err e <s 0"
  by (cases e) (simp_all add: err_def word_sless_alt)

lemma err_inj [simp]: "err e = err e' \<longleftrightarrow> e = e'"
  by (cases e; cases e') (simp_all add: err_def)

section \<open>System call numbers\<close>

datatype syscallno = SYS_cputs | SYS_cgetc | SYS_getenvid | SYS_env_destroy | SYS_page_alloc
  | SYS_page_map | SYS_page_unmap | SYS_exofork | SYS_env_set_status
  | SYS_env_set_pgfault_upcall | SYS_yield | SYS_ipc_try_send | SYS_ipc_recv | SYS_sleep
  | SYS_getpriority | SYS_setpriority | SYS_thread_create

definition syscall_list :: "syscallno list" where
  "syscall_list = [SYS_cputs, SYS_cgetc, SYS_getenvid, SYS_env_destroy, SYS_page_alloc,
     SYS_page_map, SYS_page_unmap, SYS_exofork, SYS_env_set_status,
     SYS_env_set_pgfault_upcall, SYS_yield, SYS_ipc_try_send, SYS_ipc_recv, SYS_sleep,
     SYS_getpriority, SYS_setpriority, SYS_thread_create]"

definition syscall_of :: "u32 \<Rightarrow> syscallno option" where
  "syscall_of n = (if unat n < length syscall_list then Some (syscall_list ! unat n) else None)"

section \<open>Paging constants and macros (inc/mmu.h)\<close>

definition PGSIZE :: u32 where [simp]: "PGSIZE = 4096"
definition NPDENTRIES :: nat where [simp]: "NPDENTRIES = 1024"
definition NPTENTRIES :: nat where [simp]: "NPTENTRIES = 1024"
definition PTSIZE :: u32 where [simp]: "PTSIZE = 0x400000"

definition PTE_P :: u32 where [simp]: "PTE_P = 0x001"
definition PTE_W :: u32 where [simp]: "PTE_W = 0x002"
definition PTE_U :: u32 where [simp]: "PTE_U = 0x004"
definition PTE_PWT :: u32 where [simp]: "PTE_PWT = 0x008"
definition PTE_PCD :: u32 where [simp]: "PTE_PCD = 0x010"
definition PTE_AVAIL :: u32 where [simp]: "PTE_AVAIL = 0xE00"
definition PTE_SYSCALL :: u32 where
  [simp]: "PTE_SYSCALL = 0xE07" \<comment> \<open>PTE\_AVAIL | PTE\_P | PTE\_W | PTE\_U\<close>

definition PGNUM :: "u32 \<Rightarrow> nat" where
  "PGNUM la = unat (drop_bit 12 la)"

definition PDX :: "u32 \<Rightarrow> nat" where
  "PDX la = unat (drop_bit 22 la AND 0x3FF)"

definition PTX :: "u32 \<Rightarrow> nat" where
  "PTX la = unat (drop_bit 12 la AND 0x3FF)"

definition PGOFF :: "u32 \<Rightarrow> u32" where
  "PGOFF la = la AND 0xFFF"

definition PGADDR :: "nat \<Rightarrow> nat \<Rightarrow> u32 \<Rightarrow> u32" where
  "PGADDR d t ofs = (push_bit 22 (of_nat d) OR push_bit 12 (of_nat t) OR ofs)"

definition PTE_ADDR :: "u32 \<Rightarrow> u32" where
  "PTE_ADDR pte = pte AND NOT 0xFFF"

definition FL_IF :: u32 where [simp]: "FL_IF = 0x200"
definition FEC_WR :: u32 where [simp]: "FEC_WR = 0x2"

section \<open>The virtual memory map (inc/memlayout.h)\<close>

definition GD_KT :: u16 where [simp]: "GD_KT = 0x08"
definition GD_UT :: u16 where [simp]: "GD_UT = 0x18"
definition GD_UD :: u16 where [simp]: "GD_UD = 0x20"

definition KERNBASE :: u32 where [simp]: "KERNBASE = 0xF0000000"
definition IOPHYSMEM :: u32 where [simp]: "IOPHYSMEM = 0x0A0000"
definition EXTPHYSMEM :: u32 where [simp]: "EXTPHYSMEM = 0x100000"
definition KSTACKTOP :: u32 where [simp]: "KSTACKTOP = 0xF0000000"
definition KSTKSIZE :: u32 where [simp]: "KSTKSIZE = 0x8000"
definition KSTKGAP :: u32 where [simp]: "KSTKGAP = 0x8000"
definition MMIOLIM :: u32 where [simp]: "MMIOLIM = 0xEFC00000"
definition MMIOBASE :: u32 where [simp]: "MMIOBASE = 0xEF800000"
definition ULIM :: u32 where [simp]: "ULIM = 0xEF800000"
definition UVPT :: u32 where [simp]: "UVPT = 0xEF400000"
definition UPAGES :: u32 where [simp]: "UPAGES = 0xEF000000"
definition UENVS :: u32 where [simp]: "UENVS = 0xEEC00000"
definition UTOP :: u32 where [simp]: "UTOP = 0xEEC00000"
definition UXSTACKTOP :: u32 where [simp]: "UXSTACKTOP = 0xEEC00000"
definition USTACKTOP :: u32 where [simp]: "USTACKTOP = 0xEEBFE000"
definition UTEMP :: u32 where [simp]: "UTEMP = 0x400000"
definition PFTEMP :: u32 where [simp]: "PFTEMP = 0x7FF000"
definition MPENTRY_PADDR :: u32 where [simp]: "MPENTRY_PADDR = 0x7000"

lemma memlayout_chain:
  "KSTACKTOP = KERNBASE" "MMIOLIM = KSTACKTOP - PTSIZE" "MMIOBASE = MMIOLIM - PTSIZE"
  "ULIM = MMIOBASE" "UVPT = ULIM - PTSIZE" "UPAGES = UVPT - PTSIZE" "UENVS = UPAGES - PTSIZE"
  "UTOP = UENVS" "UXSTACKTOP = UTOP" "USTACKTOP = UTOP - 2 * PGSIZE"
  "UTEMP = PTSIZE" "PFTEMP = UTEMP + PTSIZE - PGSIZE" "KSTKSIZE = 8 * PGSIZE" "KSTKGAP = 8 * PGSIZE"
  "PTE_SYSCALL = PTE_AVAIL OR PTE_P OR PTE_W OR PTE_U"
  by simp_all

section \<open>Environment ids and priorities (inc/env.h)\<close>

definition NENV :: nat where "NENV = 1024"

definition ENVX :: "u32 \<Rightarrow> nat" where
  "ENVX eid = unat (eid AND 1023)"

definition ENV_PRIORITY_MAX :: u32 where [simp]: "ENV_PRIORITY_MAX = 15"
definition ENV_PRIORITY_DEFAULT :: u32 where [simp]: "ENV_PRIORITY_DEFAULT = 8"
definition NPRIORITIES :: nat where [simp]: "NPRIORITIES = 16"

section \<open>Laws of the macros\<close>

lemma mask_numerals:
  "(1023 :: u32) = mask 10" "(4095 :: u32) = mask 12" "(1048575 :: u32) = mask 20"
  by (simp_all add: mask_eq_exp_minus_1)

lemma unat_less_32 [simp]: "unat (w :: u32) < 4294967296"
  using unsigned_less [where ?'a = nat, of w] by simp

lemma and_1023_less: "unat (w AND (1023 :: u32)) < 1024"
proof -
  have "unat (w AND (1023 :: u32)) \<le> unat (1023 :: u32)"
    by (rule word_and_le1 [THEN word_le_nat_alt [THEN iffD1]])
  then show ?thesis by simp
qed

lemma ENVX_less [simp]: "ENVX eid < NENV"
  by (simp add: ENVX_def NENV_def and_1023_less)

lemma PDX_less [simp]: "PDX la < 1024"
  by (simp add: PDX_def and_1023_less)

lemma PTX_less [simp]: "PTX la < 1024"
  by (simp add: PTX_def and_1023_less)

lemma unat_drop_12: "unat (drop_bit 12 (w :: u32)) = unat w div 4096"
  by (simp add: unat_drop_bit_eq drop_bit_eq_div unat_div)

lemma unat_and_1023: "unat (w AND (1023 :: u32)) = unat w mod 1024"
  by (simp add: mask_numerals(1) unsigned_take_bit_eq take_bit_eq_mod unat_mod flip: take_bit_eq_mask)

lemma PGNUM_div: "PGNUM la = unat la div 4096"
  by (simp add: PGNUM_def unat_drop_12)

lemma PGNUM_less: "PGNUM la < 2 ^ 20"
  using unat_less_32 [of la] by (simp add: PGNUM_div del: unat_less_32)

lemma PTX_mod: "PTX la = PGNUM la mod 1024"
  by (simp only: PTX_def PGNUM_def unat_and_1023)

lemma PDX_div: "PDX la = PGNUM la div 1024"
proof -
  have "unat (drop_bit 22 la) = unat la div 4194304"
    by (simp add: unat_drop_bit_eq drop_bit_eq_div unat_div)
  moreover have "unat la div 4194304 < 1024"
    using unat_less_32 [of la] by (simp del: unat_less_32)
  ultimately show ?thesis
    by (simp add: PDX_def unat_and_1023 PGNUM_div div_mult2_eq [symmetric])
qed

text \<open>Two addresses lie in one page exactly when both their table indices agree.\<close>

lemma same_page_iff: "PGNUM a = PGNUM b \<longleftrightarrow> PDX a = PDX b \<and> PTX a = PTX b"
proof
  assume h: "PDX a = PDX b \<and> PTX a = PTX b"
  have "PGNUM a = (PGNUM a div 1024) * 1024 + PGNUM a mod 1024" by simp
  also have "\<dots> = PGNUM b" using h by (simp add: PDX_div PTX_mod)
  finally show "PGNUM a = PGNUM b" .
qed (simp add: PDX_div PTX_mod)

lemma PGADDR_roundtrip: "PGADDR (PDX la) (PTX la) (PGOFF la) = la"
proof (rule bit_word_eqI)
  fix n assume "n < LENGTH(32)"
  then show "bit (PGADDR (PDX la) (PTX la) (PGOFF la)) n = bit la n"
    by (cases "n < 12"; cases "n < 22")
       (auto simp: PGADDR_def PDX_def PTX_def PGOFF_def mask_numerals bit_simps)
qed

lemma bit_nat_less: "(d :: nat) < 2 ^ k \<Longrightarrow> bit d n \<Longrightarrow> n < k"
  by (metis bit_take_bit_iff take_bit_nat_eq_self)

lemma PGADDR_fields:
  assumes "d < 1024" "t < 1024" "unat ofs < 4096"
  shows "PDX (PGADDR d t ofs) = d" "PTX (PGADDR d t ofs) = t" "PGOFF (PGADDR d t ofs) = ofs"
proof -
  have bd: "bit d n \<Longrightarrow> n < 10" and bt: "bit t n \<Longrightarrow> n < 10"
    and bo: "bit ofs n \<Longrightarrow> n < 12" for n
    using bit_nat_less [of d 10 n] bit_nat_less [of t 10 n] bit_nat_less [of "unat ofs" 12 n] assms
    by (auto simp: bit_unsigned_iff dest: bit_imp_le_length)
  have "drop_bit 22 (PGADDR d t ofs) AND 1023 = of_nat d"
    by (rule bit_word_eqI) (auto simp: PGADDR_def mask_numerals bit_simps dest: bd bt bo)
  then show "PDX (PGADDR d t ofs) = d"
    using assms(1) by (simp add: PDX_def unat_of_nat)
  have "drop_bit 12 (PGADDR d t ofs) AND 1023 = of_nat t"
    by (rule bit_word_eqI) (auto simp: PGADDR_def mask_numerals bit_simps dest: bd bt bo)
  then show "PTX (PGADDR d t ofs) = t"
    using assms(2) by (simp add: PTX_def unat_of_nat)
  show "PGOFF (PGADDR d t ofs) = ofs"
    by (rule bit_word_eqI) (auto simp: PGADDR_def PGOFF_def mask_numerals bit_simps dest: bd bt bo)
qed

lemma PGNUM_PTE_ADDR [simp]: "PGNUM (PTE_ADDR pte) = PGNUM pte"
  unfolding PGNUM_def PTE_ADDR_def
  by (rule arg_cong [where f = unat], rule bit_word_eqI)
     (auto simp: mask_numerals bit_simps dest: bit_imp_le_length)

lemma unat_PTE_ADDR: "unat (PTE_ADDR a) = PGNUM a * 4096"
proof -
  have "PTE_ADDR a = push_bit 12 (drop_bit 12 a)"
    by (rule bit_word_eqI) (auto simp: PTE_ADDR_def mask_numerals bit_simps)
  then show ?thesis
    using PGNUM_less [of a]
    by (simp add: PGNUM_def push_bit_eq_mult unat_word_ariths)
qed

lemma ROUNDDOWN_PGSIZE: "ROUNDDOWN a PGSIZE = PTE_ADDR a"
proof -
  have "unat (a mod 4096) = unat a mod 4096" by (simp add: unat_mod)
  moreover have "a mod 4096 \<le> a" by (simp add: word_le_nat_alt unat_mod)
  ultimately have "unat (ROUNDDOWN a PGSIZE) = unat a - unat a mod 4096"
    by (simp add: ROUNDDOWN_def unat_sub)
  also have "\<dots> = PGNUM a * 4096" by (simp add: PGNUM_div minus_mod_eq_div_mult)
  finally show ?thesis by (simp add: word_unat_eq_iff unat_PTE_ADDR)
qed

lemma unat_ROUNDDOWN: "unat (ROUNDDOWN a PGSIZE) = PGNUM a * 4096"
  by (simp only: ROUNDDOWN_PGSIZE unat_PTE_ADDR)

text \<open>ROUNDUP is the least multiple of the page size above its argument, unless it wraps.\<close>

lemma unat_ROUNDUP:
  assumes "unat a + 4095 < 4294967296"
  shows "unat (ROUNDUP a PGSIZE) = (unat a + 4095) div 4096 * 4096"
proof -
  have "unat (a + 4096 - 1) = unat a + 4095"
    using assms by (simp add: unat_word_ariths)
  then show ?thesis
    unfolding ROUNDUP_def by (simp only: unat_ROUNDDOWN PGNUM_div) simp
qed

text \<open>Signed comparison with zero, and the low ten bits an environment id is indexed by.\<close>

lemma bit_31: "bit (w :: u32) 31 \<longleftrightarrow> 2147483648 \<le> unat w"
proof -
  have "bit w 31 \<longleftrightarrow> odd (unat w div 2147483648)"
    using bit_unsigned_iff [of w 31, where ?'a = nat] bit_iff_odd [of "unat w" 31] bit_imp_le_length [of w 31]
    by simp
  moreover have "unat w div 2147483648 < 2"
    using unat_less_32 [of w] by (simp del: unat_less_32)
  ultimately show ?thesis
    by (cases "unat w < 2147483648") (auto simp: less_2_cases_iff)
qed

lemma sless_0: "(w :: u32) <s 0 \<longleftrightarrow> 2147483648 \<le> unat w"
  using bit_last_iff [of w] by (simp add: word_sless_alt bit_31)

lemma sle_0: "(w :: u32) \<le>s 0 \<longleftrightarrow> w = 0 \<or> 2147483648 \<le> unat w"
  by (auto simp: sless_0 [symmetric] word_sless_eq)

lemma unat_and_not_1023: "unat (w AND - 1024 :: u32) = unat w div 1024 * 1024"
proof -
  have "(w AND NOT 1023) + (w AND 1023) = w"
    by (subst disjunctive_add) (auto simp: bit_simps intro!: bit_word_eqI)
  moreover have "(w AND NOT 1023) \<le> w" by (simp add: word_and_le2)
  ultimately have "unat w = unat (w AND NOT 1023) + unat (w AND 1023)"
    by (metis unat_plus_simple)
  then show ?thesis by (simp add: unat_and_1023 div_mult_mod_eq) (metis add_diff_cancel_right' minus_mod_eq_div_mult)
qed

lemma or_low_1023: "w AND 1023 = 0 \<Longrightarrow> e < 1024 \<Longrightarrow> unat (w OR of_nat e :: u32) = unat w + e"
proof -
  assume a: "w AND 1023 = 0" "e < 1024"
  have e: "of_nat e AND 1023 = (of_nat e :: u32)" using a(2) 
    by (simp add: word_unat_eq_iff unat_and_1023 unat_of_nat)
  have "w AND of_nat e = (w AND 1023) AND of_nat e"
    by (subst e [symmetric]) (simp only: ac_simps)
  then have "w AND of_nat e = 0" using a(1) by simp
  then have s: "w + of_nat e = w OR of_nat e" by (rule disjunctive_add_eq_or)
  have "unat w div 1024 * 1024 = unat w" using a(1) by (metis  unat_and_1023 unat_0 minus_mod_eq_div_mult minus_nat.diff_0)
  then have "unat w + e < 4294967296" proof -
    have "unat w div 1024 < 4194304" using unat_less_32 [of w] by (simp del: unat_less_32)
    then show ?thesis using \<open>_ = unat w\<close> a(2) by linarith
  qed
  then show ?thesis using a(2) by (simp add: s [symmetric] unat_word_ariths unat_of_nat)
qed

text \<open>A page table entry is a page frame address with flags in the low 12 bits.\<close>

lemma flags_bits: "flags AND NOT 0xFFF = (0 :: u32) \<Longrightarrow> bit flags n \<Longrightarrow> n < 12"
  by (metis (no_types, lifting) bit_and_iff bit_not_iff bit_mask_iff mask_numerals(2) bit_0_eq
      bot_apply bot_bool_def bit_imp_le_length impossible_bit not_le_imp_less)

lemma PGNUM_entry:
  assumes "f < 2 ^ 20" "flags AND NOT 0xFFF = 0"
  shows "PGNUM (push_bit 12 (of_nat f) OR flags) = f"
proof -
  have bf: "bit f n \<Longrightarrow> n < 20" for n using bit_nat_less [of f 20 n] assms(1) by simp
  note fl = flags_bits [OF assms(2)]
  have "drop_bit 12 (push_bit 12 (of_nat f) OR flags :: u32) = of_nat f"
    by (rule bit_word_eqI) (auto simp: bit_simps dest: bf fl)
  then show ?thesis using assms(1) by (simp add: PGNUM_def unat_of_nat)
qed

lemma entry_flags:
  assumes "flags AND NOT 0xFFF = (0 :: u32)"
  shows "(push_bit 12 (of_nat f) OR flags) AND 0xFFF = flags"
  by (rule bit_word_eqI) (auto simp: bit_simps mask_numerals dest: flags_bits [OF assms])

end
