(* ===== verification/Console.thy ===== *)
theory Console
  imports Prelude
begin

text \<open>
  The console (kern/console.c, kern/console.h, inc/kbdreg.h): the keyboard decoder, the circular
  input buffer fed by the interrupt routines, the output to serial line, parallel port and text
  screen, and the line editor on top of it (lib/readline.c). The devices are what they will deliver:
  \<open>kbd_in\<close> holds the (status, data) pairs the keyboard controller shows one after the other,
  \<open>serial_in\<close> the bytes waiting at the serial port. Everything sent to the serial line and the
  parallel port is recorded in \<open>sent\<close>. The delays and the cursor registers are not modelled.
\<close>

section \<open>State\<close>

definition CRT_COLS :: nat where [simp]: "CRT_COLS = 80"
definition CRT_SIZE :: nat where [simp]: "CRT_SIZE = 2000"
definition CONSBUFSIZE :: nat where [simp]: "CONSBUFSIZE = 512"

record console =
  kbd_in :: "(u8 \<times> u8) list"
  serial_in :: "u8 list"
  serial_exists :: bool
  kbd_shift :: u32
  cons_buf :: "nat \<Rightarrow> u8"
  rpos :: nat
  wpos :: nat
  crt_pos :: u16
  crt_buf :: "nat \<Rightarrow> u16"
  sent :: "u32 list"
  rebooted :: bool

definition zero_console :: console where
  "zero_console = \<lparr>kbd_in = [], serial_in = [], serial_exists = False, kbd_shift = 0,
     cons_buf = (\<lambda>_. 0), rpos = 0, wpos = 0, crt_pos = 0, crt_buf = (\<lambda>_. 0), sent = [], rebooted = False\<rparr>"

section \<open>Keyboard tables\<close>

definition KEY_HOME :: u8 where [simp]: "KEY_HOME = 0xE0"
definition KEY_END :: u8 where [simp]: "KEY_END = 0xE1"
definition KEY_UP :: u8 where [simp]: "KEY_UP = 0xE2"
definition KEY_DN :: u8 where [simp]: "KEY_DN = 0xE3"
definition KEY_LF :: u8 where [simp]: "KEY_LF = 0xE4"
definition KEY_RT :: u8 where [simp]: "KEY_RT = 0xE5"
definition KEY_PGUP :: u8 where [simp]: "KEY_PGUP = 0xE6"
definition KEY_PGDN :: u8 where [simp]: "KEY_PGDN = 0xE7"
definition KEY_INS :: u8 where [simp]: "KEY_INS = 0xE8"
definition KEY_DEL :: u8 where [simp]: "KEY_DEL = 0xE9"
definition KBS_DIB :: u8 where [simp]: "KBS_DIB = 0x01"
definition KBS_TERR :: u8 where [simp]: "KBS_TERR = 0x20"

definition SHIFT :: u32 where [simp]: "SHIFT = 1"
definition CTL :: u32 where [simp]: "CTL = 2"
definition ALT :: u32 where [simp]: "ALT = 4"
definition CAPSLOCK :: u32 where [simp]: "CAPSLOCK = 8"
definition NUMLOCK :: u32 where [simp]: "NUMLOCK = 16"
definition SCROLLLOCK :: u32 where [simp]: "SCROLLLOCK = 32"
definition E0ESC :: u32 where [simp]: "E0ESC = 64"

definition lit :: "string \<Rightarrow> u8 list" where
  "lit = map of_char"

text \<open>A C array initialiser: the leading entries in order, then designated ones, the rest zero.\<close>

definition tbl :: "u8 list \<Rightarrow> (nat \<times> u8) list \<Rightarrow> u8 \<Rightarrow> u8" where
  "tbl xs over i = (case map_of over (unat i) of Some v \<Rightarrow> v
     | None \<Rightarrow> if unat i < length xs then xs ! unat i else 0)"

definition shiftcode :: "u8 \<Rightarrow> u32" where
  "shiftcode d = (if d = 0x1D then CTL else if d = 0x2A then SHIFT else if d = 0x36 then SHIFT
     else if d = 0x38 then ALT else if d = 0x9D then CTL else if d = 0xB8 then ALT else 0)"

definition togglecode :: "u8 \<Rightarrow> u32" where
  "togglecode d = (if d = 0x3A then CAPSLOCK else if d = 0x45 then NUMLOCK
     else if d = 0x46 then SCROLLLOCK else 0)"

definition extended_keys :: "(nat \<times> u8) list" where
  "extended_keys = [(0xC8, KEY_UP), (0xC9, KEY_PGUP), (0xCB, KEY_LF), (0xCD, KEY_RT), (0xCF, KEY_END),
     (0xD0, KEY_DN), (0xD1, KEY_PGDN), (0xD2, KEY_INS), (0xD3, KEY_DEL)]"

definition normal_row :: "u8 list" where
  "normal_row = [0, 0x1B] @ lit ''1234567890-='' @ [8, 9] @ lit ''qwertyuiop[]'' @ [10, 0]
       @ lit ''asdfghjkl;'' @ [0x27, 0x60, 0, 0x5C] @ lit ''zxcvbnm,./'' @ [0, 0x2A, 0, 0x20]
       @ replicate 13 0 @ lit ''789-456+1230.'' @ replicate 4 0"

definition normalmap :: "u8 \<Rightarrow> u8" where
  "normalmap = tbl normal_row
     ([(0xC7, KEY_HOME), (0x9C, 10), (0xB5, 0x2F)] @ extended_keys)"

definition shift_row :: "u8 list" where
  "shift_row = [0, 0x1B] @ lit ''!@#$%^&*()_+'' @ [8, 9] @ lit ''QWERTYUIOP{}'' @ [10, 0]
       @ lit ''ASDFGHJKL:'' @ [0x22, 0x7E, 0, 0x7C] @ lit ''ZXCVBNM<>?'' @ [0, 0x2A, 0, 0x20]
       @ replicate 13 0 @ lit ''789-456+1230.'' @ replicate 4 0"

definition shiftmap :: "u8 \<Rightarrow> u8" where
  "shiftmap = tbl shift_row
     ([(0xC7, KEY_HOME), (0x9C, 10), (0xB5, 0x2F)] @ extended_keys)"

definition ctl_of :: "u8 list \<Rightarrow> u8 list" where
  "ctl_of = map (\<lambda>x. x - 0x40)"

definition ctl_row :: "u8 list" where
  "ctl_row = replicate 16 0 @ ctl_of (lit ''QWERTYUIOP'') @ [0, 0, 13, 0] @ ctl_of (lit ''ASDFGHJKL'')
       @ [0, 0, 0, 0] @ ctl_of [0x5C] @ ctl_of (lit ''ZXCVBNM'') @ [0, 0] @ ctl_of [0x2F] @ [0, 0]"

definition ctlmap :: "u8 \<Rightarrow> u8" where
  "ctlmap = tbl ctl_row
     ([(0x97, KEY_HOME), (0xB5, 0x2F - 0x40)] @ extended_keys)"

definition charcode :: "u32 \<Rightarrow> u8 \<Rightarrow> u8" where
  "charcode i = (if i = 0 then normalmap else if i = 1 then shiftmap else ctlmap)"

section \<open>Keyboard\<close>

text \<open>What one byte from the keyboard does: the character (0: none yet) and the new shift state.\<close>

definition caps :: "u8 \<Rightarrow> u8" where
  "caps c = (if 0x61 \<le> c \<and> c \<le> 0x7A then c - 32 else if 0x41 \<le> c \<and> c \<le> 0x5A then c + 32 else c)"

definition kbd_decode :: "u8 \<Rightarrow> u32 \<Rightarrow> u8 \<times> u32" where
  "kbd_decode data shift =
     (if data = 0xE0 then (0, shift OR E0ESC)
      else if data AND 0x80 \<noteq> 0 then
        let d = (if shift AND E0ESC \<noteq> 0 then data else data AND 0x7F)
        in (0, shift AND NOT (shiftcode d OR E0ESC))
      else
        let d = (if shift AND E0ESC \<noteq> 0 then data OR 0x80 else data);
            sh0 = (if shift AND E0ESC \<noteq> 0 then shift AND NOT E0ESC else shift);
            sh = (sh0 OR shiftcode d) XOR togglecode d;
            c = charcode (sh AND (CTL OR SHIFT)) d
        in (if sh AND CAPSLOCK \<noteq> 0 then caps c else c, sh))"

text \<open>None is the -1 of the C code: no data, or data that is not the keyboard's (left unread).\<close>

definition kbd_proc_data :: "console \<Rightarrow> u8 option \<times> console" where
  "kbd_proc_data st = (case kbd_in st of
       [] \<Rightarrow> (None, st)
     | (stat, data) # rest \<Rightarrow>
         if stat AND KBS_DIB = 0 then (None, st\<lparr>kbd_in := rest\<rparr>)
         else if stat AND KBS_TERR \<noteq> 0 then (None, st)
         else let (c, sh) = kbd_decode data (kbd_shift st);
                  boot = (NOT sh AND (CTL OR ALT) = 0 \<and> c = KEY_DEL)
              in (Some c, st\<lparr>kbd_in := rest, kbd_shift := sh, rebooted := rebooted st \<or> boot\<rparr>))"

definition serial_proc_data :: "console \<Rightarrow> u8 option \<times> console" where
  "serial_proc_data st = (case serial_in st of [] \<Rightarrow> (None, st)
     | c # rest \<Rightarrow> (Some c, st\<lparr>serial_in := rest\<rparr>))"

section \<open>The circular input buffer\<close>

definition cons_store :: "u8 \<Rightarrow> console \<Rightarrow> console" where
  "cons_store c st = st\<lparr>cons_buf := (cons_buf st)(wpos st := c),
     wpos := (if wpos st + 1 = CONSBUFSIZE then 0 else wpos st + 1)\<rparr>"

definition cons_take :: "console \<Rightarrow> console" where
  "cons_take st = st\<lparr>rpos := (if rpos st + 1 = CONSBUFSIZE then 0 else rpos st + 1)\<rparr>"

text \<open>The loop drains the device; None stands for a loop that does not end.\<close>

partial_function (option) cons_intr :: "(console \<Rightarrow> u8 option \<times> console) \<Rightarrow> console \<Rightarrow> console option" where
  "cons_intr proc st = (case proc st of (None, st') \<Rightarrow> Some st'
     | (Some c, st') \<Rightarrow> cons_intr proc (if c = 0 then st' else cons_store c st'))"

definition serial_intr :: "console \<Rightarrow> console option" where
  "serial_intr st = (if serial_exists st then cons_intr serial_proc_data st else Some st)"

definition kbd_intr :: "console \<Rightarrow> console option" where
  "kbd_intr st = cons_intr kbd_proc_data st"

definition cons_getc :: "console \<Rightarrow> (u8 \<times> console) option" where
  "cons_getc st = (case serial_intr st of None \<Rightarrow> None | Some st1 \<Rightarrow>
     (case kbd_intr st1 of None \<Rightarrow> None | Some st2 \<Rightarrow>
        if rpos st2 \<noteq> wpos st2 then Some (cons_buf st2 (rpos st2), cons_take st2) else Some (0, st2)))"

partial_function (option) getchar :: "console \<Rightarrow> (u8 \<times> console) option" where
  "getchar st = (case cons_getc st of None \<Rightarrow> None
     | Some (c, st') \<Rightarrow> if c = 0 then getchar st' else Some (c, st'))"

section \<open>Output\<close>

text \<open>A character goes to the screen with its attribute in the high byte.\<close>

definition cga_scroll :: "console \<Rightarrow> console" where
  "cga_scroll st = (if unat (crt_pos st) \<ge> CRT_SIZE
     then st\<lparr>crt_buf := (\<lambda>i. if i < CRT_SIZE - CRT_COLS then crt_buf st (i + CRT_COLS)
             else if i < CRT_SIZE then 0x0720 else crt_buf st i),
           crt_pos := crt_pos st - of_nat CRT_COLS\<rparr>
     else st)"

definition with_attr :: "u32 \<Rightarrow> u32" where
  "with_attr c = (if c AND NOT 0xFF = 0 then c OR 0x0700 else c)"

definition cga_cell :: "u32 \<Rightarrow> console \<Rightarrow> console" where
  "cga_cell c st = (let ch = c AND 0xFF in
     if ch = 8 then
       (if crt_pos st > 0
        then st\<lparr>crt_pos := crt_pos st - 1,
               crt_buf := (crt_buf st)(unat (crt_pos st - 1) := ucast ((c AND NOT 0xFF) OR 0x20))\<rparr>
        else st)
     else if ch = 10 then
       (let p = crt_pos st + of_nat CRT_COLS in st\<lparr>crt_pos := p - p mod of_nat CRT_COLS\<rparr>)
     else if ch = 13 then st\<lparr>crt_pos := crt_pos st - crt_pos st mod of_nat CRT_COLS\<rparr>
     else st\<lparr>crt_buf := (crt_buf st)(unat (crt_pos st) := ucast c), crt_pos := crt_pos st + 1\<rparr>)"

definition send_char :: "u32 \<Rightarrow> console \<Rightarrow> console" where
  "send_char c st = st\<lparr>sent := c # sent st\<rparr>"

text \<open>A space, as cons\_putc prints it: the recursive calls of cga\_putc for a tab end here.\<close>

definition cons_space :: "console \<Rightarrow> console" where
  "cons_space st = cga_scroll (cga_cell (with_attr 0x20) (send_char 0x20 st))"

definition cga_putc :: "u32 \<Rightarrow> console \<Rightarrow> console" where
  "cga_putc c st = (let c' = with_attr c in
     cga_scroll (if c' AND 0xFF = 9 then (cons_space ^^ 5) st else cga_cell c' st))"

definition cons_putc :: "u32 \<Rightarrow> console \<Rightarrow> console" where
  "cons_putc c st = cga_putc c (send_char c st)"

definition cputchar :: "u32 \<Rightarrow> console \<Rightarrow> console" where
  "cputchar = cons_putc"

definition iscons :: "u32 \<Rightarrow> bool" where
  "iscons fdnum = True"

section \<open>Line editing (lib/readline.c)\<close>

definition BUFLEN :: nat where [simp]: "BUFLEN = 1024"

text \<open>
  One character of the loop: the line typed so far (the first \<open>i\<close> bytes of the buffer), what is
  echoed, and whether the line is complete. The console returns bytes, so no read error occurs.
\<close>

definition readline_char :: "u8 \<Rightarrow> u8 list \<Rightarrow> u8 list \<times> u32 list \<times> bool" where
  "readline_char c line =
     (if (c = 8 \<or> c = 0x7F) \<and> length line > 0 then (butlast line, [8], False)
      else if c \<ge> 0x20 \<and> length line < BUFLEN - 1 then (line @ [c], [ucast c], False)
      else if c = 10 \<or> c = 13 then (line, [10], True)
      else (line, [], False))"

partial_function (option) readline_loop :: "u8 list \<Rightarrow> console \<Rightarrow> (u8 list \<times> console) option" where
  "readline_loop line st = (case getchar st of None \<Rightarrow> None | Some (c, st1) \<Rightarrow>
     (case readline_char c line of (line', echo, finished) \<Rightarrow>
        let st2 = fold cputchar echo st1 in
        if finished then Some (line', st2) else readline_loop line' st2))"

definition readline :: "u32 list \<Rightarrow> console \<Rightarrow> (u8 list \<times> console) option" where
  "readline prompt st = readline_loop [] (fold cputchar prompt st)"

section \<open>The input buffer is a queue\<close>

text \<open>
  The contract of a bounded queue: as long as there is room, what goes in comes out in the same
  order. The client lemmas are about whole runs of insertions and removals.
\<close>

locale bounded_fifo =
  fixes inv :: "'s \<Rightarrow> bool"
    and items :: "'s \<Rightarrow> 'a list"
    and enq :: "'a \<Rightarrow> 's \<Rightarrow> 's"
    and deq :: "'s \<Rightarrow> 's"
    and cap :: nat
  assumes inv_enq: "inv s \<Longrightarrow> inv (enq x s)"
    and inv_deq: "inv s \<Longrightarrow> items s \<noteq> [] \<Longrightarrow> inv (deq s)"
    and items_enq: "inv s \<Longrightarrow> length (items s) < cap \<Longrightarrow> items (enq x s) = items s @ [x]"
    and items_deq: "inv s \<Longrightarrow> items s \<noteq> [] \<Longrightarrow> items (deq s) = tl (items s)"
begin

lemma enq_all:
  "inv s \<Longrightarrow> length (items s) + length xs \<le> cap \<Longrightarrow>
     inv (fold enq xs s) \<and> items (fold enq xs s) = items s @ xs"
proof (induction xs arbitrary: s)
  case Nil then show ?case by simp
next
  case (Cons x xs)
  then have "items (enq x s) = items s @ [x]" "inv (enq x s)" by (auto intro: items_enq inv_enq)
  with Cons.IH [of "enq x s"] Cons.prems show ?case by simp
qed

lemma deq_many:
  "inv s \<Longrightarrow> n \<le> length (items s) \<Longrightarrow> inv ((deq ^^ n) s) \<and> items ((deq ^^ n) s) = drop n (items s)"
proof (induction n)
  case 0 then show ?case by simp
next
  case (Suc n)
  then have "items ((deq ^^ n) s) \<noteq> []" by simp
  with Suc show ?case using items_deq [of "(deq ^^ n) s"] inv_deq [of "(deq ^^ n) s"]
    by (simp add: tl_drop drop_Suc)
qed

end

definition ring_ok :: "console \<Rightarrow> bool" where
  "ring_ok st \<longleftrightarrow> rpos st < CONSBUFSIZE \<and> wpos st < CONSBUFSIZE"

definition pending_chars :: "console \<Rightarrow> u8 list" where
  "pending_chars st = map (\<lambda>i. cons_buf st ((rpos st + i) mod CONSBUFSIZE))
     [0..<(wpos st + CONSBUFSIZE - rpos st) mod CONSBUFSIZE]"

lemma ring_size:
  assumes "r < (512 :: nat)" "w < 512"
  shows "(w + 512 - r) mod 512 = (if r \<le> w then w - r else w + 512 - r)"
proof (cases "r \<le> w")
  case True
  then have "w + 512 - r = (w - r) + 512" by simp
  then show ?thesis using True assms by (simp only: mod_add_self2) simp
qed (use assms in simp)

lemma items_store:
  assumes "ring_ok st" "length (pending_chars st) < 511"
  shows "pending_chars (cons_store c st) = pending_chars st @ [c]"
proof -
  let ?r = "rpos st" and ?w = "wpos st"
  let ?n = "(?w + 512 - ?r) mod 512" and ?w' = "if ?w + 1 = 512 then 0 else ?w + 1"
  have b: "?r < 512" "?w < 512" using assms(1) by (simp_all add: ring_ok_def)
  have n: "?n < 511" using assms(2) by (simp add: pending_chars_def)
  have size: "(?r \<le> ?w \<and> ?n = ?w - ?r) \<or> (?w < ?r \<and> ?n = ?w + 512 - ?r)"
    using ring_size [OF b] by auto
  have n': "(?w' + 512 - ?r) mod 512 = Suc ?n"
  proof -
    have w': "?w' < 512" "(?w + 1 = 512 \<and> ?w' = 0) \<or> (?w + 1 < 512 \<and> ?w' = ?w + 1)" using b by auto
    have "(?r \<le> ?w' \<and> (?w' + 512 - ?r) mod 512 = ?w' - ?r)
        \<or> (?w' < ?r \<and> (?w' + 512 - ?r) mod 512 = ?w' + 512 - ?r)"
      using ring_size [OF b(1) w'(1)] by auto
    then show ?thesis using size w'(2) n b by linarith
  qed
  have last: "(?r + ?n) mod 512 = ?w"
  proof (cases "?r + ?n < 512")
    case False
    then have "(?r + ?n) mod 512 = ?r + ?n - 512" using n b by (simp add: le_mod_geq)
    then show ?thesis using size b False by linarith
  next
    case True
    then have "(?r + ?n) mod 512 = ?r + ?n" by simp
    then show ?thesis using size b True by linarith
  qed
  have other: "(?r + i) mod 512 \<noteq> ?w" if "i < ?n" for i
  proof (cases "?r + i < 512")
    case True
    then have "(?r + i) mod 512 = ?r + i" by simp
    then show ?thesis using that size b True by linarith
  next
    case False
    then have "(?r + i) mod 512 = ?r + i - 512" using that n b by (simp add: le_mod_geq)
    then show ?thesis using that size b False by linarith
  qed
  have "pending_chars (cons_store c st) = map (\<lambda>i. ((cons_buf st)(?w := c)) ((?r + i) mod 512)) [0..<Suc ?n]"
    using n' by (simp add: pending_chars_def cons_store_def)
  also have "\<dots> = map (\<lambda>i. cons_buf st ((?r + i) mod 512)) [0..<?n] @ [c]"
    using last other by simp
  finally show ?thesis by (simp add: pending_chars_def)
qed

lemma items_take:
  assumes "ring_ok st" "pending_chars st \<noteq> []"
  shows "pending_chars (cons_take st) = tl (pending_chars st)"
    and "cons_buf st (rpos st) = hd (pending_chars st)" and "rpos st \<noteq> wpos st"
proof -
  let ?r = "rpos st" and ?w = "wpos st"
  let ?n = "(?w + 512 - ?r) mod 512" and ?r' = "if ?r + 1 = 512 then 0 else ?r + 1"
  have b: "?r < 512" "?w < 512" using assms(1) by (simp_all add: ring_ok_def)
  have n: "0 < ?n" using assms(2) by (simp add: pending_chars_def)
  then show "?r \<noteq> ?w" using b by auto
  have r': "?r' < 512" "?r' = (?r + 1) mod 512" using b by (auto simp: le_mod_geq)
  have n': "(?w + 512 - ?r') mod 512 = ?n - 1"
  proof -
    have w: "(?r + 1 = 512 \<and> ?r' = 0) \<or> (?r + 1 < 512 \<and> ?r' = ?r + 1)" using b by auto
    have "(?r \<le> ?w \<and> ?n = ?w - ?r) \<or> (?w < ?r \<and> ?n = ?w + 512 - ?r)"
      "(?r' \<le> ?w \<and> (?w + 512 - ?r') mod 512 = ?w - ?r')
        \<or> (?w < ?r' \<and> (?w + 512 - ?r') mod 512 = ?w + 512 - ?r')"
      using ring_size [OF b] ring_size [OF r'(1) b(2)] by auto
    then show ?thesis using w n b by linarith
  qed
  have idx: "(?r' + i) mod 512 = (?r + Suc i) mod 512" for i
    unfolding r'(2) by (simp add: mod_simps)
  have "pending_chars (cons_take st) = map (\<lambda>i. cons_buf st ((?r' + i) mod 512)) [0..<?n - 1]"
    using n' by (simp add: pending_chars_def cons_take_def)
  also have "\<dots> = map (\<lambda>i. cons_buf st ((?r + Suc i) mod 512)) [0..<?n - 1]" by (simp only: idx)
  also have "\<dots> = map (\<lambda>i. cons_buf st ((?r + i) mod 512)) [1..<?n]"
    using n by (intro nth_equalityI) simp_all
  also have "\<dots> = tl (pending_chars st)" using n by (simp add: pending_chars_def upt_conv_Cons)
  finally show "pending_chars (cons_take st) = tl (pending_chars st)" .
  show "cons_buf st ?r = hd (pending_chars st)"
    using n b by (simp add: pending_chars_def upt_conv_Cons)
qed

interpretation ring: bounded_fifo ring_ok pending_chars cons_store cons_take 511
proof
  show "ring_ok st \<Longrightarrow> ring_ok (cons_store c st)" for st c by (auto simp: ring_ok_def cons_store_def)
  show "ring_ok st \<Longrightarrow> pending_chars st \<noteq> [] \<Longrightarrow> ring_ok (cons_take st)" for st
    by (auto simp: ring_ok_def cons_take_def)
qed (simp_all add: items_store items_take)

section \<open>Draining the devices\<close>

definition store_nz :: "u8 \<Rightarrow> console \<Rightarrow> console" where
  "store_nz c st = (if c = 0 then st else cons_store c st)"

lemma store_nz_frame [simp]:
  "serial_in (store_nz c st) = serial_in st" "kbd_in (store_nz c st) = kbd_in st"
  "serial_exists (store_nz c st) = serial_exists st" "rpos (store_nz c st) = rpos st"
  "store_nz c (st\<lparr>serial_in := x\<rparr>) = (store_nz c st)\<lparr>serial_in := x\<rparr>"
  by (simp_all add: store_nz_def cons_store_def)

lemma cons_intr_serial:
  "cons_intr serial_proc_data (st\<lparr>serial_in := cs\<rparr>) = Some ((fold store_nz cs st)\<lparr>serial_in := []\<rparr>)"
proof (induction cs arbitrary: st)
  case Nil
  then show ?case by (subst cons_intr.simps) (simp add: serial_proc_data_def)
next
  case (Cons c cs)
  have "cons_intr serial_proc_data (st\<lparr>serial_in := c # cs\<rparr>)
      = cons_intr serial_proc_data (store_nz c (st\<lparr>serial_in := cs\<rparr>))"
    by (subst cons_intr.simps) (simp add: serial_proc_data_def store_nz_def)
  then show ?case using Cons.IH [of "store_nz c st"] by simp
qed

lemma serial_intr_exec:
  "serial_intr st = Some (if serial_exists st then (fold store_nz (serial_in st) st)\<lparr>serial_in := []\<rparr> else st)"
  using cons_intr_serial [of "serial_in st" st] by (simp add: serial_intr_def)

lemma kbd_intr_returns: "\<exists>st'. kbd_intr st = Some st' \<and> serial_exists st' = serial_exists st"
proof (induction "length (kbd_in st)" arbitrary: st rule: less_induct)
  case less
  show ?case
  proof (cases "kbd_in st")
    case Nil
    then show ?thesis by (simp add: kbd_intr_def cons_intr.simps [of kbd_proc_data] kbd_proc_data_def)
  next
    case (Cons k rest)
    obtain stat data where k: "k = (stat, data)" by (cases k)
    obtain c sh where d: "kbd_decode data (kbd_shift st) = (c, sh)" by fastforce
    show ?thesis
    proof (cases "stat AND KBS_DIB = 0 \<or> stat AND KBS_TERR \<noteq> 0")
      case True
      then show ?thesis
        using Cons k by (auto simp: kbd_intr_def cons_intr.simps [of kbd_proc_data] kbd_proc_data_def)
    next
      case False
      let ?st = "store_nz c (st\<lparr>kbd_in := rest, kbd_shift := sh,
        rebooted := rebooted st \<or> (NOT sh AND (CTL OR ALT) = 0 \<and> c = KEY_DEL)\<rparr>)"
      have "kbd_intr st = kbd_intr ?st"
        unfolding kbd_intr_def using False Cons k d
        by (subst cons_intr.simps) (simp add: kbd_proc_data_def store_nz_def)
      moreover have "length (kbd_in ?st) < length (kbd_in st)" using Cons by simp
      ultimately show ?thesis using less [of ?st] by simp
    qed
  qed
qed

lemma kbd_intr_idle: "kbd_in st = [] \<Longrightarrow> kbd_intr st = Some st"
  by (simp add: kbd_intr_def cons_intr.simps [of kbd_proc_data] kbd_proc_data_def)

lemma store_all:
  assumes "ring_ok st" "length (pending_chars st) + length cs \<le> 511" "0 \<notin> set cs"
  shows "ring_ok (fold store_nz cs st)" "pending_chars (fold store_nz cs st) = pending_chars st @ cs"
proof -
  have "fold store_nz cs st = fold cons_store cs st"
    by (rule fold_cong) (use assms(3) in \<open>auto simp: store_nz_def\<close>)
  then show "ring_ok (fold store_nz cs st)" "pending_chars (fold store_nz cs st) = pending_chars st @ cs"
    using ring.enq_all [OF assms(1,2)] by simp_all
qed

lemma fold_store_frame [simp]:
  "kbd_in (fold store_nz cs st) = kbd_in st" "serial_exists (fold store_nz cs st) = serial_exists st"
  by (induction cs arbitrary: st) simp_all

lemma ring_serial_in [simp]:
  "ring_ok (st\<lparr>serial_in := x\<rparr>) = ring_ok st" "pending_chars (st\<lparr>serial_in := x\<rparr>) = pending_chars st"
  by (simp_all add: ring_ok_def pending_chars_def)

text \<open>With the keyboard quiet, getchar takes the next pending character.\<close>

definition quiet :: "console \<Rightarrow> u8 list \<Rightarrow> bool" where
  "quiet st cs \<longleftrightarrow> ring_ok st \<and> kbd_in st = [] \<and> (if serial_exists st
     then 0 \<notin> set (serial_in st) \<and> length (pending_chars st) + length (serial_in st) \<le> 511
       \<and> cs = pending_chars st @ serial_in st else cs = pending_chars st)"

lemma getchar_quiet:
  assumes "quiet st (c # cs)" "c \<noteq> 0"
  shows "\<exists>st'. getchar st = Some (c, st') \<and> quiet st' cs \<and> crt_pos st' < 2000 = (crt_pos st < 2000)"
proof -
  let ?s1 = "if serial_exists st then (fold store_nz (serial_in st) st)\<lparr>serial_in := []\<rparr> else st"
  have s1: "ring_ok ?s1" "kbd_in ?s1 = []" "pending_chars ?s1 = c # cs" "serial_exists ?s1 = serial_exists st"
    using assms(1) store_all [of st "serial_in st"] by (auto simp: quiet_def split: if_splits)
  have crt: "crt_pos (fold store_nz xs s) = crt_pos s" for xs s
    by (induction xs arbitrary: s) (simp_all add: store_nz_def cons_store_def)
  have len: "length (pending_chars ?s1) \<le> 511"
  proof -
    have "(wpos ?s1 + 512 - rpos ?s1) mod 512 < 512" by (rule mod_less_divisor) simp
    then show ?thesis by (simp add: pending_chars_def)
  qed
  note take = items_take [OF s1(1), unfolded s1(3), simplified]
  have "cons_getc st = Some (c, cons_take ?s1)"
    using take(2,3) s1(2) kbd_intr_idle [of ?s1] by (simp only: cons_getc_def serial_intr_exec option.case) simp
  then have "getchar st = Some (c, cons_take ?s1)" using assms(2) by (simp add: getchar.simps [of st])
  moreover have "ring_ok (cons_take ?s1)" using ring.inv_deq [OF s1(1)] s1(3) by simp
  moreover have "serial_in ?s1 = [] \<or> \<not> serial_exists ?s1" by simp
  moreover have "kbd_in (cons_take ?s1) = []" "serial_exists (cons_take ?s1) = serial_exists st"
    "serial_in (cons_take ?s1) = serial_in ?s1" using s1 by (simp_all only: cons_take_def) simp_all
  ultimately show ?thesis
    using take(1) s1(4) len s1(3) crt by (auto simp: quiet_def cons_take_def)
qed

text \<open>The characters the keyboard has to offer: what its bytes decode to, up to the first status without data.\<close>

fun kbd_chars :: "(u8 \<times> u8) list \<Rightarrow> u32 \<Rightarrow> u8 list" where
  "kbd_chars [] sh = []"
| "kbd_chars ((stat, data) # rest) sh =
     (if stat AND KBS_DIB = 0 \<or> stat AND KBS_TERR \<noteq> 0 then []
      else fst (kbd_decode data sh) # kbd_chars rest (snd (kbd_decode data sh)))"

lemma kbd_frame:
  "ring_ok (st\<lparr>kbd_in := k\<rparr>) = ring_ok st" "pending_chars (st\<lparr>kbd_in := k\<rparr>) = pending_chars st"
  "ring_ok (st\<lparr>kbd_in := k, kbd_shift := sh, rebooted := b\<rparr>) = ring_ok st"
  "pending_chars (st\<lparr>kbd_in := k, kbd_shift := sh, rebooted := b\<rparr>) = pending_chars st"
  by (simp_all add: ring_ok_def pending_chars_def)

lemma store_nz_ring:
  assumes "ring_ok st" "length (pending_chars st) + length (filter (\<lambda>c. c \<noteq> 0) [c]) \<le> 511"
  shows "ring_ok (store_nz c st)" "pending_chars (store_nz c st) = pending_chars st @ filter (\<lambda>c. c \<noteq> 0) [c]"
  using assms ring.inv_enq [of st c] items_store [of st c] by (auto simp: store_nz_def)

lemma kbd_intr_chars:
  assumes "ring_ok st" "length (pending_chars st) + length (filter (\<lambda>c. c \<noteq> 0) (kbd_chars (kbd_in st) (kbd_shift st))) \<le> 511"
  shows "\<exists>st'. kbd_intr st = Some st' \<and> ring_ok st'
    \<and> pending_chars st' = pending_chars st @ filter (\<lambda>c. c \<noteq> 0) (kbd_chars (kbd_in st) (kbd_shift st))"
  using assms
proof (induction "kbd_in st" arbitrary: st)
  case Nil
  then show ?case by (simp add: kbd_intr_def cons_intr.simps [of kbd_proc_data] kbd_proc_data_def flip: Nil(1))
next
  case (Cons k rest)
  obtain stat data where k: "kbd_in st = (stat, data) # rest" using Cons.hyps(2) by (metis surj_pair)
  obtain c sh where d: "kbd_decode data (kbd_shift st) = (c, sh)" by fastforce
  show ?case
  proof (cases "stat AND KBS_DIB = 0 \<or> stat AND KBS_TERR \<noteq> 0")
    case True
    then show ?thesis
      using k Cons.prems by (auto simp: kbd_intr_def cons_intr.simps [of kbd_proc_data] kbd_proc_data_def kbd_frame)
  next
    case False
    let ?s1 = "st\<lparr>kbd_in := rest, kbd_shift := sh, rebooted := rebooted st \<or> (NOT sh AND (CTL OR ALT) = 0 \<and> c = KEY_DEL)\<rparr>"
    let ?s2 = "store_nz c ?s1"
    have run: "kbd_intr st = kbd_intr ?s2"
      unfolding kbd_intr_def using False k d
      by (subst cons_intr.simps) (simp add: kbd_proc_data_def store_nz_def)
    have chars: "kbd_chars (kbd_in st) (kbd_shift st) = c # kbd_chars rest sh" using False k d by simp
    have sh2: "kbd_shift ?s2 = sh" by (simp add: store_nz_def cons_store_def)
    have r: "ring_ok ?s2" "pending_chars ?s2 = pending_chars st @ filter (\<lambda>c. c \<noteq> 0) [c]"
      using store_nz_ring [of ?s1 c, unfolded kbd_frame] Cons.prems unfolding chars by (auto split: if_splits)
    have "\<exists>st'. kbd_intr ?s2 = Some st' \<and> ring_ok st'
      \<and> pending_chars st' = pending_chars ?s2 @ filter (\<lambda>c. c \<noteq> 0) (kbd_chars (kbd_in ?s2) (kbd_shift ?s2))"
      by (rule Cons.hyps(1)) (use r sh2 Cons.prems(2) chars in auto)
    then show ?thesis using run r sh2 chars by auto
  qed
qed

lemma serial_ring:
  assumes "ring_ok st" "length (pending_chars st) + length (filter (\<lambda>c. c \<noteq> 0) cs) \<le> 511"
  shows "ring_ok (fold store_nz cs st) \<and> pending_chars (fold store_nz cs st) = pending_chars st @ filter (\<lambda>c. c \<noteq> 0) cs"
  using assms
proof (induction cs arbitrary: st)
  case (Cons c cs)
  then show ?case using store_nz_ring [of st c] Cons.IH [of "store_nz c st"] by auto
qed simp

text \<open>What cons\_getc finds at the devices; a zero is no character.\<close>

definition device_chars :: "console \<Rightarrow> u8 list" where
  "device_chars st = filter (\<lambda>c. c \<noteq> 0)
     ((if serial_exists st then serial_in st else []) @ kbd_chars (kbd_in st) (kbd_shift st))"

lemma cons_getc_exec:
  assumes "ring_ok st" "q = pending_chars st @ device_chars st" "length q \<le> 511"
  shows "\<exists>st'. cons_getc st = Some (if q = [] then 0 else hd q, st') \<and> ring_ok st' \<and> pending_chars st' = tl q"
proof -
  let ?s1 = "if serial_exists st then (fold store_nz (serial_in st) st)\<lparr>serial_in := []\<rparr> else st"
  have kb: "kbd_in ?s1 = kbd_in st" "kbd_shift ?s1 = kbd_shift st"
  proof -
    have "kbd_shift (fold store_nz cs s) = kbd_shift s" for cs s
      by (induction cs arbitrary: s) (simp_all add: store_nz_def cons_store_def)
    then show "kbd_in ?s1 = kbd_in st" "kbd_shift ?s1 = kbd_shift st" by simp_all
  qed
  have s1: "ring_ok ?s1" "pending_chars ?s1 = pending_chars st @ filter (\<lambda>c. c \<noteq> 0) (if serial_exists st then serial_in st else [])"
    using serial_ring [of st "serial_in st"] assms by (auto simp: device_chars_def)
  have len: "length (pending_chars ?s1) + length (filter (\<lambda>c. c \<noteq> 0) (kbd_chars (kbd_in ?s1) (kbd_shift ?s1))) \<le> 511"
    using assms(2,3) unfolding s1 kb by (simp add: device_chars_def)
  obtain st2 where 2: "kbd_intr ?s1 = Some st2" "ring_ok st2" "pending_chars st2 = q"
    using kbd_intr_chars [OF s1(1) len] unfolding s1(2) kb assms(2) device_chars_def by auto
  have get: "cons_getc st = (if rpos st2 \<noteq> wpos st2 then Some (cons_buf st2 (rpos st2), cons_take st2) else Some (0, st2))"
    by (simp only: cons_getc_def serial_intr_exec option.case 2(1))
  show ?thesis
  proof (cases "q = []")
    case True
    then have "rpos st2 = wpos st2"
      using 2(2,3) ring_size [of "rpos st2" "wpos st2"] by (auto simp: ring_ok_def pending_chars_def split: if_splits)
    then show ?thesis using get 2 True by simp
  next
    case False
    then show ?thesis using get items_take [OF 2(2)] ring.inv_deq [OF 2(2)] 2(3) by simp
  qed
qed

section \<open>The screen\<close>

text \<open>Output does not touch the input side.\<close>

definition input_side :: "console \<Rightarrow> (u8 \<times> u8) list \<times> u8 list \<times> bool \<times> u32 \<times> (nat \<Rightarrow> u8) \<times> nat \<times> nat \<times> bool" where
  "input_side st = (kbd_in st, serial_in st, serial_exists st, kbd_shift st, cons_buf st, rpos st, wpos st,
     rebooted st)"

lemma input_side_cell:
  "input_side (cga_scroll st) = input_side st" "input_side (cga_cell c st) = input_side st"
  "input_side (send_char c st) = input_side st"
  by (simp_all add: input_side_def cga_scroll_def cga_cell_def send_char_def)

lemma input_side_spaces: "input_side ((cons_space ^^ n) st) = input_side st"
  by (induction n) (simp_all add: cons_space_def input_side_cell)

lemma input_side_putc: "input_side (cons_putc c st) = input_side st"
  by (simp add: cons_putc_def cga_putc_def input_side_cell input_side_spaces)

lemma quiet_putc: "quiet (fold cputchar echo st) cs = quiet st cs"
proof -
  have "input_side (fold cputchar echo st) = input_side st"
    by (induction echo arbitrary: st) (simp_all add: cputchar_def input_side_putc)
  then show ?thesis by (simp add: input_side_def quiet_def ring_ok_def pending_chars_def)
qed

definition crt_ok :: "console \<Rightarrow> bool" where
  "crt_ok st \<longleftrightarrow> unat (crt_pos st) < CRT_SIZE"

text \<open>What cga\_putc may leave before it scrolls: at most the position just past the screen.\<close>

lemma cga_cell_bound:
  assumes "crt_ok st"
  shows "unat (crt_pos (cga_cell c st)) \<le> CRT_SIZE" "2000 \<le> i \<Longrightarrow> crt_buf (cga_cell c st) i = crt_buf st i"
proof -
  let ?p = "crt_pos st"
  have p: "unat ?p < 2000" using assms by (simp add: crt_ok_def)
  have nl: "unat (?p + 80 - (?p + 80) mod 80) \<le> 2000"
  proof -
    have q: "unat (?p + 80) = unat ?p + 80" using p by (simp add: unat_word_ariths)
    have "(?p + 80) mod 80 \<le> ?p + 80" by (simp add: word_le_nat_alt unat_mod)
    then have "unat (?p + 80 - (?p + 80) mod 80) = unat ?p + 80 - (unat ?p + 80) mod 80"
      by (simp add: unat_sub unat_mod q)
    also have "\<dots> = (unat ?p + 80) div 80 * 80" by (simp only: minus_mod_eq_div_mult)
    also have "\<dots> \<le> 2000" using p by simp
    finally show ?thesis .
  qed
  have cr: "unat (?p - ?p mod 80) \<le> 2000"
  proof -
    have "?p mod 80 \<le> ?p" by (simp add: word_le_nat_alt unat_mod)
    then show ?thesis using p by (simp add: unat_sub)
  qed
  have dec: "unat (?p - 1) < 2000" if "?p > 0"
    using p that by (simp add: unat_minus_one word_gt_0)
  have inc: "unat (?p + 1) = unat ?p + 1" using p by (simp add: unat_word_ariths)
  show "unat (crt_pos (cga_cell c st)) \<le> CRT_SIZE"
    using p nl cr dec inc by (auto simp: cga_cell_def)
  show "crt_buf (cga_cell c st) i = crt_buf st i" if "2000 \<le> i"
    using p dec that by (auto simp: cga_cell_def)
qed

lemma cga_scroll_bound:
  assumes "unat (crt_pos st) \<le> CRT_SIZE"
  shows "crt_ok (cga_scroll st)" "2000 \<le> i \<Longrightarrow> crt_buf (cga_scroll st) i = crt_buf st i"
proof -
  have "unat (crt_pos st - 80) = unat (crt_pos st) - 80" if "unat (crt_pos st) = 2000"
    using that by (subst unat_sub) (simp_all add: word_le_nat_alt)
  then show "crt_ok (cga_scroll st)" using assms by (auto simp: crt_ok_def cga_scroll_def)
  show "2000 \<le> i \<Longrightarrow> crt_buf (cga_scroll st) i = crt_buf st i" by (simp add: cga_scroll_def)
qed

lemma cons_space_bound:
  "crt_ok st \<Longrightarrow> crt_ok ((cons_space ^^ n) st)
     \<and> (\<forall>i \<ge> 2000. crt_buf ((cons_space ^^ n) st) i = crt_buf st i)"
proof (induction n)
  case 0 then show ?case by simp
next
  case (Suc n)
  let ?s = "send_char 0x20 ((cons_space ^^ n) st)"
  have "crt_ok ?s" "\<forall>i \<ge> 2000. crt_buf ?s i = crt_buf st i"
    using Suc by (simp_all add: send_char_def crt_ok_def)
  then show ?case
    using cga_cell_bound [where st = ?s and c = "with_attr 0x20"]
      cga_scroll_bound [where st = "cga_cell (with_attr 0x20) ?s"]
    by (simp add: cons_space_def [of "(cons_space ^^ n) st"])
qed

section \<open>Letter keys\<close>

text \<open>The scan codes of the keys Q to P, A to L and Z to M.\<close>

definition letter_keys :: "u8 list" where
  "letter_keys = [0x10, 0x11, 0x12, 0x13, 0x14, 0x15, 0x16, 0x17, 0x18, 0x19, 0x1E, 0x1F, 0x20, 0x21, 0x22,
     0x23, 0x24, 0x25, 0x26, 0x2C, 0x2D, 0x2E, 0x2F, 0x30, 0x31, 0x32]"

lemma normal_row_eq: "normal_row =
   [0, 27, 49, 50, 51, 52, 53, 54, 55, 56, 57, 48, 45, 61, 8, 9, 113, 119, 101, 114, 116, 121, 117,
   105, 111, 112, 91, 93, 10, 0, 97, 115, 100, 102, 103, 104, 106, 107, 108, 59, 39, 96, 0, 92, 122,
   120, 99, 118, 98, 110, 109, 44, 46, 47, 0, 42, 0, 32, 0, 0, 0, 0, 0, 0, 0, 0, 0, 0, 0, 0, 0, 55, 56,
   57, 45, 52, 53, 54, 43, 49, 50, 51, 48, 46, 0, 0, 0, 0]"
  by code_simp

lemma shift_row_eq: "shift_row =
   [0, 27, 33, 64, 35, 36, 37, 94, 38, 42, 40, 41, 95, 43, 8, 9, 81, 87, 69, 82, 84, 89, 85, 73, 79,
   80, 123, 125, 10, 0, 65, 83, 68, 70, 71, 72, 74, 75, 76, 58, 34, 126, 0, 124, 90, 88, 67, 86, 66,
   78, 77, 60, 62, 63, 0, 42, 0, 32, 0, 0, 0, 0, 0, 0, 0, 0, 0, 0, 0, 0, 0, 55, 56, 57, 45, 52, 53, 54,
   43, 49, 50, 51, 48, 46, 0, 0, 0, 0]"
  by code_simp

lemma ctl_row_eq: "ctl_row =
   [0, 0, 0, 0, 0, 0, 0, 0, 0, 0, 0, 0, 0, 0, 0, 0, 17, 23, 5, 18, 20, 25, 21, 9, 15, 16, 0, 0, 13, 0,
   1, 19, 4, 6, 7, 8, 10, 11, 12, 0, 0, 0, 0, 28, 26, 24, 3, 22, 2, 14, 13, 0, 0, 239, 0, 0]"
  by code_simp

lemma letter_rows:
  "list_all (\<lambda>d. d AND 0x80 = 0 \<and> d \<noteq> 0xE0 \<and> shiftcode d = 0 \<and> togglecode d = 0
     \<and> (let n = normalmap d in 0x61 \<le> n \<and> n \<le> 0x7A \<and> shiftmap d = n - 32 \<and> ctlmap d = n - 96)) letter_keys"
  by (simp add: letter_keys_def shiftcode_def togglecode_def normalmap_def shiftmap_def ctlmap_def tbl_def
    extended_keys_def normal_row_eq shift_row_eq ctl_row_eq)

section \<open>The line editor\<close>

text \<open>
  What a key does to the line: backspace and delete take the last character away if there is one, a
  printable character is appended while there is room, every other key leaves the line alone. Delete is
  among the characters from space on, so on an empty line it is appended.
\<close>

definition edit :: "u8 \<Rightarrow> u8 list \<Rightarrow> u8 list" where
  "edit c line = (if c \<in> {8, 0x7F} \<and> line \<noteq> [] then butlast line
     else if 0x20 \<le> c \<and> length line < 1023 then line @ [c] else line)"

lemma readline_char_edit: "fst (readline_char c line) = edit c line"
  by (auto simp: readline_char_def edit_def)

definition ends_line :: "u8 \<Rightarrow> bool" where
  "ends_line c \<longleftrightarrow> c = 10 \<or> c = 13"

lemma readline_char_finished: "snd (snd (readline_char c line)) \<longleftrightarrow> ends_line c"
  by (auto simp: readline_char_def ends_line_def)

lemma edit_end: "ends_line c \<Longrightarrow> edit c line = line"
  by (auto simp: edit_def ends_line_def)

lemma readline_quiet:
  assumes "quiet st (cs @ [e])" "0 \<notin> set cs" "\<forall>c \<in> set cs. \<not> ends_line c" "ends_line e"
  shows "\<exists>st'. readline_loop line st = Some (fold edit cs line, st') \<and> quiet st' []"
  using assms
proof (induction cs arbitrary: st line)
  case Nil
  then obtain st1 where g: "getchar st = Some (e, st1)" "quiet st1 []"
    using getchar_quiet [of st e "[]"] by (auto simp: ends_line_def)
  obtain l echo f where r: "readline_char e line = (l, echo, f)" by (metis prod_cases3)
  have "f" "l = line"
    using readline_char_finished [of e line] edit_end [of e line] readline_char_edit [of e line] Nil.prems(4) r
    by simp_all
  then show ?case using g r by (subst readline_loop.simps) (simp add: quiet_putc)
next
  case (Cons c cs)
  then obtain st1 where g: "getchar st = Some (c, st1)" "quiet st1 (cs @ [e])"
    using getchar_quiet [of st c "cs @ [e]"] by auto
  obtain l echo f where r: "readline_char c line = (l, echo, f)" by (metis prod_cases3)
  have f: "\<not> f" "l = edit c line"
    using readline_char_finished [of c line] readline_char_edit [of c line] Cons.prems(3) r by simp_all
  have "readline_loop line st = readline_loop l (fold cputchar echo st1)"
    using g r f(1) by (subst readline_loop.simps) simp
  moreover have "quiet (fold cputchar echo st1) (cs @ [e])" using g(2) by (simp add: quiet_putc)
  ultimately show ?case using Cons.IH [of "fold cputchar echo st1" l] Cons.prems f(2) by simp
qed

lemma edit_bounds:
  "length line < BUFLEN \<Longrightarrow> \<forall>c \<in> set line. 0x20 \<le> c \<Longrightarrow>
     length (fold edit cs line) < BUFLEN \<and> (\<forall>c \<in> set (fold edit cs line). 0x20 \<le> c)"
proof (induction cs arbitrary: line)
  case (Cons c cs)
  have "length (edit c line) < BUFLEN \<and> (\<forall>c \<in> set (edit c line). 0x20 \<le> c)"
    using Cons.prems by (auto simp: edit_def dest: in_set_butlastD)
  then show ?case using Cons.IH [of "edit c line"] by simp
qed simp

section \<open>Properties\<close>

text \<open>C36: cons\_getc is a queue: as long as the characters waiting in the buffer and at the devices are at most
  511 together, it takes in what the serial port and the keyboard have, in this order and without the
  zeros, behind those that wait, and returns and removes the oldest of all, or returns 0 if there is
  none, wherever in the buffer the two positions are.\<close>

theorem console_input_fifo:
  assumes "ring_ok st" "q = pending_chars st @ device_chars st" "length q \<le> 511"
  shows "\<exists>st'. cons_getc st = Some (if q = [] then 0 else hd q, st') \<and> ring_ok st' \<and> pending_chars st' = tl q"
  by (rule cons_getc_exec [OF assms])

theorem console_input_fifo_witness:
  "\<exists>st'. cons_getc (zero_console\<lparr>rpos := 511, wpos := 0, cons_buf := (\<lambda>_. 65), serial_exists := True, serial_in := [66, 0, 67],
       kbd_in := [(1, 0x1E)]\<rparr>) = Some (65, st') \<and> pending_chars st' = [66, 67, 97]"
proof -
  let ?st = "zero_console\<lparr>rpos := 511, wpos := 0, cons_buf := (\<lambda>_. 65), serial_exists := True, serial_in := [66, 0, 67],
       kbd_in := [(1, 0x1E)]\<rparr>"
  have "kbd_decode 0x1E 0 = (97, 0)"
    by (simp add: kbd_decode_def charcode_def shiftcode_def togglecode_def normalmap_def tbl_def extended_keys_def normal_row_eq)
  then have "device_chars ?st = [66, 67, 97]" by (simp add: device_chars_def zero_console_def)
  moreover have "pending_chars ?st = [65]" "ring_ok ?st" by (simp_all add: pending_chars_def ring_ok_def)
  ultimately show ?thesis using console_input_fifo [of ?st "[65, 66, 67, 97]"] by auto
qed

text \<open>The buffer has no overflow check: the character that would be the 512th waiting one makes the
  two positions equal, and everything that was waiting is lost.\<close>

theorem console_input_overflow:
  assumes "ring_ok st" "length (pending_chars st) = 511"
  shows "pending_chars (cons_store c st) = []"
proof -
  have b: "rpos st < 512" "wpos st < 512" "(wpos st + 512 - rpos st) mod 512 = 511"
    using assms by (simp_all add: ring_ok_def pending_chars_def)
  have "(rpos st \<le> wpos st \<and> wpos st - rpos st = 511) \<or> (wpos st < rpos st \<and> wpos st + 512 - rpos st = 511)"
    using ring_size [OF b(1,2)] b(3) by (auto split: if_splits)
  then have "(if wpos st + 1 = 512 then 0 else wpos st + 1) = rpos st" using b(1,2) by auto
  then show ?thesis by (simp add: pending_chars_def cons_store_def)
qed

theorem console_input_overflow_witness:
  "pending_chars (cons_store 65 (zero_console\<lparr>rpos := 7, wpos := 6\<rparr>)) = []"
  by (rule console_input_overflow) (simp_all add: ring_ok_def pending_chars_def)

text \<open>Reading a character always returns: whatever the devices hold, the polling loops end.\<close>

theorem cons_getc_terminates: "\<exists>c st'. cons_getc st = Some (c, st')"
proof -
  let ?s1 = "if serial_exists st then (fold store_nz (serial_in st) st)\<lparr>serial_in := []\<rparr> else st"
  obtain st2 where "kbd_intr ?s1 = Some st2" using kbd_intr_returns by blast
  then show ?thesis by (simp only: cons_getc_def serial_intr_exec option.case) simp
qed

text \<open>Whatever is printed, the cursor stays on the 80 by 25 screen and no cell outside of it is
  written: wrapping, scrolling, tabs and backspace included.\<close>

theorem screen_bounds:
  assumes "crt_ok st"
  shows "crt_ok (fold cputchar cs st) \<and> (\<forall>i \<ge> CRT_SIZE. crt_buf (fold cputchar cs st) i = crt_buf st i)"
proof -
  have one: "crt_ok (cons_putc c st) \<and> (\<forall>i \<ge> 2000. crt_buf (cons_putc c st) i = crt_buf st i)"
    if "crt_ok st" for c st
  proof -
    let ?s = "send_char c st"
    let ?t = "if with_attr c AND 0xFF = 9 then (cons_space ^^ 5) ?s else cga_cell (with_attr c) ?s"
    have s: "crt_ok ?s" "crt_buf ?s = crt_buf st" using that by (simp_all add: send_char_def crt_ok_def)
    have t: "unat (crt_pos ?t) \<le> CRT_SIZE" "\<forall>i \<ge> 2000. crt_buf ?t i = crt_buf st i"
      using cga_cell_bound [OF s(1)] cons_space_bound [OF s(1), of 5] s(2)
      by (auto simp: crt_ok_def less_imp_le)
    then show ?thesis
      using cga_scroll_bound [OF t(1)] by (simp only: cons_putc_def cga_putc_def Let_def) simp
  qed
  show ?thesis
    using assms
  proof (induction cs arbitrary: st)
    case (Cons c cs)
    then show ?case using one [OF Cons.prems, of c] Cons.IH [of "cons_putc c st"] by (simp add: cputchar_def)
  qed simp
qed

theorem screen_bounds_witness: "crt_ok (fold cputchar [10, 9, 8, 65] (zero_console\<lparr>crt_pos := 1999\<rparr>))"
  using screen_bounds [of "zero_console\<lparr>crt_pos := 1999\<rparr>" "[10, 9, 8, 65]"] by (simp add: crt_ok_def)

text \<open>The keyboard tables agree on the letters: for each letter key, Shift and Caps Lock give the
  capital (together they cancel out), Control the control code, and the shift state stays.\<close>

theorem letter_key_decoding:
  assumes "d \<in> set letter_keys"
  shows "\<exists>n. 0x61 \<le> n \<and> n \<le> 0x7A \<and> kbd_decode d 0 = (n, 0) \<and> kbd_decode d SHIFT = (n - 32, SHIFT)
    \<and> kbd_decode d CAPSLOCK = (n - 32, CAPSLOCK)
    \<and> kbd_decode d (SHIFT OR CAPSLOCK) = (n, SHIFT OR CAPSLOCK) \<and> kbd_decode d CTL = (n - 96, CTL)"
proof -
  let ?n = "normalmap d"
  have r: "d AND 0x80 = 0" "d \<noteq> 0xE0" "shiftcode d = 0" "togglecode d = 0" "0x61 \<le> ?n" "?n \<le> 0x7A"
    "shiftmap d = ?n - 32" "ctlmap d = ?n - 96"
    using letter_rows assms by (simp_all add: list_all_iff)
  have up: "caps ?n = ?n - 32" "caps (?n - 32) = ?n"
  proof -
    show "caps ?n = ?n - 32" using r(5,6) by (simp add: caps_def)
    have "unat (?n - 32) = unat ?n - 32" using r(5) by (subst unat_sub) (simp_all add: word_le_nat_alt)
    then show "caps (?n - 32) = ?n" using r(5,6) by (simp add: caps_def word_le_nat_alt) linarith
  qed
  show ?thesis
    using r up by (intro exI [of _ ?n]) (simp add: kbd_decode_def charcode_def)
qed

theorem letter_key_decoding_witness: "\<exists>n. kbd_decode 0x1E 0 = (n, 0) \<and> kbd_decode 0x1E SHIFT = (n - 32, SHIFT)"
  using letter_key_decoding [of "0x1E"] by (auto simp: letter_keys_def)

text \<open>C35: readline returns once a line end waits behind at most 510 other characters, with the line that these
  edit: backspace and delete take the last character away, other control characters do nothing, and the
  line never gets longer than 1023 characters, from whatever length it has when they come; a delete on
  an empty line is kept as a character.\<close>

theorem readline_returns_edited_line:
  assumes "quiet st (cs @ [e])" "0 \<notin> set cs" "\<forall>c \<in> set cs. \<not> ends_line c" "ends_line e"
    and "length line < BUFLEN" "\<forall>c \<in> set line. 0x20 \<le> c"
  shows "\<exists>st1 st2. readline prompt st = Some (fold edit cs [], st1) \<and> quiet st1 []
    \<and> readline_loop line st = Some (fold edit cs line, st2) \<and> quiet st2 []
    \<and> length (fold edit cs line) < BUFLEN \<and> (\<forall>c \<in> set (fold edit cs line). 0x20 \<le> c)"
proof -
  have "quiet (fold cputchar prompt st) (cs @ [e])" using assms(1) by (simp add: quiet_putc)
  from readline_quiet [OF this assms(2-4), of "[]"] readline_quiet [OF assms(1-4), of line] show ?thesis
    using edit_bounds [OF assms(5,6), of cs] by (auto simp: readline_def)
qed

theorem readline_returns_edited_line_witness:
  "\<exists>st'. readline [] (zero_console\<lparr>serial_exists := True, serial_in := [65, 66, 8, 67, 13]\<rparr>) = Some ([65, 67], st')"
proof -
  let ?st = "zero_console\<lparr>serial_exists := True, serial_in := [65, 66, 8, 67, 13]\<rparr>"
  have "quiet ?st ([65, 66, 8, 67] @ [13])"
    by (simp add: quiet_def ring_ok_def pending_chars_def zero_console_def)
  from readline_returns_edited_line [OF this, of "[]" "[]"] show ?thesis
    by (auto simp: ends_line_def edit_def)
qed

end
