(* ===== verification/Kstate.thy ===== *)
theory Kstate
  imports Machine Console
begin

text \<open>
  The state of the kernel: the structures of inc/trap.h, inc/env.h, inc/memlayout.h and
  kern/cpu.h and the globals of kern/*.c, in one record, and the primitive accesses.

  \<^item> A pointer into an array of structures (\<open>struct Env *\<close>, \<open>struct PageInfo *\<close>) is the index
    of the element, NULL is \<open>None\<close>.
  \<^item> A pointer to a page table or a page directory (\<open>pte_t *\<close>) is the number of the page frame
    and, for an entry, the index in it: every one of them is the kernel address of a frame
    (page2kva) and never anything else. The frames are words of 32 bits (\<open>pmem\<close>).
  \<^item> \<open>stack_pte\<close> is what an uninitialised local pointer to a page table entry happens to hold.
  \<^item> What the kernel tells the outside (console output, TLB invalidations, loads of CR3,
    stores through a user mapping) is recorded in \<open>trace\<close>, the newest event first.
\<close>

section \<open>Trap frames (inc/trap.h)\<close>

record PushRegs =
  reg_edi :: u32
  reg_esi :: u32
  reg_ebp :: u32
  reg_oesp :: u32
  reg_ebx :: u32
  reg_edx :: u32
  reg_ecx :: u32
  reg_eax :: u32

record Trapframe =
  tf_regs :: PushRegs
  tf_es :: u16
  tf_ds :: u16
  tf_trapno :: u32
  tf_err :: u32
  tf_eip :: u32
  tf_cs :: u16
  tf_eflags :: u32
  tf_esp :: u32
  tf_ss :: u16

record UTrapframe =
  utf_fault_va :: u32
  utf_err :: u32
  utf_regs :: PushRegs
  utf_eip :: u32
  utf_eflags :: u32
  utf_esp :: u32

definition zero_regs :: PushRegs where
  "zero_regs = \<lparr>reg_edi = 0, reg_esi = 0, reg_ebp = 0, reg_oesp = 0, reg_ebx = 0, reg_edx = 0,
     reg_ecx = 0, reg_eax = 0\<rparr>"

definition zero_tf :: Trapframe where
  "zero_tf = \<lparr>tf_regs = zero_regs, tf_es = 0, tf_ds = 0, tf_trapno = 0, tf_err = 0, tf_eip = 0,
     tf_cs = 0, tf_eflags = 0, tf_esp = 0, tf_ss = 0\<rparr>"

definition set_eax :: "u32 \<Rightarrow> Trapframe \<Rightarrow> Trapframe" where
  "set_eax v tf = tf\<lparr>tf_regs := (tf_regs tf)\<lparr>reg_eax := v\<rparr>\<rparr>"

section \<open>Environments (inc/env.h)\<close>

datatype env_status_t = ENV_FREE | ENV_DYING | ENV_RUNNABLE | ENV_RUNNING | ENV_NOT_RUNNABLE

datatype EnvType = ENV_TYPE_USER | ENV_TYPE_THREAD

text \<open>The numbers of the unnamed enum, as user programs pass them to sys\_env\_set\_status.\<close>

fun status_num :: "env_status_t \<Rightarrow> u32" where
  "status_num ENV_FREE = 0"
| "status_num ENV_DYING = 1"
| "status_num ENV_RUNNABLE = 2"
| "status_num ENV_RUNNING = 3"
| "status_num ENV_NOT_RUNNABLE = 4"

lemma status_num_inj: "status_num a = status_num b \<longleftrightarrow> a = b"
  by (cases a; cases b) simp_all

instantiation env_status_t :: linorder
begin

definition less_eq_env_status_t :: "env_status_t \<Rightarrow> env_status_t \<Rightarrow> bool" where
  "less_eq_env_status_t a b \<longleftrightarrow> status_num a \<le> status_num b"

definition less_env_status_t :: "env_status_t \<Rightarrow> env_status_t \<Rightarrow> bool" where
  "less_env_status_t a b \<longleftrightarrow> status_num a < status_num b"

instance
proof
  fix x y z :: env_status_t
  show "(x < y) = (x \<le> y \<and> \<not> y \<le> x)"
    by (auto simp: less_eq_env_status_t_def less_env_status_t_def)
  show "x \<le> x" by (simp add: less_eq_env_status_t_def)
  show "x \<le> y \<Longrightarrow> y \<le> z \<Longrightarrow> x \<le> z" by (simp add: less_eq_env_status_t_def)
  show "x \<le> y \<Longrightarrow> y \<le> x \<Longrightarrow> x = y"
    by (simp add: less_eq_env_status_t_def flip: status_num_inj)
  show "x \<le> y \<or> y \<le> x" by (auto simp: less_eq_env_status_t_def)
qed

end

record Env =
  env_tf :: Trapframe
  env_link :: "nat option"
  env_id :: u32
  env_parent_id :: u32
  env_type :: EnvType
  env_status :: env_status_t
  env_runs :: u32
  env_cpunum :: nat
  env_pgdir :: "nat option"
  env_pgfault_upcall :: u32
  env_ipc_recving :: bool
  env_ipc_dstva :: u32
  env_ipc_value :: u32
  env_ipc_from :: u32
  env_ipc_perm :: u32
  env_sleep_until :: u32
  env_priority :: u32
  env_wait_ticks :: u32

text \<open>An entry of the array as mem\_init leaves it: all bytes zero.\<close>

definition zero_env :: Env where
  "zero_env = \<lparr>env_tf = zero_tf, env_link = None, env_id = 0, env_parent_id = 0,
     env_type = ENV_TYPE_USER, env_status = ENV_FREE, env_runs = 0, env_cpunum = 0,
     env_pgdir = None, env_pgfault_upcall = 0, env_ipc_recving = False, env_ipc_dstva = 0,
     env_ipc_value = 0, env_ipc_from = 0, env_ipc_perm = 0, env_sleep_until = 0,
     env_priority = 0, env_wait_ticks = 0\<rparr>"

section \<open>Pages, processors, scheduler statistics\<close>

record PageInfo =
  pp_link :: "nat option"
  pp_ref :: u16

datatype cpu_status_t = CPU_UNUSED | CPU_STARTED | CPU_HALTED

record CpuInfo =
  cpu_status :: cpu_status_t
  cpu_env :: "nat option"

record EnvStat =
  st_env_id :: u32
  st_runs :: u32
  st_cputicks :: u32
  st_priority :: u32
  st_maxbonus :: u32

record SchedHistory =
  h_env_id :: u32
  h_tick :: u32
  h_priority :: u32
  h_effective :: u32

record sched_stats =
  sched_calls :: u32
  sched_env_stats :: "nat \<Rightarrow> EnvStat"
  sched_history :: "nat \<Rightarrow> SchedHistory"
  sched_history_count :: u32
  sched_prio_ticks :: "nat \<Rightarrow> u32"
  sched_running_id :: u32
  sched_running_prio :: u32
  sched_running_since :: u32

text \<open>
  struct spinlock (kern/spinlock.h). The name and the saved call stack, which are only printed,
  are left out.
\<close>

record spinlock =
  locked :: u32
  lk_cpu :: "nat option"

text \<open>The policy is chosen when the kernel is compiled (USE\_RR, USE\_PR).\<close>

datatype sched_policy = SCHED_ROUND_ROBIN | SCHED_PRIORITIES

section \<open>The kernel state\<close>

datatype event =
  Cprintf string "u32 list"
| Invlpg u32
| Lcr3 nat
| LapicEoi
| UserStore u32 u32
| UserStoreFrame u32 UTrapframe
| UserClear u32 u32
| UserCopy u32 u32 u32

record kst =
  policy :: sched_policy
  npages :: nat
  pages :: "nat \<Rightarrow> PageInfo"
  page_free_list :: "nat option"
  pmem :: "nat \<Rightarrow> nat \<Rightarrow> u32"
  kern_pgdir :: nat
  envs :: "nat \<Rightarrow> Env"
  env_free_list :: "nat option"
  cpus :: "nat \<Rightarrow> CpuInfo"
  cpunum :: nat
  klock :: spinlock
  ticks :: u32
  stats :: sched_stats
  user_mem_check_addr :: u32
  mmio_base :: u32
  con :: console
  stack_pte :: "nat \<times> nat"
  trace :: "event list"

text \<open>
  Where control goes when it leaves the kernel's call chain: a panic (message), user mode in
  an environment (context\_switch of its trap frame), the halted CPU, the kernel monitor's
  endless loop, or the endless spin on a lock another CPU holds.
\<close>

datatype kexit = Panic string | UserMode nat | Idle | Monitor | Spin

type_synonym 'a K = "(kst, kexit, 'a) kmon"

section \<open>Primitive accesses\<close>

definition panic :: "string \<Rightarrow> 'a K" where
  "panic msg = exit_with (Panic msg)"

definition emit :: "event \<Rightarrow> unit K" where
  "emit e = modify (\<lambda>s. s\<lparr>trace := e # trace s\<rparr>)"

definition cprintf :: "string \<Rightarrow> u32 list \<Rightarrow> unit K" where
  "cprintf fmt args = emit (Cprintf fmt args)"

text \<open>Following a NULL pointer faults in kernel mode, which page\_fault\_handler panics on.\<close>

definition deref :: "'p option \<Rightarrow> 'p K" where
  "deref p = (case p of None \<Rightarrow> panic ''page fault in kernel mode\<newline>'' | Some x \<Rightarrow> ret x)"

definition load_word :: "nat \<Rightarrow> nat \<Rightarrow> u32 K" where
  "load_word f i = gets (\<lambda>s. pmem s f i)"

definition store_word :: "nat \<Rightarrow> nat \<Rightarrow> u32 \<Rightarrow> unit K" where
  "store_word f i w = modify (\<lambda>s. s\<lparr>pmem := (pmem s)(f := (pmem s f)(i := w))\<rparr>)"

definition upd_page :: "nat \<Rightarrow> (PageInfo \<Rightarrow> PageInfo) \<Rightarrow> kst \<Rightarrow> kst" where
  "upd_page p f s = s\<lparr>pages := (pages s)(p := f (pages s p))\<rparr>"

definition upd_env :: "nat \<Rightarrow> (Env \<Rightarrow> Env) \<Rightarrow> kst \<Rightarrow> kst" where
  "upd_env i f s = s\<lparr>envs := (envs s)(i := f (envs s i))\<rparr>"

definition curenv :: "kst \<Rightarrow> nat option" where
  "curenv s = cpu_env (cpus s (cpunum s))"

definition set_curenv :: "nat option \<Rightarrow> kst \<Rightarrow> kst" where
  "set_curenv e s = s\<lparr>cpus := (cpus s)(cpunum s := (cpus s (cpunum s))\<lparr>cpu_env := e\<rparr>)\<rparr>"

definition set_cpu_status :: "cpu_status_t \<Rightarrow> kst \<Rightarrow> kst" where
  "set_cpu_status st s = s\<lparr>cpus := (cpus s)(cpunum s := (cpus s (cpunum s))\<lparr>cpu_status := st\<rparr>)\<rparr>"

definition the_curenv :: "nat K" where
  "the_curenv = bnd (gets curenv) deref"

definition lcr3 :: "nat \<Rightarrow> unit K" where
  "lcr3 f = emit (Lcr3 f)"

text \<open>The id printed for the current environment: \<open>curenv ? curenv->env_id : 0\<close>.\<close>

definition cur_id :: "kst \<Rightarrow> u32" where
  "cur_id s = (case curenv s of None \<Rightarrow> 0 | Some c \<Rightarrow> env_id (envs s c))"

lemma panic_exec [exec, simp]: "panic msg s = (Inl (Panic msg), s)"
  by (simp add: panic_def)

lemma emit_exec [exec, simp]: "emit e s = (Inr (), s\<lparr>trace := e # trace s\<rparr>)"
  by (simp add: emit_def)

lemma cprintf_exec [exec, simp]: "cprintf f a s = (Inr (), s\<lparr>trace := Cprintf f a # trace s\<rparr>)"
  by (simp add: cprintf_def)

lemma lcr3_exec [exec, simp]: "lcr3 f s = (Inr (), s\<lparr>trace := Lcr3 f # trace s\<rparr>)"
  by (simp add: lcr3_def)

lemma deref_Some [simp]: "deref (Some x) = ret x"
  by (simp add: deref_def)

lemma deref_None [simp]: "deref None = panic ''page fault in kernel mode\<newline>''"
  by (simp add: deref_def)

lemma load_exec [exec, simp]: "load_word f i s = (Inr (pmem s f i), s)"
  by (simp add: load_word_def)

lemma store_exec [exec, simp]:
  "store_word f i w s = (Inr (), s\<lparr>pmem := (pmem s)(f := (pmem s f)(i := w))\<rparr>)"
  by (simp add: store_word_def)

lemma bnd_load [simp]: "bnd (load_word f i) g s = g (pmem s f i) s"
  by (simp add: bnd_def)

lemma thn_store [simp]: "thn (store_word f i w) n s = n (s\<lparr>pmem := (pmem s)(f := (pmem s f)(i := w))\<rparr>)"
  by (simp add: thn_def bnd_def)

lemma thn_emit [simp]: "thn (emit e) n s = n (s\<lparr>trace := e # trace s\<rparr>)"
  by (simp add: thn_def bnd_def)

lemma thn_cprintf [simp]: "thn (cprintf f a) n s = n (s\<lparr>trace := Cprintf f a # trace s\<rparr>)"
  by (simp add: thn_def bnd_def)

lemma thn_lcr3 [simp]: "thn (lcr3 f) n s = n (s\<lparr>trace := Lcr3 f # trace s\<rparr>)"
  by (simp add: thn_def bnd_def)

lemma bnd_panic [simp]: "bnd (panic m) f = panic m"
  by (simp add: panic_def)

lemma thn_panic [simp]: "thn (panic m) n = panic m"
  by (simp add: panic_def)

lemma the_curenv_exec [simp]: "curenv s = Some c \<Longrightarrow> the_curenv s = (Inr c, s)"
  by (simp add: the_curenv_def)

lemma bnd_the_curenv [simp]: "curenv s = Some c \<Longrightarrow> bnd the_curenv f s = f c s"
  by (simp add: bnd_def)

text \<open>What the primitive updates change and what they leave alone.\<close>

lemma upd_page_simps [simp]:
  "pages (upd_page p f s) = (pages s)(p := f (pages s p))"
  "policy (upd_page p f s) = policy s" "npages (upd_page p f s) = npages s"
  "page_free_list (upd_page p f s) = page_free_list s" "pmem (upd_page p f s) = pmem s"
  "kern_pgdir (upd_page p f s) = kern_pgdir s" "envs (upd_page p f s) = envs s"
  "env_free_list (upd_page p f s) = env_free_list s" "cpus (upd_page p f s) = cpus s"
  "cpunum (upd_page p f s) = cpunum s" "klock (upd_page p f s) = klock s"
  "ticks (upd_page p f s) = ticks s" "stats (upd_page p f s) = stats s"
  "trace (upd_page p f s) = trace s" "curenv (upd_page p f s) = curenv s"
  "mmio_base (upd_page p f s) = mmio_base s"
  by (simp_all add: upd_page_def curenv_def)

lemma upd_env_simps [simp]:
  "envs (upd_env i f s) = (envs s)(i := f (envs s i))"
  "policy (upd_env i f s) = policy s" "npages (upd_env i f s) = npages s"
  "page_free_list (upd_env i f s) = page_free_list s" "pmem (upd_env i f s) = pmem s"
  "kern_pgdir (upd_env i f s) = kern_pgdir s" "pages (upd_env i f s) = pages s"
  "env_free_list (upd_env i f s) = env_free_list s" "cpus (upd_env i f s) = cpus s"
  "cpunum (upd_env i f s) = cpunum s" "klock (upd_env i f s) = klock s"
  "ticks (upd_env i f s) = ticks s" "stats (upd_env i f s) = stats s"
  "trace (upd_env i f s) = trace s" "curenv (upd_env i f s) = curenv s"
  "mmio_base (upd_env i f s) = mmio_base s"
  by (simp_all add: upd_env_def curenv_def)

lemma set_curenv_simps [simp]:
  "curenv (set_curenv e s) = e" "envs (set_curenv e s) = envs s"
  "policy (set_curenv e s) = policy s" "npages (set_curenv e s) = npages s"
  "page_free_list (set_curenv e s) = page_free_list s" "pmem (set_curenv e s) = pmem s"
  "kern_pgdir (set_curenv e s) = kern_pgdir s" "pages (set_curenv e s) = pages s"
  "env_free_list (set_curenv e s) = env_free_list s"
  "cpunum (set_curenv e s) = cpunum s" "klock (set_curenv e s) = klock s"
  "ticks (set_curenv e s) = ticks s" "stats (set_curenv e s) = stats s"
  "trace (set_curenv e s) = trace s"
  "mmio_base (set_curenv e s) = mmio_base s"
  by (simp_all add: set_curenv_def curenv_def)

lemma set_cpu_status_simps [simp]:
  "curenv (set_cpu_status st s) = curenv s" "envs (set_cpu_status st s) = envs s"
  "policy (set_cpu_status st s) = policy s" "npages (set_cpu_status st s) = npages s"
  "page_free_list (set_cpu_status st s) = page_free_list s" "pmem (set_cpu_status st s) = pmem s"
  "kern_pgdir (set_cpu_status st s) = kern_pgdir s" "pages (set_cpu_status st s) = pages s"
  "env_free_list (set_cpu_status st s) = env_free_list s" "cpunum (set_cpu_status st s) = cpunum s"
  "klock (set_cpu_status st s) = klock s" "ticks (set_cpu_status st s) = ticks s"
  "stats (set_cpu_status st s) = stats s" "trace (set_cpu_status st s) = trace s"
  by (simp_all add: set_cpu_status_def curenv_def)

lemma curenv_frame [simp]:
  "curenv (s\<lparr>trace := t\<rparr>) = curenv s" "curenv (s\<lparr>pmem := m\<rparr>) = curenv s"
  "curenv (s\<lparr>pages := pg\<rparr>) = curenv s" "curenv (s\<lparr>page_free_list := fl\<rparr>) = curenv s"
  "curenv (s\<lparr>envs := ev\<rparr>) = curenv s" "curenv (s\<lparr>env_free_list := el\<rparr>) = curenv s"
  "curenv (s\<lparr>stats := st\<rparr>) = curenv s" "curenv (s\<lparr>ticks := tk\<rparr>) = curenv s"
  "curenv (s\<lparr>klock := lk\<rparr>) = curenv s" "curenv (s\<lparr>user_mem_check_addr := ua\<rparr>) = curenv s"
  "curenv (s\<lparr>mmio_base := mb\<rparr>) = curenv s"
  by (simp_all add: curenv_def)

section \<open>The state before initialisation\<close>

text \<open>All globals zero, as the BSS; the witnesses of the development build on it.\<close>

definition zero_stats :: sched_stats where
  "zero_stats = \<lparr>sched_calls = 0,
     sched_env_stats = (\<lambda>_. \<lparr>st_env_id = 0, st_runs = 0, st_cputicks = 0, st_priority = 0, st_maxbonus = 0\<rparr>),
     sched_history = (\<lambda>_. \<lparr>h_env_id = 0, h_tick = 0, h_priority = 0, h_effective = 0\<rparr>),
     sched_history_count = 0, sched_prio_ticks = (\<lambda>_. 0), sched_running_id = 0,
     sched_running_prio = 0, sched_running_since = 0\<rparr>"

definition zero_kst :: kst where
  "zero_kst = \<lparr>policy = SCHED_ROUND_ROBIN, npages = 0, pages = (\<lambda>_. \<lparr>pp_link = None, pp_ref = 0\<rparr>),
     page_free_list = None, pmem = (\<lambda>_ _. 0), kern_pgdir = 0, envs = (\<lambda>_. zero_env),
     env_free_list = None, cpus = (\<lambda>_. \<lparr>cpu_status = CPU_UNUSED, cpu_env = None\<rparr>), cpunum = 0,
     klock = \<lparr>locked = 0, lk_cpu = None\<rparr>, ticks = 0, stats = zero_stats, user_mem_check_addr = 0,
     mmio_base = 0xEF800000, con = zero_console, stack_pte = (0, 0), trace = []\<rparr>"

end
