(* ===== verification/Pages.thy ===== *)
theory Pages
  imports Kstate
begin

text \<open>
  The physical page allocator of kern/pmap.c: page\_init, page\_alloc, page\_free, page\_decref,
  and the address conversions of kern/pmap.h. The free pages are a singly linked list through
  \<open>pp_link\<close>, used as a stack. The two list manipulations (push, pop) are also the ones of the
  environment free list of kern/env.c, so their contract is the locale \<open>free_list\<close>.
\<close>

section \<open>Intrusive free lists\<close>

definition list_rep :: "('a \<Rightarrow> 'a option) \<Rightarrow> 'a option \<Rightarrow> 'a list \<Rightarrow> bool" where
  "list_rep link h xs \<longleftrightarrow> flist link h xs \<and> distinct xs"

locale free_list =
  fixes head :: "'s \<Rightarrow> nat option"
    and link :: "'s \<Rightarrow> nat \<Rightarrow> nat option"
    and push :: "nat \<Rightarrow> 's \<Rightarrow> 's"
    and pop :: "nat \<Rightarrow> 's \<Rightarrow> 's"
  assumes head_push: "head (push x s) = Some x"
    and link_push: "link (push x s) y = (if y = x then head s else link s y)"
    and head_pop: "head s = Some x \<Longrightarrow> head (pop x s) = link s x"
    and link_pop: "head s = Some x \<Longrightarrow> y \<noteq> x \<Longrightarrow> link (pop x s) y = link s y"
begin

lemma push_rep:
  assumes "list_rep (link s) (head s) xs" "x \<notin> set xs"
  shows "list_rep (link (push x s)) (head (push x s)) (x # xs)"
proof -
  have "flist (link (push x s)) (head s) xs = flist (link s) (head s) xs"
    by (rule flist_cong) (use assms in \<open>auto simp: link_push\<close>)
  then show ?thesis
    using assms by (simp add: list_rep_def head_push link_push)
qed

lemma pop_rep:
  assumes "list_rep (link s) (head s) (x # xs)"
  shows "list_rep (link (pop x s)) (head (pop x s)) xs"
proof -
  have h: "head s = Some x" using assms by (simp add: list_rep_def)
  have "link (pop x s) y = link s y" if "y \<in> set xs" for y
    using assms h that by (intro link_pop) (auto simp: list_rep_def)
  then have "flist (link (pop x s)) (link s x) xs = flist (link s) (link s x) xs"
    by (rule flist_cong)
  then show ?thesis
    using assms h by (simp add: list_rep_def head_pop)
qed

lemma rep_head: "list_rep (link s) (head s) xs \<Longrightarrow> head s = (case xs of [] \<Rightarrow> None | x # _ \<Rightarrow> Some x)"
  by (cases xs) (simp_all add: list_rep_def)

text \<open>The list is a stack: what was pushed last is popped first, and the rest is back.\<close>

lemma push_pop_rep:
  assumes "list_rep (link s) (head s) xs" "x \<notin> set xs"
  shows "head (push x s) = Some x"
    and "list_rep (link (pop x (push x s))) (head (pop x (push x s))) xs"
  using pop_rep push_rep [OF assms] head_push by auto

end

section \<open>Address conversions (kern/pmap.h)\<close>

definition page2pa :: "nat \<Rightarrow> u32" where
  "page2pa pp = push_bit 12 (of_nat pp)"

text \<open>KADDR and PADDR, on the page frames their arguments lie in.\<close>

definition KADDR :: "u32 \<Rightarrow> nat K" where
  "KADDR pa = bnd (gets npages) (\<lambda>n.
     if PGNUM pa \<ge> n then panic ''KADDR called with invalid pa'' else ret (PGNUM pa))"

definition PADDR :: "nat option \<Rightarrow> u32 K" where
  "PADDR p = (case p of None \<Rightarrow> panic ''PADDR called with invalid kva''
     | Some f \<Rightarrow> ret (page2pa f))"

definition pa2page :: "u32 \<Rightarrow> nat K" where
  "pa2page pa = bnd (gets npages) (\<lambda>n.
     if PGNUM pa \<ge> n then panic ''pa2page called with invalid pa'' else ret (PGNUM pa))"

definition page2kva :: "nat \<Rightarrow> nat K" where
  "page2kva pp = KADDR (page2pa pp)"

lemma PGNUM_page2pa [simp]: "p < 2 ^ 20 \<Longrightarrow> PGNUM (page2pa p) = p"
  using PGNUM_entry [of p 0] by (simp add: page2pa_def)

lemma PADDR_Some [simp]: "PADDR (Some f) = ret (page2pa f)"
  by (simp add: PADDR_def)

lemma KADDR_exec: "PGNUM pa < npages s \<Longrightarrow> KADDR pa s = (Inr (PGNUM pa), s)"
  by (simp add: KADDR_def)

lemma pa2page_exec: "PGNUM pa < npages s \<Longrightarrow> pa2page pa s = (Inr (PGNUM pa), s)"
  by (simp add: pa2page_def)

lemma page2kva_exec: "p < npages s \<Longrightarrow> npages s \<le> 2 ^ 20 \<Longrightarrow> page2kva p s = (Inr p, s)"
  using PGNUM_page2pa [of p] KADDR_exec [of "page2pa p" s] by (simp add: page2kva_def)

section \<open>The free list of pages\<close>

definition page_push :: "nat \<Rightarrow> kst \<Rightarrow> kst" where
  "page_push pp s = (upd_page pp (\<lambda>p. p\<lparr>pp_link := page_free_list s\<rparr>) s)\<lparr>page_free_list := Some pp\<rparr>"

definition page_pop :: "nat \<Rightarrow> kst \<Rightarrow> kst" where
  "page_pop pp s = upd_page pp (\<lambda>p. p\<lparr>pp_link := None\<rparr>) (s\<lparr>page_free_list := pp_link (pages s pp)\<rparr>)"

abbreviation page_link :: "kst \<Rightarrow> nat \<Rightarrow> nat option" where
  "page_link s p \<equiv> pp_link (pages s p)"

interpretation pfl: free_list page_free_list page_link page_push page_pop
  by unfold_locales (auto simp: page_push_def page_pop_def upd_page_def)

definition ALLOC_ZERO :: u32 where [simp]: "ALLOC_ZERO = 1"

definition zero_frame :: "nat \<Rightarrow> unit K" where
  "zero_frame f = modify (\<lambda>s. s\<lparr>pmem := (pmem s)(f := (\<lambda>_. 0))\<rparr>)"

definition page_alloc :: "u32 \<Rightarrow> nat option K" where
  "page_alloc alloc_flags = bnd (gets page_free_list) (\<lambda>fl. case fl of
      None \<Rightarrow> ret None
    | Some free_page \<Rightarrow>
        thn (modify (page_pop free_page))
        (thn (whenM (alloc_flags AND ALLOC_ZERO \<noteq> 0) (bnd (page2kva free_page) zero_frame))
        (ret (Some free_page))))"

definition page_free :: "nat \<Rightarrow> unit K" where
  "page_free pp = bnd (gets (\<lambda>s. pages s pp)) (\<lambda>p.
     if pp_ref p \<noteq> 0 then panic ''page_free: pp_ref is nonzero\<newline>''
     else if pp_link p \<noteq> None then panic ''page_free: pp_link is not NULL\<newline>''
     else modify (page_push pp))"

definition page_decref :: "nat \<Rightarrow> unit K" where
  "page_decref pp =
     thn (modify (upd_page pp (\<lambda>p. p\<lparr>pp_ref := pp_ref p - 1\<rparr>)))
     (bnd (gets (\<lambda>s. pp_ref (pages s pp))) (\<lambda>r.
     whenM (r = 0) (page_free pp)))"

definition page_incref :: "nat \<Rightarrow> unit K" where
  "page_incref pp = modify (upd_page pp (\<lambda>p. p\<lparr>pp_ref := pp_ref p + 1\<rparr>))"

text \<open>
  page\_init: \<open>first_free\<close> is \<open>PGNUM(PADDR(boot_alloc(0)))\<close>, the first frame after the kernel image
  and the arrays boot\_alloc handed out.
\<close>

definition page_reserved :: "nat \<Rightarrow> nat \<Rightarrow> bool" where
  "page_reserved first_free i \<longleftrightarrow>
     i = 0 \<or> PGNUM MPENTRY_PADDR = i
     \<or> (i \<ge> PGNUM IOPHYSMEM \<and> i < PGNUM EXTPHYSMEM)
     \<or> (i \<ge> PGNUM EXTPHYSMEM \<and> i < first_free)"

definition page_init_step :: "nat \<Rightarrow> nat \<Rightarrow> kst \<Rightarrow> kst" where
  "page_init_step first_free i s =
     (let s1 = upd_page i (\<lambda>p. p\<lparr>pp_link := None\<rparr>) s
      in if page_reserved first_free i then s1
         else page_push i (upd_page i (\<lambda>p. p\<lparr>pp_ref := 0\<rparr>) s1))"

definition page_init :: "nat \<Rightarrow> kst \<Rightarrow> kst" where
  "page_init first_free s = fold (page_init_step first_free) [0..<npages s] s"

section \<open>Well-formed free list\<close>

text \<open>
  The free list visits frames that exist, once each, no free page is referenced, and a page
  off the list has a NULL link (what page\_free tests). The number of frames fits the 20 bits
  of a page table entry.
\<close>

definition free_pages :: "kst \<Rightarrow> nat list \<Rightarrow> bool" where
  "free_pages s xs \<longleftrightarrow> list_rep (page_link s) (page_free_list s) xs
     \<and> (\<forall>x \<in> set xs. x < npages s \<and> pp_ref (pages s x) = 0)
     \<and> (\<forall>p < npages s. p \<notin> set xs \<longrightarrow> pp_link (pages s p) = None) \<and> npages s \<le> 2 ^ 20"

lemma free_pages_bound: "free_pages s xs \<Longrightarrow> npages s \<le> 2 ^ 20"
  by (simp add: free_pages_def)

lemma free_pages_head:
  "free_pages s (x # xs) \<Longrightarrow> page_free_list s = Some x"
  by (simp add: free_pages_def list_rep_def)

lemma free_pages_link:
  "free_pages s xs \<Longrightarrow> p < npages s \<Longrightarrow> p \<notin> set xs \<Longrightarrow> pp_link (pages s p) = None"
  by (simp add: free_pages_def)

lemma free_pages_Nil: "free_pages s [] \<Longrightarrow> page_free_list s = None"
  by (simp add: free_pages_def list_rep_def)

lemma free_pages_unique: "free_pages s xs \<Longrightarrow> free_pages s ys \<Longrightarrow> xs = ys"
  by (auto simp: free_pages_def list_rep_def dest: flist_unique)

text \<open>A state that agrees on the allocator's fields has the same free list.\<close>

lemma free_pages_cong:
  "\<lbrakk>pages s' = pages s; page_free_list s' = page_free_list s; npages s' = npages s\<rbrakk>
   \<Longrightarrow> free_pages s' xs = free_pages s xs"
  by (simp add: free_pages_def)

lemma free_pages_frame [simp]:
  "free_pages (s\<lparr>pmem := m\<rparr>) xs = free_pages s xs"
  "free_pages (s\<lparr>trace := t\<rparr>) xs = free_pages s xs"
  "free_pages (s\<lparr>envs := ev\<rparr>) xs = free_pages s xs"
  "free_pages (s\<lparr>env_free_list := fl\<rparr>) xs = free_pages s xs"
  "free_pages (s\<lparr>stats := st\<rparr>) xs = free_pages s xs"
  "free_pages (s\<lparr>cpus := cp\<rparr>) xs = free_pages s xs"
  "free_pages (s\<lparr>klock := lk\<rparr>) xs = free_pages s xs"
  "free_pages (s\<lparr>ticks := tk\<rparr>) xs = free_pages s xs"
  "free_pages (upd_env i f s) xs = free_pages s xs"
  "free_pages (set_curenv e s) xs = free_pages s xs"
  by (simp_all add: free_pages_def)

lemma free_pages_set_ref:
  assumes "free_pages s xs" "p \<notin> set xs"
  shows "free_pages (upd_page p (\<lambda>q. q\<lparr>pp_ref := f q\<rparr>) s) xs"
proof -
  have "page_link (upd_page p (\<lambda>q. q\<lparr>pp_ref := f q\<rparr>) s) = page_link s" by auto
  then show ?thesis using assms by (auto simp: free_pages_def)
qed

lemma free_pages_pop:
  assumes "free_pages s (x # xs)"
  shows "free_pages (page_pop x s) xs"
proof -
  have "list_rep (page_link (page_pop x s)) (page_free_list (page_pop x s)) xs"
    using assms by (intro pfl.pop_rep) (simp add: free_pages_def)
  moreover have "x \<notin> set xs" using assms by (simp add: free_pages_def list_rep_def)
  ultimately show ?thesis
    using assms by (auto simp: free_pages_def page_pop_def)
qed

lemma free_pages_push:
  assumes "free_pages s xs" "x \<notin> set xs" "x < npages s" "pp_ref (pages s x) = 0"
  shows "free_pages (page_push x s) (x # xs)"
proof -
  have "list_rep (page_link (page_push x s)) (page_free_list (page_push x s)) (x # xs)"
    using assms by (intro pfl.push_rep) (auto simp: free_pages_def)
  then show ?thesis
    using assms by (auto simp: free_pages_def page_push_def)
qed

section \<open>The operations\<close>

lemma page_alloc_empty: "free_pages s [] \<Longrightarrow> page_alloc flags s = (Inr None, s)"
  by (simp add: page_alloc_def free_pages_Nil)

definition page_alloc_post :: "u32 \<Rightarrow> nat \<Rightarrow> kst \<Rightarrow> kst" where
  "page_alloc_post flags x s =
     (if flags AND ALLOC_ZERO \<noteq> 0
      then (page_pop x s)\<lparr>pmem := (pmem s)(x := (\<lambda>_. 0))\<rparr> else page_pop x s)"

lemma page_alloc_exec:
  assumes "free_pages s (x # xs)"
  shows "page_alloc flags s = (Inr (Some x), page_alloc_post flags x s)"
proof -
  have x: "x < npages s" "npages s \<le> 2 ^ 20" "page_free_list s = Some x"
    using assms by (auto simp: free_pages_def list_rep_def)
  have "page2kva x (page_pop x s) = (Inr x, page_pop x s)"
    by (rule page2kva_exec) (use x in \<open>simp_all add: page_pop_def\<close>)
  then show ?thesis
    by (simp add: page_alloc_def x(3) page_alloc_post_def whenM_def zero_frame_def bnd_def thn_def)
       (simp add: page_pop_def)
qed

lemma page_alloc_post_simps [simp]:
  "page_free_list (page_alloc_post fl x s) = pp_link (pages s x)"
  "npages (page_alloc_post fl x s) = npages s" "kern_pgdir (page_alloc_post fl x s) = kern_pgdir s"
  "envs (page_alloc_post fl x s) = envs s" "env_free_list (page_alloc_post fl x s) = env_free_list s"
  "curenv (page_alloc_post fl x s) = curenv s" "trace (page_alloc_post fl x s) = trace s"
  "pages (page_alloc_post fl x s) = (pages s)(x := (pages s x)\<lparr>pp_link := None\<rparr>)"
  "pmem (page_alloc_post fl x s) = (if fl AND ALLOC_ZERO \<noteq> 0 then (pmem s)(x := (\<lambda>_. 0)) else pmem s)"
  "ticks (page_alloc_post fl x s) = ticks s" "stats (page_alloc_post fl x s) = stats s"
  "cpus (page_alloc_post fl x s) = cpus s" "cpunum (page_alloc_post fl x s) = cpunum s"
  "klock (page_alloc_post fl x s) = klock s" "policy (page_alloc_post fl x s) = policy s"
  by (simp_all add: page_alloc_post_def page_pop_def curenv_def)

lemma free_pages_alloc_post:
  assumes "free_pages s (x # xs)"
  shows "free_pages (page_alloc_post fl x s) xs"
  using free_pages_pop [OF assms] by (simp add: page_alloc_post_def)

lemma page_free_exec:
  assumes "pp_ref (pages s p) = 0" "pp_link (pages s p) = None"
  shows "page_free p s = (Inr (), page_push p s)"
  using assms by (simp add: page_free_def)

text \<open>The state after page\_decref: freed exactly when the count drops to zero.\<close>

definition decref_post :: "nat \<Rightarrow> kst \<Rightarrow> kst" where
  "decref_post p s =
     (let s1 = upd_page p (\<lambda>q. q\<lparr>pp_ref := pp_ref q - 1\<rparr>) s
      in if pp_ref (pages s p) = 1 then page_push p s1 else s1)"

lemma page_decref_exec:
  assumes "pp_link (pages s p) = None"
  shows "page_decref p s = (Inr (), decref_post p s)"
proof -
  have iff: "pp_ref (pages s p) - 1 = 0 \<longleftrightarrow> pp_ref (pages s p) = 1" by auto
  show ?thesis
    using assms
    by (cases "pp_ref (pages s p) = 1")
       (simp_all add: page_decref_def decref_post_def whenM_def page_free_exec iff)
qed

lemma decref_post_simps [simp]:
  "npages (decref_post p s) = npages s" "pmem (decref_post p s) = pmem s"
  "kern_pgdir (decref_post p s) = kern_pgdir s" "envs (decref_post p s) = envs s"
  "env_free_list (decref_post p s) = env_free_list s" "curenv (decref_post p s) = curenv s"
  "trace (decref_post p s) = trace s" "pp_ref (pages (decref_post p s) p) = pp_ref (pages s p) - 1"
  "q \<noteq> p \<Longrightarrow> pages (decref_post p s) q = pages s q"
  "ticks (decref_post p s) = ticks s" "stats (decref_post p s) = stats s"
  "cpus (decref_post p s) = cpus s" "cpunum (decref_post p s) = cpunum s"
  "klock (decref_post p s) = klock s" "policy (decref_post p s) = policy s"
  by (simp_all add: decref_post_def page_push_def Let_def curenv_def)

lemma free_pages_decref:
  assumes "free_pages s xs" "p \<notin> set xs" "p < npages s"
  shows "free_pages (decref_post p s) (if pp_ref (pages s p) = 1 then p # xs else xs)"
proof -
  have "free_pages (upd_page p (\<lambda>q. q\<lparr>pp_ref := pp_ref q - 1\<rparr>) s) xs"
    by (rule free_pages_set_ref) (use assms in auto)
  then show ?thesis
    using assms by (auto simp: decref_post_def Let_def intro: free_pages_push)
qed

section \<open>Initialisation\<close>

lemma page_init_step_rep:
  assumes "free_pages s xs" "i \<notin> set xs" "i < npages s"
  shows "free_pages (page_init_step ff i s) (if page_reserved ff i then xs else i # xs)"
proof -
  let ?s1 = "upd_page i (\<lambda>p. p\<lparr>pp_link := None\<rparr>) s"
  have "list_rep (page_link ?s1) (page_free_list ?s1) xs"
    using assms by (auto simp: free_pages_def list_rep_def fun_upd_def
      intro!: flist_cong [THEN iffD1, of xs "page_link s"])
  with assms have s1: "free_pages ?s1 xs" by (auto simp: free_pages_def)
  then have s2: "free_pages (upd_page i (\<lambda>p. p\<lparr>pp_ref := 0\<rparr>) ?s1) xs"
    by (rule free_pages_set_ref) (rule assms)
  show ?thesis
    using s1 free_pages_push [OF s2, of i] assms by (simp add: page_init_step_def Let_def)
qed

lemma page_init_step_npages [simp]: "npages (page_init_step ff i s) = npages s"
  by (simp add: page_init_step_def Let_def page_push_def)

lemma page_init_fold:
  assumes "free_pages s xs" "distinct is" "set is \<inter> set xs = {}" "set is \<subseteq> {..<npages s}"
  shows "free_pages (fold (page_init_step ff) is s) (rev (filter (\<lambda>i. \<not> page_reserved ff i) is) @ xs)"
  using assms
proof (induction "is" arbitrary: s xs)
  case Nil then show ?case by simp
next
  case (Cons i js)
  have "free_pages (page_init_step ff i s) (if page_reserved ff i then xs else i # xs)"
    using Cons.prems by (intro page_init_step_rep) auto
  from Cons.IH [OF this] Cons.prems show ?case by (auto split: if_splits)
qed

lemma page_init_rep:
  assumes "page_free_list s = None" "npages s \<le> 2 ^ 20" "\<forall>p. pp_link (pages s p) = None"
  shows "free_pages (page_init ff s) (rev (filter (\<lambda>i. \<not> page_reserved ff i) [0..<npages s]))"
proof -
  have "free_pages s []" using assms by (simp add: free_pages_def list_rep_def)
  from page_init_fold [OF this, of "[0..<npages s]" ff] show ?thesis
    by (simp add: page_init_def lessThan_atLeast0)
qed

text \<open>A machine with eight frames, as page\_init leaves it: the state the witnesses start from.\<close>

definition pages_kst :: kst where
  "pages_kst = page_init 0 (zero_kst\<lparr>npages := 8\<rparr>)"

lemma page_init_frame [simp]:
  "npages (page_init ff s) = npages s" "pmem (page_init ff s) = pmem s"
  "kern_pgdir (page_init ff s) = kern_pgdir s" "envs (page_init ff s) = envs s"
  "env_free_list (page_init ff s) = env_free_list s" "cpus (page_init ff s) = cpus s"
  "cpunum (page_init ff s) = cpunum s" "klock (page_init ff s) = klock s"
  "trace (page_init ff s) = trace s" "stats (page_init ff s) = stats s"
  "ticks (page_init ff s) = ticks s" "policy (page_init ff s) = policy s"
proof -
  define fields where "fields = (\<lambda>s :: kst. (npages s, pmem s, kern_pgdir s, envs s, env_free_list s,
    cpus s, cpunum s, klock s, trace s, stats s, ticks s, policy s))"
  have "fields (page_init_step ff i s) = fields s" for i s
    by (simp add: fields_def page_init_step_def page_push_def)
  then have "fields (fold (page_init_step ff) is s) = fields s" for "is"
    by (induction "is" arbitrary: s) simp_all
  then have "fields (page_init ff s) = fields s" by (simp only: page_init_def)
  then show "npages (page_init ff s) = npages s" "pmem (page_init ff s) = pmem s"
    "kern_pgdir (page_init ff s) = kern_pgdir s" "envs (page_init ff s) = envs s"
    "env_free_list (page_init ff s) = env_free_list s" "cpus (page_init ff s) = cpus s"
    "cpunum (page_init ff s) = cpunum s" "klock (page_init ff s) = klock s"
    "trace (page_init ff s) = trace s" "stats (page_init ff s) = stats s"
    "ticks (page_init ff s) = ticks s" "policy (page_init ff s) = policy s"
    by (simp_all add: fields_def)
qed

lemma pages_kst_simps [simp]:
  "npages pages_kst = 8" "pmem pages_kst = (\<lambda>_ _. 0)" "kern_pgdir pages_kst = 0"
  "envs pages_kst = (\<lambda>_. zero_env)" "klock pages_kst = \<lparr>locked = 0, lk_cpu = None\<rparr>"
  "cpunum pages_kst = 0" "curenv pages_kst = None" "trace pages_kst = []"
  by (simp_all add: pages_kst_def zero_kst_def curenv_def)

lemma pages_kst_rep: "free_pages pages_kst [6, 5, 4, 3, 2, 1]"
proof -
  have "[0..<8] = [0, 1, 2, 3, 4, 5, 6, 7 :: nat]" by code_simp
  then show ?thesis
    using page_init_rep [of "zero_kst\<lparr>npages := 8\<rparr>" 0]
    by (simp add: pages_kst_def zero_kst_def page_reserved_def PGNUM_div)
qed

section \<open>Properties\<close>

text \<open>page\_init puts on the free list exactly the frames that are not reserved (frame 0, the
  boot code of the other processors, the I/O hole, the kernel image and what boot\_alloc handed
  out), each once, the highest first, and the list satisfies the allocator's invariant.\<close>

theorem page_init_free_list:
  assumes "page_free_list s = None" "npages s \<le> 2 ^ 20" "\<forall>p. pp_link (pages s p) = None"
  shows "free_pages (page_init ff s) (rev (filter (\<lambda>i. \<not> (i = 0 \<or> i = 7 \<or> (160 \<le> i \<and> i < 256)
    \<or> (256 \<le> i \<and> i < ff))) [0..<npages s]))"
proof -
  have "(\<lambda>i. \<not> (i = 0 \<or> i = 7 \<or> (160 \<le> i \<and> i < 256) \<or> (256 \<le> i \<and> i < ff)))
    = (\<lambda>i. \<not> page_reserved ff i)"
    by (auto simp: page_reserved_def PGNUM_div fun_eq_iff)
  then show ?thesis using page_init_rep [OF assms] by (simp only:)
qed

theorem page_init_free_list_witness:
  "free_pages (page_init 0 (zero_kst\<lparr>npages := 3\<rparr>)) [2, 1]"
proof -
  have "[0..<3] = [0, 1, 2 :: nat]" by code_simp
  then show ?thesis
    using page_init_free_list [of "zero_kst\<lparr>npages := 3\<rparr>" 0] by (simp add: zero_kst_def)
qed

text \<open>page\_alloc takes the head of the free list, unlinks it, zeroes the frame when
  asked and keeps the invariant; freeing that page again restores the list.\<close>

theorem page_alloc_free_roundtrip:
  assumes "free_pages s (x # xs)" "page_alloc flags s = (Inr r, s')"
  shows "r = Some x \<and> free_pages s' xs \<and> pp_link (pages s' x) = None
    \<and> (flags AND ALLOC_ZERO \<noteq> 0 \<longrightarrow> pmem s' x = (\<lambda>_. 0))
    \<and> (\<exists>s''. page_free x s' = (Inr (), s'') \<and> free_pages s'' (x # xs))"
proof -
  have x: "x \<notin> set xs" "x < npages s" "pp_ref (pages s x) = 0"
    using assms(1) by (auto simp: free_pages_def list_rep_def)
  have s': "r = Some x" "s' = page_alloc_post flags x s"
    using assms(2) page_alloc_exec [OF assms(1)] by simp_all
  have fp: "free_pages s' xs" unfolding s' by (rule free_pages_alloc_post) fact
  have "free_pages (page_push x s') (x # xs)"
    by (rule free_pages_push [OF fp x(1)]) (use x s' in simp_all)
  then show ?thesis using s' fp x page_free_exec [of s' x] by simp
qed

theorem page_alloc_free_roundtrip_witness:
  "free_pages (page_alloc_post 1 6 pages_kst) [5, 4, 3, 2, 1]"
  using page_alloc_free_roundtrip [OF pages_kst_rep page_alloc_exec [OF pages_kst_rep, of 1]] by simp

text \<open>page\_decref drops one reference and frees the page, putting it at the head of the
  list, exactly when it was the last one.\<close>

theorem page_decref_frees_last:
  assumes "free_pages s xs" "p < npages s" "p \<notin> set xs"
  shows "\<exists>s'. page_decref p s = (Inr (), s') \<and> pp_ref (pages s' p) = pp_ref (pages s p) - 1
    \<and> free_pages s' (if pp_ref (pages s p) = 1 then p # xs else xs)
    \<and> (\<forall>q. q \<noteq> p \<longrightarrow> pages s' q = pages s q)"
  using page_decref_exec [of s p] free_pages_link [OF assms] free_pages_decref [OF assms(1,3,2)] by simp

theorem page_decref_frees_last_witness:
  "\<exists>s'. page_decref 7 (upd_page 7 (\<lambda>p. p\<lparr>pp_ref := 1\<rparr>) pages_kst) = (Inr (), s')
     \<and> free_pages s' [7, 6, 5, 4, 3, 2, 1]"
  using page_decref_frees_last [of "upd_page 7 (\<lambda>p. p\<lparr>pp_ref := 1\<rparr>) pages_kst" "[6, 5, 4, 3, 2, 1]" 7]
    free_pages_set_ref [OF pages_kst_rep, of 7 "\<lambda>_. 1"] by auto

end
