(* ===== verification/PageTable.thy ===== *)
theory PageTable
  imports Pages
begin

text \<open>
  The two-level page tables of kern/pmap.c: pgdir\_walk, page\_lookup, page\_remove, page\_insert,
  boot\_map\_region, mmio\_map\_region and user\_mem\_check, over the word-addressed page frames.
  Their contract is stated on \<open>upte\<close>, the entry an address translates to (0 when there is none):
  page\_insert and page\_remove are updates of that map at one page, whatever the tables do.
\<close>

section \<open>The operations\<close>

definition pgdir_walk :: "nat option \<Rightarrow> u32 \<Rightarrow> bool \<Rightarrow> (nat \<times> nat) option K" where
  "pgdir_walk pgdir va create = bnd (deref pgdir) (\<lambda>d.
     let pdx = PDX va in
     bnd (load_word d pdx) (\<lambda>pde.
     thn (whenM (pde = 0 \<and> create) (bnd (page_alloc ALLOC_ZERO) (\<lambda>page. case page of
            None \<Rightarrow> ret ()
          | Some p \<Rightarrow> thn (page_incref p)
                       (store_word d pdx (page2pa p OR PTE_P OR PTE_W OR PTE_U)))))
     (bnd (load_word d pdx) (\<lambda>pde'.
     if pde' \<noteq> 0 then bnd (KADDR (PTE_ADDR pde')) (\<lambda>pt. ret (Some (pt, PTX va)))
     else ret None))))"

text \<open>
  page\_lookup returns the page and, as its out-parameter, where the entry is; the C test
  \<open>!(*pte && PTE_P)\<close> is true exactly when the entry is zero.
\<close>

definition page_lookup :: "nat option \<Rightarrow> u32 \<Rightarrow> (nat \<times> (nat \<times> nat)) option K" where
  "page_lookup pgdir va = bnd (pgdir_walk pgdir va False) (\<lambda>pte. case pte of
      None \<Rightarrow> ret None
    | Some (t, i) \<Rightarrow> bnd (load_word t i) (\<lambda>w.
        if \<not> (w \<noteq> 0 \<and> PTE_P \<noteq> 0) then ret None
        else bnd (pa2page (PTE_ADDR w)) (\<lambda>pp. ret (Some (pp, (t, i))))))"

definition tlb_invalidate :: "nat option \<Rightarrow> u32 \<Rightarrow> unit K" where
  "tlb_invalidate pgdir va = bnd (gets (\<lambda>s. case curenv s of None \<Rightarrow> True
       | Some c \<Rightarrow> env_pgdir (envs s c) = pgdir)) (\<lambda>b. whenM b (emit (Invlpg va)))"

definition page_remove :: "nat option \<Rightarrow> u32 \<Rightarrow> unit K" where
  "page_remove pgdir va = bnd (pgdir_walk pgdir va False) (\<lambda>pte0.
     bnd (page_lookup pgdir va) (\<lambda>found.
     let page_rmv = map_option fst found;
         pte = (case found of Some (_, p) \<Rightarrow> Some p | None \<Rightarrow> pte0) in
     case pte of
       None \<Rightarrow> ret ()
     | Some (t, i) \<Rightarrow> bnd (load_word t i) (\<lambda>w.
         if \<not> (w \<noteq> 0 \<and> PTE_P \<noteq> 0) then ret ()
         else bnd (deref page_rmv) (\<lambda>pp.
              thn (page_decref pp)
              (thn (store_word t i 0)
              (tlb_invalidate pgdir va))))))"

definition page_insert :: "nat option \<Rightarrow> nat \<Rightarrow> u32 \<Rightarrow> u32 \<Rightarrow> u32 K" where
  "page_insert pgdir pp va perm = bnd (pgdir_walk pgdir va True) (\<lambda>page_table. case page_table of
      None \<Rightarrow> ret (err E_NO_MEM)
    | Some (t, i) \<Rightarrow>
        thn (page_incref pp)
        (thn (page_remove pgdir va)
        (thn (store_word t i (page2pa pp OR perm OR PTE_P))
        (ret 0))))"

text \<open>
  boot\_map\_region (the build does not define TP1\_PSE): \<open>size\<close> is a multiple of the page size at
  every call, so the loop runs once per page. A failed allocation of a table is followed as NULL.
\<close>

definition boot_map_page :: "nat option \<Rightarrow> u32 \<Rightarrow> u32 \<Rightarrow> u32 \<Rightarrow> unit K" where
  "boot_map_page pgdir va pa perm = bnd (pgdir_walk pgdir va True) (\<lambda>pte.
     thn (page_remove pgdir va)
     (bnd (deref pte) (\<lambda>(t, i). store_word t i (pa OR perm OR PTE_P))))"

definition boot_map_region :: "nat option \<Rightarrow> u32 \<Rightarrow> u32 \<Rightarrow> u32 \<Rightarrow> u32 \<Rightarrow> unit K" where
  "boot_map_region pgdir va sz pa perm =
     for_each [0..<unat (sz div PGSIZE)]
       (\<lambda>k. let i = of_nat k * PGSIZE in boot_map_page pgdir (va + i) (pa + i) perm)"

definition mmio_map_region :: "u32 \<Rightarrow> u32 \<Rightarrow> u32 K" where
  "mmio_map_region pa sz = bnd (gets (\<lambda>s. (mmio_base s, kern_pgdir s))) (\<lambda>(base, kpd).
     let pa' = ROUNDDOWN pa PGSIZE;
         size' = ROUNDUP sz PGSIZE;
         perm = PTE_W OR PTE_P OR PTE_PCD OR PTE_PWT in
     if base + size' \<ge> MMIOLIM then panic ''mmio_map_region: MMIOLIMIT overflow''
     else thn (boot_map_region (Some kpd) base size' pa' perm)
          (thn (modify (\<lambda>s. s\<lparr>mmio_base := base + size'\<rparr>))
          (ret (base + size' - size'))))"

fun user_mem_scan :: "nat option \<Rightarrow> u32 \<Rightarrow> u32 \<Rightarrow> nat list \<Rightarrow> u32 K" where
  "user_mem_scan pgdir va_lo perm [] = ret 0"
| "user_mem_scan pgdir va_lo perm (n # ns) =
     (let va_act = of_nat n * PGSIZE in
      bnd (pgdir_walk pgdir va_act False) (\<lambda>pte.
      bnd (case pte of None \<Rightarrow> ret True
           | Some (t, i) \<Rightarrow> bnd (load_word t i) (\<lambda>w. ret (w AND (perm OR PTE_P) \<noteq> perm OR PTE_P))) (\<lambda>bad.
      if bad then thn (modify (\<lambda>s. s\<lparr>user_mem_check_addr := (if va_act > va_lo then va_act else va_lo)\<rparr>))
                      (ret (err E_FAULT))
      else user_mem_scan pgdir va_lo perm ns)))"

text \<open>The loop visits the pages from the one of \<open>va_lo\<close> up to \<open>va_hi\<close>, which is page aligned.\<close>

definition user_mem_check :: "nat option \<Rightarrow> u32 \<Rightarrow> u32 \<Rightarrow> u32 \<Rightarrow> u32 K" where
  "user_mem_check pgdir va len perm =
     (let va_lo = va; va_hi = ROUNDUP (va + len) PGSIZE in
      if va_hi > UTOP
      then thn (modify (\<lambda>s. s\<lparr>user_mem_check_addr := va_lo\<rparr>)) (ret (err E_FAULT))
      else user_mem_scan pgdir va_lo perm [PGNUM va_lo ..< PGNUM va_hi])"

section \<open>Address spaces\<close>

definition upte :: "kst \<Rightarrow> nat \<Rightarrow> u32 \<Rightarrow> u32" where
  "upte s d va = (let pde = pmem s d (PDX va) in if pde = 0 then 0 else pmem s (PGNUM pde) (PTX va))"

text \<open>
  \<open>wf_pgdir s fl d\<close>, for the list \<open>fl\<close> of free frames: the directory and its tables are frames
  that exist and are in use, and the tables below UTOP are distinct from the directory and from
  every other table of it (UVPT maps the directory itself, above UTOP).
\<close>

definition wf_pgdir :: "kst \<Rightarrow> nat list \<Rightarrow> nat \<Rightarrow> bool" where
  "wf_pgdir s fl d \<longleftrightarrow> d < npages s \<and> d \<notin> set fl
     \<and> (\<forall>i < 1024. pmem s d i \<noteq> 0 \<longrightarrow> PGNUM (pmem s d i) < npages s \<and> PGNUM (pmem s d i) \<notin> set fl)
     \<and> (\<forall>i < PDX UTOP. pmem s d i \<noteq> 0 \<longrightarrow> PGNUM (pmem s d i) \<noteq> d
          \<and> (\<forall>j < 1024. j \<noteq> i \<longrightarrow> pmem s d j \<noteq> 0 \<longrightarrow> PGNUM (pmem s d j) \<noteq> PGNUM (pmem s d i)))"

text \<open>
  A page that is mapped, or about to be, is a frame in use that is not a table of the directory.
\<close>

definition data_page :: "kst \<Rightarrow> nat list \<Rightarrow> nat \<Rightarrow> nat \<Rightarrow> bool" where
  "data_page s fl d p \<longleftrightarrow> p < npages s \<and> p \<notin> set fl \<and> p \<noteq> d
     \<and> (\<forall>i < 1024. pmem s d i \<noteq> 0 \<longrightarrow> PGNUM (pmem s d i) \<noteq> p)"

definition wf_mapped :: "kst \<Rightarrow> nat list \<Rightarrow> nat \<Rightarrow> u32 \<Rightarrow> bool" where
  "wf_mapped s fl d va \<longleftrightarrow> (upte s d va \<noteq> 0 \<longrightarrow> data_page s fl d (PGNUM (upte s d va)))"

lemma PDX_UTOP [simp]: "PDX 0xEEC00000 = 955"
  by (simp add: PDX_div PGNUM_div)

lemma PDX_below_UTOP: "va < UTOP \<Longrightarrow> PDX va < 955"
  by (simp add: PDX_div PGNUM_div word_less_nat_alt)

lemma upte_PGNUM: "PGNUM a = PGNUM b \<Longrightarrow> upte s d a = upte s d b"
  by (auto simp: upte_def same_page_iff)

lemma wf_pgdir_table:
  "wf_pgdir s fl d \<Longrightarrow> i < 1024 \<Longrightarrow> pmem s d i \<noteq> 0 \<Longrightarrow> PGNUM (pmem s d i) < npages s"
  by (simp add: wf_pgdir_def)

lemma wf_pgdir_inj:
  "\<lbrakk>wf_pgdir s fl d; i < 955; j < 1024; pmem s d i \<noteq> 0; pmem s d j \<noteq> 0\<rbrakk>
   \<Longrightarrow> PGNUM (pmem s d j) = PGNUM (pmem s d i) \<longleftrightarrow> j = i"
  by (simp add: wf_pgdir_def) metis

lemma wf_pgdir_table_neq:
  "wf_pgdir s fl d \<Longrightarrow> i < 955 \<Longrightarrow> pmem s d i \<noteq> 0 \<Longrightarrow> PGNUM (pmem s d i) \<noteq> d"
  by (simp add: wf_pgdir_def)

lemma wf_pgdir_cong:
  "\<lbrakk>npages s' = npages s; pmem s' d = pmem s d\<rbrakk> \<Longrightarrow> wf_pgdir s' fl d = wf_pgdir s fl d"
  by (simp add: wf_pgdir_def)

section \<open>pgdir\_walk\<close>

lemma walk_no_create:
  assumes "wf_pgdir s fl d"
  shows "pgdir_walk (Some d) va False s =
     (Inr (if pmem s d (PDX va) = 0 then None else Some (PGNUM (pmem s d (PDX va)), PTX va)), s)"
proof (cases "pmem s d (PDX va) = 0")
  case True
  then show ?thesis by (simp add: pgdir_walk_def)
next
  case False
  then have "KADDR (PTE_ADDR (pmem s d (PDX va))) s = (Inr (PGNUM (pmem s d (PDX va))), s)"
    using KADDR_exec [of "PTE_ADDR (pmem s d (PDX va))" s] wf_pgdir_table [OF assms, of "PDX va"] by simp
  with False show ?thesis by (simp add: pgdir_walk_def bnd_def)
qed

lemma walk_present:
  assumes "wf_pgdir s fl d" "pmem s d (PDX va) \<noteq> 0"
  shows "pgdir_walk (Some d) va create s = (Inr (Some (PGNUM (pmem s d (PDX va)), PTX va)), s)"
  using walk_no_create [OF assms(1), of va] assms(2) by (simp add: pgdir_walk_def)

lemma walk_no_memory:
  assumes "free_pages s []" "pmem s d (PDX va) = 0"
  shows "pgdir_walk (Some d) va True s = (Inr None, s)"
  using assms by (simp add: pgdir_walk_def page_alloc_empty thn_def bnd_def)

text \<open>The entry a new page table gets in the directory, and the state after the walk made it.\<close>

definition new_pde :: "nat \<Rightarrow> u32" where
  "new_pde p = page2pa p OR PTE_P OR PTE_W OR PTE_U"

definition walk_post :: "nat \<Rightarrow> u32 \<Rightarrow> nat \<Rightarrow> kst \<Rightarrow> kst" where
  "walk_post d va x s =
     (let s1 = upd_page x (\<lambda>p. p\<lparr>pp_ref := pp_ref p + 1\<rparr>) (page_alloc_post ALLOC_ZERO x s)
      in s1\<lparr>pmem := (pmem s1)(d := (pmem s1 d)(PDX va := new_pde x))\<rparr>)"

lemma PGNUM_new_pde: "p < 2 ^ 20 \<Longrightarrow> PGNUM (new_pde p) = p"
  using PGNUM_entry [of p "PTE_P OR PTE_W OR PTE_U"] by (simp add: new_pde_def page2pa_def)

lemma or_PTE_P_neq_0: "w OR PTE_P \<noteq> 0"
proof
  assume "w OR PTE_P = 0"
  then have "bit (w OR PTE_P) 0 = bit (0 :: u32) 0" by simp
  then show False by (simp add: bit_simps)
qed

lemma new_pde_neq_0 [simp]: "new_pde p \<noteq> 0"
proof -
  have "new_pde p = (page2pa p OR PTE_W OR PTE_U) OR PTE_P"
    by (simp only: new_pde_def or.assoc or.commute or.left_commute)
  then show ?thesis by (metis or_PTE_P_neq_0)
qed

lemma walk_create:
  assumes "free_pages s (x # xs)" "wf_pgdir s (x # xs) d" "pmem s d (PDX va) = 0"
  shows "pgdir_walk (Some d) va True s = (Inr (Some (x, PTX va)), walk_post d va x s)"
proof -
  have x: "x < npages s" "npages s \<le> 2 ^ 20" "x < 2 ^ 20" and dx: "d \<noteq> x"
    using assms by (auto simp: free_pages_def wf_pgdir_def)
  have pde: "pmem (walk_post d va x s) d (PDX va) = new_pde x"
    by (simp add: walk_post_def Let_def)
  have kaddr: "KADDR (PTE_ADDR (new_pde x)) (walk_post d va x s) = (Inr x, walk_post d va x s)"
    using KADDR_exec [of "PTE_ADDR (new_pde x)" "walk_post d va x s"] PGNUM_new_pde [OF x(3)] x(1)
    by (simp add: walk_post_def Let_def)
  have "whenM True (bnd (page_alloc ALLOC_ZERO) (\<lambda>page. case page of None \<Rightarrow> ret ()
          | Some p \<Rightarrow> thn (page_incref p) (store_word d (PDX va) (page2pa p OR PTE_P OR PTE_W OR PTE_U)))) s
        = (Inr (), walk_post d va x s)"
    using page_alloc_exec [OF assms(1), of ALLOC_ZERO]
    by (simp add: bnd_def page_incref_def walk_post_def new_pde_def Let_def)
  then show ?thesis
    using assms(3) pde kaddr by (simp add: pgdir_walk_def thn_def bnd_def)
qed

lemma walk_post_simps [simp]:
  "npages (walk_post d va x s) = npages s" "envs (walk_post d va x s) = envs s"
  "curenv (walk_post d va x s) = curenv s" "trace (walk_post d va x s) = trace s"
  "kern_pgdir (walk_post d va x s) = kern_pgdir s" "env_free_list (walk_post d va x s) = env_free_list s"
  "ticks (walk_post d va x s) = ticks s" "stats (walk_post d va x s) = stats s"
  "cpus (walk_post d va x s) = cpus s" "cpunum (walk_post d va x s) = cpunum s"
  "klock (walk_post d va x s) = klock s" "policy (walk_post d va x s) = policy s"
  by (simp_all add: walk_post_def Let_def)

lemma walk_post_pages:
  "p \<noteq> x \<Longrightarrow> pages (walk_post d va x s) p = pages s p"
  by (simp add: walk_post_def Let_def)

lemma walk_post_pmem:
  "d \<noteq> x \<Longrightarrow> pmem (walk_post d va x s) =
     ((pmem s)(x := (\<lambda>_. 0)))(d := (pmem s d)(PDX va := new_pde x))"
  by (simp add: walk_post_def Let_def)

lemma free_pages_walk_post:
  assumes "free_pages s (x # xs)"
  shows "free_pages (walk_post d va x s) xs"
proof -
  have "x \<notin> set xs" using assms by (simp add: free_pages_def list_rep_def)
  then have "free_pages (upd_page x (\<lambda>p. p\<lparr>pp_ref := pp_ref p + 1\<rparr>) (page_alloc_post ALLOC_ZERO x s)) xs"
    by (intro free_pages_set_ref free_pages_alloc_post assms)
  then show ?thesis by (simp add: walk_post_def Let_def)
qed

text \<open>Making an empty table changes no translation and keeps the directory well formed.\<close>

lemma wf_pgdir_walk_post:
  assumes fp: "free_pages s (x # xs)" and wf: "wf_pgdir s (x # xs) d" and z: "pmem s d (PDX va) = 0"
  shows "wf_pgdir (walk_post d va x s) xs d"
proof -
  have x: "x < npages s" "x < 2 ^ 20" "x \<notin> set xs" "d \<noteq> x"
    using fp wf by (auto simp: free_pages_def wf_pgdir_def list_rep_def)
  have tab: "PGNUM (pmem s d i) \<noteq> x" if "i < 1024" "pmem s d i \<noteq> 0" for i
    using wf that by (auto simp: wf_pgdir_def)
  have lt: "i < 955 \<Longrightarrow> i < (1024 :: nat)" for i by simp
  show ?thesis
    using wf x z by (auto simp: wf_pgdir_def walk_post_pmem PGNUM_new_pde) (use tab lt in blast)+
qed

lemma upte_walk_post:
  assumes fp: "free_pages s (x # xs)" and wf: "wf_pgdir s (x # xs) d" and z: "pmem s d (PDX va) = 0"
    and a: "PDX a < 955"
  shows "upte (walk_post d va x s) d a = upte s d a"
proof -
  have x: "x < 2 ^ 20" "d \<noteq> x"
    using fp wf by (auto simp: free_pages_def wf_pgdir_def list_rep_def)
  have tab: "PGNUM (pmem s d (PDX a)) \<noteq> x \<and> PGNUM (pmem s d (PDX a)) \<noteq> d" if "pmem s d (PDX a) \<noteq> 0"
    using wf that a by (auto simp: wf_pgdir_def)
  show ?thesis
    using x z tab by (auto simp: upte_def walk_post_pmem PGNUM_new_pde Let_def)
qed

lemma data_page_walk_post:
  assumes fp: "free_pages s (x # xs)" and wf: "wf_pgdir s (x # xs) d" and p: "data_page s (x # xs) d p"
  shows "data_page (walk_post d va x s) xs d p"
proof -
  have x: "x < 2 ^ 20" "d \<noteq> x" "p \<noteq> x"
    using fp wf p by (auto simp: free_pages_def wf_pgdir_def list_rep_def data_page_def)
  then show ?thesis
    using p by (auto simp: data_page_def walk_post_pmem PGNUM_new_pde)
qed

section \<open>page\_lookup and page\_remove\<close>

lemma page_lookup_exec:
  assumes "wf_pgdir s fl d" "wf_mapped s fl d va"
  shows "page_lookup (Some d) va s = (Inr (if upte s d va = 0 then None
     else Some (PGNUM (upte s d va), (PGNUM (pmem s d (PDX va)), PTX va))), s)"
proof (cases "upte s d va = 0")
  case True
  then show ?thesis
    using walk_no_create [OF assms(1), of va]
    by (auto simp: page_lookup_def bnd_def upte_def split: if_splits)
next
  case False
  then have "pa2page (PTE_ADDR (upte s d va)) s = (Inr (PGNUM (upte s d va)), s)"
    using assms(2) pa2page_exec [of "PTE_ADDR (upte s d va)" s] by (simp add: wf_mapped_def data_page_def)
  with False show ?thesis
    using walk_no_create [OF assms(1), of va]
    by (auto simp: page_lookup_def bnd_def upte_def split: if_splits)
qed

definition tlb_flushed :: "kst \<Rightarrow> nat \<Rightarrow> bool" where
  "tlb_flushed s d \<longleftrightarrow> (case curenv s of None \<Rightarrow> True | Some c \<Rightarrow> env_pgdir (envs s c) = Some d)"

definition remove_post :: "nat \<Rightarrow> u32 \<Rightarrow> kst \<Rightarrow> kst" where
  "remove_post d va s = (if upte s d va = 0 then s else
     (let t = PGNUM (pmem s d (PDX va));
          s1 = decref_post (PGNUM (upte s d va)) s;
          s2 = s1\<lparr>pmem := (pmem s)(t := (pmem s t)(PTX va := 0))\<rparr>
      in if tlb_flushed s d then s2\<lparr>trace := Invlpg va # trace s\<rparr> else s2))"

lemma page_remove_exec:
  assumes fp: "free_pages s fl" and wf: "wf_pgdir s fl d" "wf_mapped s fl d va"
  shows "page_remove (Some d) va s = (Inr (), remove_post d va s)"
proof (cases "upte s d va = 0")
  case True
  then show ?thesis
    using walk_no_create [OF wf(1), of va] page_lookup_exec [OF wf]
    by (auto simp: page_remove_def bnd_def remove_post_def upte_def split: if_splits)
next
  case False
  let ?p = "PGNUM (upte s d va)"
  have pde: "pmem s d (PDX va) \<noteq> 0" using False by (auto simp: upte_def split: if_splits)
  then have pte: "pmem s (PGNUM (pmem s d (PDX va))) (PTX va) = upte s d va" by (simp add: upte_def)
  have "pp_link (pages s ?p) = None"
    using wf(2) False free_pages_link [OF fp] by (auto simp: wf_mapped_def data_page_def)
  from page_decref_exec [OF this] show ?thesis
    using walk_no_create [OF wf(1), of va] page_lookup_exec [OF wf] False pde pte
    by (auto simp: page_remove_def bnd_def thn_def remove_post_def tlb_invalidate_def
      tlb_flushed_def whenM_def split: option.splits)
qed

definition remove_free :: "nat \<Rightarrow> u32 \<Rightarrow> kst \<Rightarrow> nat list \<Rightarrow> nat list" where
  "remove_free d va s fl =
     (if upte s d va \<noteq> 0 \<and> pp_ref (pages s (PGNUM (upte s d va))) = 1
      then PGNUM (upte s d va) # fl else fl)"

lemma free_pages_remove:
  assumes "free_pages s fl" "wf_mapped s fl d va"
  shows "free_pages (remove_post d va s) (remove_free d va s fl)"
  using assms free_pages_decref [OF assms(1), of "PGNUM (upte s d va)"]
  by (auto simp: remove_post_def remove_free_def wf_mapped_def data_page_def)

lemma remove_post_simps [simp]:
  "npages (remove_post d va s) = npages s" "envs (remove_post d va s) = envs s"
  "curenv (remove_post d va s) = curenv s" "kern_pgdir (remove_post d va s) = kern_pgdir s"
  "env_free_list (remove_post d va s) = env_free_list s"
  "ticks (remove_post d va s) = ticks s" "stats (remove_post d va s) = stats s"
  "cpus (remove_post d va s) = cpus s" "cpunum (remove_post d va s) = cpunum s"
  "klock (remove_post d va s) = klock s" "policy (remove_post d va s) = policy s"
  by (simp_all add: remove_post_def)

lemma remove_post_pmem:
  "pmem (remove_post d va s) = (if upte s d va = 0 then pmem s
     else (pmem s)(PGNUM (pmem s d (PDX va)) := (pmem s (PGNUM (pmem s d (PDX va))))(PTX va := 0)))"
  by (simp add: remove_post_def)

text \<open>A table below UTOP is not the directory, so a store in it changes no directory entry.\<close>

lemma remove_post_dir:
  assumes "wf_pgdir s fl d" "PDX va < 955"
  shows "pmem (remove_post d va s) d = pmem s d"
  using assms by (auto simp: remove_post_pmem wf_pgdir_def upte_def split: if_splits)

lemma wf_pgdir_remove:
  assumes "wf_pgdir s fl d" "wf_mapped s fl d va" "PDX va < 955"
  shows "wf_pgdir (remove_post d va s) (remove_free d va s fl) d"
  using assms remove_post_dir [OF assms(1,3)]
  by (auto simp: wf_pgdir_def remove_free_def wf_mapped_def data_page_def)

text \<open>A store of an entry for \<open>va\<close> changes the translation of the page of \<open>va\<close> and of no other.\<close>

lemma upte_store:
  assumes "wf_pgdir s fl d" "pmem s d (PDX va) \<noteq> 0" "PDX va < 955" "PDX a < 955"
    and "s' = s\<lparr>pmem := (pmem s)(PGNUM (pmem s d (PDX va)) := (pmem s (PGNUM (pmem s d (PDX va))))(PTX va := w))\<rparr>"
  shows "upte s' d a = (if PGNUM a = PGNUM va then w else upte s d a)"
proof -
  let ?t = "PGNUM (pmem s d (PDX va))"
  have d: "?t \<noteq> d" using assms wf_pgdir_table_neq by blast
  have inj: "PGNUM (pmem s d (PDX a)) = ?t \<longleftrightarrow> PDX a = PDX va" if "pmem s d (PDX a) \<noteq> 0"
    using wf_pgdir_inj [OF assms(1,3) PDX_less assms(2) that] .
  show ?thesis
    using assms(2,5) d inj by (auto simp: upte_def same_page_iff)
qed

lemma upte_pmem_cong: "pmem s' = pmem s \<Longrightarrow> upte s' d a = upte s d a"
  by (simp add: upte_def)

lemma upte_remove:
  assumes "wf_pgdir s fl d" "PDX va < 955" "PDX a < 955"
  shows "upte (remove_post d va s) d a = (if PGNUM a = PGNUM va then 0 else upte s d a)"
proof (cases "upte s d va = 0")
  case True
  then show ?thesis
    by (auto simp: remove_post_def dest: upte_PGNUM [of _ _ s d])
next
  case False
  then have "pmem s d (PDX va) \<noteq> 0" by (auto simp: upte_def)
  from upte_store [OF assms(1) this assms(2,3) refl, of 0] show ?thesis
    by (subst upte_pmem_cong [where s = "s\<lparr>pmem := (pmem s)(PGNUM (pmem s d (PDX va)) :=
      (pmem s (PGNUM (pmem s d (PDX va))))(PTX va := 0))\<rparr>"]) (simp_all add: remove_post_pmem False)
qed

section \<open>page\_insert\<close>

definition insert_post :: "nat \<Rightarrow> nat \<Rightarrow> u32 \<Rightarrow> u32 \<Rightarrow> kst \<Rightarrow> kst" where
  "insert_post d pp va perm s =
     (let t = PGNUM (pmem s d (PDX va));
          s1 = upd_page pp (\<lambda>p. p\<lparr>pp_ref := pp_ref p + 1\<rparr>) s;
          s2 = remove_post d va s1
      in s2\<lparr>pmem := (pmem s2)(t := (pmem s2 t)(PTX va := page2pa pp OR perm OR PTE_P))\<rparr>)"

text \<open>The state page\_insert works on once the walk is done: with the table, made if needed.\<close>

definition insert_base :: "nat list \<Rightarrow> nat \<Rightarrow> u32 \<Rightarrow> kst \<Rightarrow> kst \<times> nat list" where
  "insert_base fl d va s = (if pmem s d (PDX va) \<noteq> 0 then (s, fl)
     else case fl of [] \<Rightarrow> (s, fl) | x # xs \<Rightarrow> (walk_post d va x s, xs))"

lemma insert_base_wf:
  assumes "free_pages s fl" "wf_pgdir s fl d" "PDX va < 955" "insert_base fl d va s = (s0, fl0)"
    and "pmem s d (PDX va) \<noteq> 0 \<or> fl \<noteq> []"
  shows "free_pages s0 fl0" "wf_pgdir s0 fl0 d" "pmem s0 d (PDX va) \<noteq> 0" "npages s0 = npages s"
    "PDX a < 955 \<Longrightarrow> upte s0 d a = upte s d a"
    "data_page s fl d p \<Longrightarrow> data_page s0 fl0 d p"
    "data_page s fl d p \<Longrightarrow> pages s0 p = pages s p"
    "pgdir_walk (Some d) va True s = (Inr (Some (PGNUM (pmem s0 d (PDX va)), PTX va)), s0)"
proof -
  have *: "free_pages s0 fl0 \<and> wf_pgdir s0 fl0 d \<and> pmem s0 d (PDX va) \<noteq> 0 \<and> npages s0 = npages s
    \<and> (PDX a < 955 \<longrightarrow> upte s0 d a = upte s d a)
    \<and> (data_page s fl d p \<longrightarrow> data_page s0 fl0 d p \<and> pages s0 p = pages s p)
    \<and> pgdir_walk (Some d) va True s = (Inr (Some (PGNUM (pmem s0 d (PDX va)), PTX va)), s0)"
  proof (cases "pmem s d (PDX va) = 0")
    case False
    then show ?thesis using assms walk_present by (auto simp: insert_base_def)
  next
    case True
    then obtain x xs where fl: "fl = x # xs" and s0: "s0 = walk_post d va x s" "fl0 = xs"
      using assms by (auto simp: insert_base_def neq_Nil_conv)
    have x: "x < 2 ^ 20" "d \<noteq> x" using assms(1,2) fl
      by (auto simp: free_pages_def wf_pgdir_def)
    note fp = assms(1) [unfolded fl] and wf = assms(2) [unfolded fl]
    show ?thesis
      unfolding s0 fl
      using free_pages_walk_post [OF fp] wf_pgdir_walk_post [OF fp wf True]
        upte_walk_post [OF fp wf True] data_page_walk_post [OF fp wf] walk_create [OF fp wf True] x
      by (auto simp: walk_post_pmem PGNUM_new_pde walk_post_pages data_page_def)
  qed
  then show "free_pages s0 fl0" "wf_pgdir s0 fl0 d" "pmem s0 d (PDX va) \<noteq> 0" "npages s0 = npages s"
    "PDX a < 955 \<Longrightarrow> upte s0 d a = upte s d a"
    "data_page s fl d p \<Longrightarrow> data_page s0 fl0 d p"
    "data_page s fl d p \<Longrightarrow> pages s0 p = pages s p"
    "pgdir_walk (Some d) va True s = (Inr (Some (PGNUM (pmem s0 d (PDX va)), PTX va)), s0)"
    by blast+
qed

lemma page_insert_no_memory:
  assumes "free_pages s []" "pmem s d (PDX va) = 0"
  shows "page_insert (Some d) pp va perm s = (Inr (err E_NO_MEM), s)"
  using walk_no_memory [OF assms] by (simp add: page_insert_def bnd_def)

lemma page_insert_exec:
  assumes fp: "free_pages s fl" and wf: "wf_pgdir s fl d" "wf_mapped s fl d va" "PDX va < 955"
    and pp: "data_page s fl d pp" and mem: "pmem s d (PDX va) \<noteq> 0 \<or> fl \<noteq> []"
    and base: "insert_base fl d va s = (s0, fl0)"
  shows "page_insert (Some d) pp va perm s = (Inr 0, insert_post d pp va perm s0)"
    and "let s1 = upd_page pp (\<lambda>p. p\<lparr>pp_ref := pp_ref p + 1\<rparr>) s0
         in free_pages s1 fl0 \<and> wf_pgdir s1 fl0 d \<and> wf_mapped s1 fl0 d va"
proof -
  note b = insert_base_wf [OF fp wf(1,3) base mem]
  let ?s1 = "upd_page pp (\<lambda>p. p\<lparr>pp_ref := pp_ref p + 1\<rparr>) s0"
  have pp0: "data_page s0 fl0 d pp" using b(6) pp by blast
  have fp1: "free_pages ?s1 fl0"
    by (rule free_pages_set_ref) (use b(1) pp0 in \<open>auto simp: data_page_def\<close>)
  have wf1: "wf_pgdir ?s1 fl0 d" using b(2) by (simp add: wf_pgdir_def)
  have m1: "wf_mapped ?s1 fl0 d va"
    using wf(2,3) b(5) [of va] b(6)
    by (auto simp: wf_mapped_def data_page_def upte_def)
  show "let s1 = ?s1 in free_pages s1 fl0 \<and> wf_pgdir s1 fl0 d \<and> wf_mapped s1 fl0 d va"
    using fp1 wf1 m1 by simp
  show "page_insert (Some d) pp va perm s = (Inr 0, insert_post d pp va perm s0)"
    using b(8) page_remove_exec [OF fp1 wf1 m1]
    by (simp add: page_insert_def page_incref_def bnd_def thn_def insert_post_def)
qed

lemma page_insert_upte:
  assumes fp: "free_pages s fl" and wf: "wf_pgdir s fl d" "wf_mapped s fl d va" "PDX va < 955"
    and pp: "data_page s fl d pp" and mem: "pmem s d (PDX va) \<noteq> 0 \<or> fl \<noteq> []"
    and run: "page_insert (Some d) pp va perm s = (Inr 0, s')"
  shows "\<exists>fl'. free_pages s' fl' \<and> wf_pgdir s' fl' d"
    and "PDX a < 955 \<Longrightarrow> upte s' d a =
      (if PGNUM a = PGNUM va then page2pa pp OR perm OR PTE_P else upte s d a)"
proof -
  obtain s0 fl0 where base: "insert_base fl d va s = (s0, fl0)" by fastforce
  note b = insert_base_wf [OF fp wf(1,3) base mem]
  note ex = page_insert_exec(1) [OF fp wf pp mem base, of perm]
    page_insert_exec(2) [OF fp wf pp mem base, simplified]
  let ?s1 = "upd_page pp (\<lambda>p. p\<lparr>pp_ref := pp_ref p + 1\<rparr>) s0"
  let ?s2 = "remove_post d va ?s1"
  have s': "s' = insert_post d pp va perm s0" using run ex by simp
  have wf2: "wf_pgdir ?s2 (remove_free d va ?s1 fl0) d"
    using wf_pgdir_remove ex wf(3) by blast
  have fp2: "free_pages ?s2 (remove_free d va ?s1 fl0)"
    using free_pages_remove ex by blast
  have dir: "pmem ?s2 d = pmem s0 d"
    using remove_post_dir [of ?s1 fl0 d va] ex wf(3) by simp
  let ?t = "PGNUM (pmem s0 d (PDX va))"
  have form: "s' = ?s2\<lparr>pmem := (pmem ?s2)(?t := (pmem ?s2 ?t)(PTX va := page2pa pp OR perm OR PTE_P))\<rparr>"
    by (simp add: s' insert_post_def)
  have td: "?t \<noteq> d" using wf_pgdir_table_neq [OF b(2) wf(3) b(3)] .
  have "wf_pgdir s' (remove_free d va ?s1 fl0) d"
    using wf2 td by (subst wf_pgdir_cong [of _ ?s2]) (simp_all add: form)
  with fp2 show "\<exists>fl'. free_pages s' fl' \<and> wf_pgdir s' fl' d"
    unfolding form free_pages_frame(1) by blast
  show "upte s' d a = (if PGNUM a = PGNUM va then page2pa pp OR perm OR PTE_P else upte s d a)"
    if a: "PDX a < 955"
  proof -
    have "upte s' d a = (if PGNUM a = PGNUM va then page2pa pp OR perm OR PTE_P else upte ?s2 d a)"
      by (rule upte_store [OF wf2 _ wf(3) a]) (simp_all add: form dir b(3))
    moreover have "upte ?s2 d a = (if PGNUM a = PGNUM va then 0 else upte ?s1 d a)"
      by (rule upte_remove [of _ fl0]) (use ex wf(3) a in auto)
    moreover have "upte ?s1 d a = upte s d a"
      using upte_pmem_cong [of ?s1 s0] b(5) [OF a] by simp
    ultimately show ?thesis by simp
  qed
qed

text \<open>The reference counts after a successful insertion.\<close>

lemma page_insert_refs:
  assumes fp: "free_pages s fl" and wf: "wf_pgdir s fl d" "wf_mapped s fl d va" "PDX va < 955"
    and pp: "data_page s fl d pp" and mem: "pmem s d (PDX va) \<noteq> 0 \<or> fl \<noteq> []"
    and run: "page_insert (Some d) pp va perm s = (Inr 0, s')"
    and q: "data_page s fl d q"
  shows "pp_ref (pages s' q) = pp_ref (pages s q) + (if q = pp then 1 else 0)
     - (if upte s d va \<noteq> 0 \<and> PGNUM (upte s d va) = q then 1 else 0)"
proof -
  obtain s0 fl0 where base: "insert_base fl d va s = (s0, fl0)" by fastforce
  note b = insert_base_wf [OF fp wf(1,3) base mem]
  let ?s1 = "upd_page pp (\<lambda>p. p\<lparr>pp_ref := pp_ref p + 1\<rparr>) s0"
  have s': "s' = insert_post d pp va perm s0"
    using run page_insert_exec(1) [OF fp wf pp mem base, of perm] by simp
  have up: "upte ?s1 d va = upte s d va"
    using upte_pmem_cong [of ?s1 s0] b(5) [OF wf(3)] by simp
  have "pp_ref (pages s' q) = pp_ref (pages (remove_post d va ?s1) q)"
    by (simp add: s' insert_post_def)
  also have "\<dots> = pp_ref (pages ?s1 q)
      - (if upte s d va \<noteq> 0 \<and> PGNUM (upte s d va) = q then 1 else 0)"
    using up by (auto simp: remove_post_def)
  also have "pp_ref (pages ?s1 q) = pp_ref (pages s q) + (if q = pp then 1 else 0)"
    using b(7) [OF pp] b(7) [OF q] by simp
  finally show ?thesis .
qed

section \<open>user\_mem\_check\<close>

definition page_ok :: "kst \<Rightarrow> nat \<Rightarrow> u32 \<Rightarrow> u32 \<Rightarrow> bool" where
  "page_ok s d perm va \<longleftrightarrow> pmem s d (PDX va) \<noteq> 0
     \<and> upte s d va AND (perm OR PTE_P) = perm OR PTE_P"

lemma user_mem_scan_exec:
  assumes "wf_pgdir s fl d"
  shows "user_mem_scan (Some d) va_lo perm ns s =
    (case List.find (\<lambda>n. \<not> page_ok s d perm (of_nat n * PGSIZE)) ns of
       None \<Rightarrow> (Inr 0, s)
     | Some n \<Rightarrow> (Inr (err E_FAULT), s\<lparr>user_mem_check_addr :=
          (if of_nat n * PGSIZE > va_lo then of_nat n * PGSIZE else va_lo)\<rparr>))"
proof (induction ns)
  case Nil then show ?case by simp
next
  case (Cons n ns)
  let ?va = "of_nat n * 4096 :: u32"
  show ?case
    using Cons.IH walk_no_create [OF assms, of ?va]
    by (cases "pmem s d (PDX ?va) = 0") (auto simp: bnd_def page_ok_def upte_def)
qed

lemma page_ok_PGNUM: "PGNUM a = PGNUM b \<Longrightarrow> page_ok s d perm a = page_ok s d perm b"
  using upte_PGNUM [of a b s d] by (simp add: page_ok_def same_page_iff)

lemma PGNUM_page: "n < 2 ^ 20 \<Longrightarrow> PGNUM (of_nat n * PGSIZE) = n"
  by (simp add: PGNUM_div unat_word_ariths unat_of_nat)

lemma unat_page: "n < 2 ^ 20 \<Longrightarrow> unat (of_nat n * PGSIZE :: u32) = n * 4096"
  by (simp add: unat_word_ariths unat_of_nat)

text \<open>
  The reference for user\_mem\_check: the first byte of the range, if any, that lies in a page
  the environment may not access.
\<close>

definition first_bad :: "kst \<Rightarrow> nat \<Rightarrow> u32 \<Rightarrow> u32 \<Rightarrow> nat \<Rightarrow> nat option" where
  "first_bad s d perm va n = List.find (\<lambda>k. \<not> page_ok s d perm (va + of_nat k)) [0..<n]"

lemma first_bad_pages:
  assumes r: "unat va + n < 4294967296" "0 < n" and hi: "h = (unat va + n + 4095) div 4096"
  shows "(case List.find (\<lambda>m. \<not> page_ok s d perm (of_nat m * PGSIZE)) [PGNUM va..<h] of
      None \<Rightarrow> first_bad s d perm va n = None
    | Some m \<Rightarrow> \<exists>k. first_bad s d perm va n = Some k \<and> va + of_nat k =
        (if of_nat m * PGSIZE > va then of_nat m * PGSIZE else va))"
proof -
  let ?lo = "PGNUM va"
  have va: "?lo = unat va div 4096" by (rule PGNUM_div)
  have h20: "h \<le> 2 ^ 20" using r hi by simp
  have un: "unat (va + of_nat k) = unat va + k" if "k < n" for k
    using r that by (simp add: unat_word_ariths unat_of_nat)
  have pg: "PGNUM (va + of_nat k) = (unat va + k) div 4096" if "k < n" for k
    using un [OF that] by (simp add: PGNUM_div)
  have ok: "page_ok s d perm (va + of_nat k) = page_ok s d perm (of_nat ((unat va + k) div 4096) * PGSIZE)"
    if "k < n" for k
  proof (rule page_ok_PGNUM)
    have "(unat va + k) div 4096 < 2 ^ 20" using r that by simp
    then show "PGNUM (va + of_nat k) = PGNUM (of_nat ((unat va + k) div 4096) * PGSIZE)"
      using pg [OF that] PGNUM_page by simp
  qed
  have range: "?lo \<le> (unat va + k) div 4096 \<and> (unat va + k) div 4096 < h" if "k < n" for k
    using that hi va by (simp add: div_le_mono)
  show ?thesis
  proof (cases "List.find (\<lambda>m. \<not> page_ok s d perm (of_nat m * PGSIZE)) [?lo..<h]")
    case None
    then have "page_ok s d perm (of_nat m * PGSIZE)" if "?lo \<le> m" "m < h" for m
      using that by (auto simp: find_None_iff)
    then have "\<forall>k < n. page_ok s d perm (va + of_nat k)" using ok range by simp
    then have "first_bad s d perm va n = None" by (auto simp: first_bad_def find_None_iff)
    then show ?thesis by (simp only: None option.case)
  next
    case (Some m)
    then obtain i where i: "i < h - ?lo" "m = ?lo + i" "\<not> page_ok s d perm (of_nat m * PGSIZE)"
      "\<forall>j < i. page_ok s d perm (of_nat (?lo + j) * PGSIZE)"
      by (auto simp: find_Some_nth)
    have m20: "m < 2 ^ 20" using i h20 by simp
    have um: "unat (of_nat m * PGSIZE :: u32) = m * 4096" by (rule unat_page [OF m20])
    let ?k = "if i = 0 then 0 else m * 4096 - unat va"
    have gt: "unat va < m * 4096" if "i \<noteq> 0" using that i(2) va by simp
    have kn: "?k < n"
    proof (cases "i = 0")
      case False
      have "m * 4096 < unat va + n" using i(1,2) hi va by simp
      then show ?thesis using False gt by simp
    qed (use r in simp)
    have kd: "(unat va + ?k) div 4096 = m" using gt i(2) va by auto
    have before: "page_ok s d perm (va + of_nat j)" if "j < ?k" for j
    proof -
      have jn: "j < n" using that kn by simp
      let ?q = "(unat va + j) div 4096"
      have "?q < m" using that gt by (auto split: if_splits)
      then have "?q = ?lo + (?q - ?lo)" "?q - ?lo < i" using range [OF jn] i(2) by linarith+
      then have "page_ok s d perm (of_nat ?q * PGSIZE)" using i(4) by metis
      then show ?thesis using ok [OF jn] by simp
    qed
    have bad: "\<not> page_ok s d perm (va + of_nat ?k)" using ok [OF kn] kd i(3) by simp
    have "first_bad s d perm va n = Some ?k"
      unfolding first_bad_def find_Some_nth using kn before bad by (intro exI [of _ ?k]) auto
    moreover have "va + of_nat ?k = (if of_nat m * PGSIZE > va then of_nat m * PGSIZE else va)"
    proof (cases "i = 0")
      case True
      then have "\<not> of_nat m * PGSIZE > va" using um i(2) va by (simp add: word_less_nat_alt)
      with True show ?thesis by simp
    next
      case False
      have "unat (va + of_nat ?k) = m * 4096" using un [OF kn] False gt by simp
      then have "va + of_nat ?k = of_nat m * PGSIZE" by (simp only: um word_unat_eq_iff)
      moreover have "of_nat m * PGSIZE > va" using gt [OF False] um by (simp add: word_less_nat_alt)
      ultimately show ?thesis by simp
    qed
    ultimately show ?thesis using Some by auto
  qed
qed

section \<open>Properties\<close>

text \<open>The kernel's own directory over eight frames, empty.\<close>

lemma pages_kst_pgdir:
  "wf_pgdir pages_kst [6, 5, 4, 3, 2, 1] 0" "wf_mapped pages_kst [6, 5, 4, 3, 2, 1] 0 va"
  "data_page pages_kst [6, 5, 4, 3, 2, 1] 0 7"
  by (simp_all add: wf_pgdir_def wf_mapped_def data_page_def upte_def)

text \<open>page\_insert fails with -E\_NO\_MEM, changing nothing, exactly when the page table is
  missing and no frame is free, and otherwise returns 0.\<close>

theorem page_insert_result:
  assumes "free_pages s fl" "wf_pgdir s fl d" "wf_mapped s fl d va" "va < UTOP" "data_page s fl d pp"
  shows "(if pmem s d (PDX va) = 0 \<and> fl = [] then page_insert (Some d) pp va perm s = (Inr (err E_NO_MEM), s)
    else fst (page_insert (Some d) pp va perm s) = Inr 0)"
proof -
  have va: "PDX va < 955" using assms(4) by (rule PDX_below_UTOP)
  obtain s0 fl0 where base: "insert_base fl d va s = (s0, fl0)" by fastforce
  show ?thesis
    using page_insert_no_memory [of s d va pp perm] assms(1)
      page_insert_exec(1) [OF assms(1,2,3) va assms(5) _ base, of perm]
    by (cases "pmem s d (PDX va) = 0 \<and> fl = []") auto
qed

theorem page_insert_result_witness:
  "fst (page_insert (Some 0) 7 0x800000 PTE_W pages_kst) = Inr 0"
  using page_insert_result [OF pages_kst_rep pages_kst_pgdir(1,2) _ pages_kst_pgdir(3), of "0x800000" PTE_W]
  by simp

text \<open>C8: after a successful page\_insert the address translates to the given frame with the given
  permission bits, every other page of the user part translates as before (the page table is made
  when it is missing, and an old mapping is dropped), and allocator and directory stay well formed.\<close>

theorem page_insert_translation:
  assumes "free_pages s fl" "wf_pgdir s fl d" "wf_mapped s fl d va" "va < UTOP" "data_page s fl d pp"
    and run: "page_insert (Some d) pp va perm s = (Inr 0, s')"
  shows "(\<exists>fl'. free_pages s' fl' \<and> wf_pgdir s' fl' d)
    \<and> (\<forall>a. a < UTOP \<longrightarrow> upte s' d a =
          (if PGNUM a = PGNUM va then page2pa pp OR perm OR PTE_P else upte s d a))"
proof -
  have va: "PDX va < 955" using assms(4) by (rule PDX_below_UTOP)
  have mem: "pmem s d (PDX va) \<noteq> 0 \<or> fl \<noteq> []"
    using page_insert_no_memory [of s d va pp perm] assms(1) run by (cases "fl = []") auto
  note upte = page_insert_upte [OF assms(1,2,3) va assms(5) mem run]
  show ?thesis using upte(1) upte(2) PDX_below_UTOP by blast
qed

theorem page_insert_translation_witness:
  "upte (snd (page_insert (Some 0) 7 0x800000 PTE_W pages_kst)) 0 0x800FFF = 0x7003"
proof -
  have "fst (page_insert (Some 0) 7 0x800000 PTE_W pages_kst) = Inr 0"
    using page_insert_result_witness by simp
  then have "page_insert (Some 0) 7 0x800000 PTE_W pages_kst
      = (Inr 0, snd (page_insert (Some 0) 7 0x800000 PTE_W pages_kst))"
    by (metis prod.collapse)
  from page_insert_translation [OF pages_kst_rep pages_kst_pgdir(1,2) _ pages_kst_pgdir(3) this]
  show ?thesis by (simp add: PGNUM_div page2pa_def)
qed

text \<open>A successful page\_insert counts the new mapping and the one it replaces: the mapped frame
  gains a reference, the frame that was mapped there loses one, and mapping a frame again at the same
  address leaves its count alone.\<close>

theorem page_insert_references:
  assumes "free_pages s fl" "wf_pgdir s fl d" "wf_mapped s fl d va" "va < UTOP" "data_page s fl d pp"
    and run: "page_insert (Some d) pp va perm s = (Inr 0, s')" and q: "data_page s fl d q"
  shows "pp_ref (pages s' q) = pp_ref (pages s q) + (if q = pp then 1 else 0)
     - (if upte s d va \<noteq> 0 \<and> PGNUM (upte s d va) = q then 1 else 0)"
proof -
  have va: "PDX va < 955" using assms(4) by (rule PDX_below_UTOP)
  have mem: "pmem s d (PDX va) \<noteq> 0 \<or> fl \<noteq> []"
    using page_insert_no_memory [of s d va pp perm] assms(1) run by (cases "fl = []") auto
  show ?thesis by (rule page_insert_refs [OF assms(1,2,3) va assms(5) mem run q])
qed

theorem page_insert_references_witness:
  "pp_ref (pages (snd (page_insert (Some 0) 7 0x800000 PTE_W pages_kst)) 7) = pp_ref (pages pages_kst 7) + 1"
proof -
  have "fst (page_insert (Some 0) 7 0x800000 PTE_W pages_kst) = Inr 0"
    using page_insert_exec(1) [OF pages_kst_rep pages_kst_pgdir(1,2) _ pages_kst_pgdir(3),
        of "0x800000" _ _ PTE_W]
    by (simp add: insert_base_def PDX_div PGNUM_div)
  then have "page_insert (Some 0) 7 0x800000 PTE_W pages_kst
      = (Inr 0, snd (page_insert (Some 0) 7 0x800000 PTE_W pages_kst))"
    by (metis prod.collapse)
  from page_insert_references [OF pages_kst_rep pages_kst_pgdir(1,2) _ pages_kst_pgdir(3) this
      pages_kst_pgdir(3)]
  show ?thesis by (simp add: upte_def)
qed

text \<open>page\_remove erases the translation of one page, drops one reference of the frame that was
  mapped there (freeing it when it was the last) and changes no other translation.\<close>

theorem page_remove_correct:
  assumes "free_pages s fl" "wf_pgdir s fl d" "wf_mapped s fl d va" "va < UTOP"
  shows "\<exists>s' fl'. page_remove (Some d) va s = (Inr (), s') \<and> free_pages s' fl' \<and> wf_pgdir s' fl' d
    \<and> (\<forall>a. a < UTOP \<longrightarrow> upte s' d a = (if PGNUM a = PGNUM va then 0 else upte s d a))
    \<and> (upte s d va \<noteq> 0 \<longrightarrow>
         pp_ref (pages s' (PGNUM (upte s d va))) = pp_ref (pages s (PGNUM (upte s d va))) - 1
       \<and> (PGNUM (upte s d va) \<in> set fl' \<longleftrightarrow> pp_ref (pages s (PGNUM (upte s d va))) = 1))"
proof -
  have va: "PDX va < 955" using assms(4) by (rule PDX_below_UTOP)
  let ?s = "remove_post d va s" and ?fl = "remove_free d va s fl"
  have "upte s d va \<noteq> 0 \<longrightarrow> PGNUM (upte s d va) \<notin> set fl"
    using assms(3) by (simp add: wf_mapped_def data_page_def)
  then have "upte s d va \<noteq> 0 \<longrightarrow>
       pp_ref (pages ?s (PGNUM (upte s d va))) = pp_ref (pages s (PGNUM (upte s d va))) - 1
     \<and> (PGNUM (upte s d va) \<in> set ?fl \<longleftrightarrow> pp_ref (pages s (PGNUM (upte s d va))) = 1)"
    by (simp add: remove_post_def remove_free_def)
  then show ?thesis
    using page_remove_exec [OF assms(1,2,3)] free_pages_remove [OF assms(1,3)]
      wf_pgdir_remove [OF assms(2,3) va] upte_remove [OF assms(2) va] PDX_below_UTOP by blast
qed

theorem page_remove_correct_witness:
  "\<exists>s'. page_remove (Some 0) 0x800000 pages_kst = (Inr (), s') \<and> upte s' 0 0x800000 = 0"
  using page_remove_correct [OF pages_kst_rep pages_kst_pgdir(1,2), of "0x800000"] by auto

text \<open>C9: for a range that lies below UTOP, user\_mem\_check accepts exactly when every byte lies in
  a page mapped with all the wanted permissions, and otherwise reports the first byte that does
  not. The check per page is equivalent to the check per byte.\<close>

theorem user_mem_check_correct:
  assumes "wf_pgdir s fl d" "0 < len" "unat va + unat len \<le> unat UTOP"
  shows "user_mem_check (Some d) va len perm s = (case first_bad s d perm va (unat len) of
      None \<Rightarrow> (Inr 0, s)
    | Some k \<Rightarrow> (Inr (err E_FAULT), s\<lparr>user_mem_check_addr := va + of_nat k\<rparr>))"
proof -
  let ?h = "(unat va + unat len + 4095) div 4096"
  have n: "0 < unat len" "unat va + unat len < 4294967296"
    using assms(2,3) by (simp_all add: unat_gt_0 word_neq_0_conv)
  have u: "unat (va + len) = unat va + unat len" using n(2) by (simp add: unat_word_ariths)
  have hi: "unat (ROUNDUP (va + len) PGSIZE) = ?h * 4096"
    using unat_ROUNDUP [of "va + len"] assms(3) u by simp
  have "?h \<le> 977920" using assms(3) by simp
  then have "\<not> ROUNDUP (va + len) PGSIZE > UTOP" using hi by (simp add: word_less_nat_alt)
  moreover have "PGNUM (ROUNDUP (va + len) PGSIZE) = ?h" using hi by (simp add: PGNUM_div)
  ultimately have scan: "user_mem_check (Some d) va len perm s =
      user_mem_scan (Some d) va perm [PGNUM va..<?h] s"
    by (simp add: user_mem_check_def)
  show ?thesis
  proof (cases "List.find (\<lambda>m. \<not> page_ok s d perm (of_nat m * PGSIZE)) [PGNUM va..<?h]")
    case None
    then show ?thesis
      using first_bad_pages [OF n(2,1) refl, of s d perm]
      by (simp only: scan user_mem_scan_exec [OF assms(1)] option.case)
  next
    case (Some m)
    then obtain k where "first_bad s d perm va (unat len) = Some k"
      "va + of_nat k = (if of_nat m * PGSIZE > va then of_nat m * PGSIZE else va)"
      using first_bad_pages [OF n(2,1) refl, of s d perm] by (simp only: option.case) blast
    then show ?thesis by (simp only: scan user_mem_scan_exec [OF assms(1)] option.case Some)
  qed
qed

theorem user_mem_check_correct_witness:
  "user_mem_check (Some 0) 0x800010 4 PTE_U pages_kst
     = (Inr (err E_FAULT), pages_kst\<lparr>user_mem_check_addr := 0x800010\<rparr>)"
proof -
  have "[0..<4] = [0, 1, 2, 3 :: nat]" by code_simp
  then show ?thesis
    using user_mem_check_correct [OF pages_kst_pgdir(1), of 4 "0x800010" PTE_U]
    by (simp add: first_bad_def page_ok_def)
qed

text \<open>The sum \<open>va + len\<close> of user\_mem\_check is a 32-bit one: a range that wraps past the end of
  the address space is accepted without a single page of it being looked at, whatever is mapped.\<close>

theorem user_mem_check_wraps:
  assumes "unat va + unat len = 2 ^ 32 + n" "n \<le> 4096" "4096 \<le> unat va"
  shows "user_mem_check pgdir va len perm s = (Inr 0, s)"
proof -
  have "unat (va + len) = n" using assms(1,2) by (simp add: unat_word_ariths)
  then have hi: "unat (ROUNDUP (va + len) PGSIZE) = (n + 4095) div 4096 * 4096"
    using unat_ROUNDUP [of "va + len"] assms(2) by simp
  have n: "(n + 4095) div 4096 \<le> 1" using assms(2) by simp
  then have "\<not> ROUNDUP (va + len) PGSIZE > UTOP" using hi by (simp add: word_less_nat_alt)
  moreover have "PGNUM (ROUNDUP (va + len) PGSIZE) \<le> PGNUM va"
    using hi n assms(3) by (simp add: PGNUM_div)
  ultimately show ?thesis by (simp add: user_mem_check_def)
qed

theorem user_mem_check_wraps_witness:
  "user_mem_check (Some 0) 0xF0000000 0x10000001 PTE_U pages_kst = (Inr 0, pages_kst)"
  by (rule user_mem_check_wraps [where n = 1]) simp_all

end
