(* ===== verification/Spinlock.thy ===== *)
theory Spinlock
  imports Kstate
begin

text \<open>
  The big kernel lock (kern/spinlock.c, kern/spinlock.h), twice. \<open>lock_kernel\<close> and
  \<open>unlock_kernel\<close> are the operations as one CPU performs them inside a kernel call, over the
  kernel state. \<open>cpu_step\<close> is the same code one statement at a time, so that the statements of
  several CPUs can interleave; mutual exclusion is proved about that.
\<close>

section \<open>The operations\<close>

definition holding :: "nat \<Rightarrow> spinlock \<Rightarrow> bool" where
  "holding c lk \<longleftrightarrow> locked lk \<noteq> 0 \<and> lk_cpu lk = Some c"

definition spin_initlock :: "spinlock \<Rightarrow> spinlock" where
  "spin_initlock lk = lk\<lparr>locked := 0, lk_cpu := None\<rparr>"

text \<open>
  A CPU that finds the lock taken by another one loops on xchg: within this call nothing
  changes the lock, so the loop is the exit \<open>Spin\<close>. What the other CPUs do meanwhile is
  \<open>cpu_step\<close> below.
\<close>

definition lock_kernel :: "unit K" where
  "lock_kernel = bnd (gets (\<lambda>s. (cpunum s, klock s))) (\<lambda>(c, lk).
     if holding c lk then panic ''CPU %d cannot acquire %s: already holding''
     else if locked lk \<noteq> 0 then exit_with Spin
     else modify (\<lambda>s. s\<lparr>klock := lk\<lparr>locked := 1, lk_cpu := Some c\<rparr>\<rparr>))"

definition unlock_kernel :: "unit K" where
  "unlock_kernel = bnd (gets (\<lambda>s. (cpunum s, klock s))) (\<lambda>(c, lk).
     if \<not> holding c lk
     then bnd (deref (lk_cpu lk)) (\<lambda>owner.
          thn (cprintf ''CPU %d cannot release %s: held by CPU %d'' [of_nat c, of_nat owner])
          (panic ''spin_unlock''))
     else modify (\<lambda>s. s\<lparr>klock := lk\<lparr>lk_cpu := None, locked := 0\<rparr>\<rparr>))"

abbreviation lock_free :: "kst \<Rightarrow> bool" where
  "lock_free s \<equiv> locked (klock s) = 0"

abbreviation lock_held :: "kst \<Rightarrow> bool" where
  "lock_held s \<equiv> holding (cpunum s) (klock s)"

lemma lock_kernel_exec:
  "lock_free s \<Longrightarrow> lock_kernel s = (Inr (), s\<lparr>klock := \<lparr>locked = 1, lk_cpu = Some (cpunum s)\<rparr>\<rparr>)"
  by (simp add: lock_kernel_def holding_def)

lemma unlock_kernel_exec:
  "lock_held s \<Longrightarrow> unlock_kernel s = (Inr (), s\<lparr>klock := \<lparr>locked = 0, lk_cpu = None\<rparr>\<rparr>)"
  by (simp add: unlock_kernel_def)

section \<open>The statements of several CPUs, interleaved\<close>

text \<open>Where a CPU is in a critical section guarded by spin\_lock and spin\_unlock.\<close>

datatype lock_pc =
  Outside      \<comment> \<open>about to call spin\_lock\<close>
| Spinning     \<comment> \<open>at the xchg of spin\_lock\<close>
| Acquired     \<comment> \<open>the xchg returned 0; about to record the owner\<close>
| Critical     \<comment> \<open>in the critical section, about to call spin\_unlock\<close>
| Releasing    \<comment> \<open>owner cleared; at the xchg of spin\_unlock\<close>
| Panicked

record lock_sys =
  lck :: spinlock
  cpu_at :: "nat \<Rightarrow> lock_pc"

definition cpu_step :: "nat \<Rightarrow> lock_sys \<Rightarrow> lock_sys" where
  "cpu_step c st = (let lk = lck st in case cpu_at st c of
     Outside \<Rightarrow> st\<lparr>cpu_at := (cpu_at st)(c := if holding c lk then Panicked else Spinning)\<rparr>
   | Spinning \<Rightarrow> st\<lparr>lck := lk\<lparr>locked := 1\<rparr>,
                   cpu_at := (cpu_at st)(c := if locked lk \<noteq> 0 then Spinning else Acquired)\<rparr>
   | Acquired \<Rightarrow> st\<lparr>lck := lk\<lparr>lk_cpu := Some c\<rparr>, cpu_at := (cpu_at st)(c := Critical)\<rparr>
   | Critical \<Rightarrow> if \<not> holding c lk then st\<lparr>cpu_at := (cpu_at st)(c := Panicked)\<rparr>
                 else st\<lparr>lck := lk\<lparr>lk_cpu := None\<rparr>, cpu_at := (cpu_at st)(c := Releasing)\<rparr>
   | Releasing \<Rightarrow> st\<lparr>lck := lk\<lparr>locked := 0\<rparr>, cpu_at := (cpu_at st)(c := Outside)\<rparr>
   | Panicked \<Rightarrow> st)"

definition lock_start :: lock_sys where
  "lock_start = \<lparr>lck = \<lparr>locked = 0, lk_cpu = None\<rparr>, cpu_at = (\<lambda>_. Outside)\<rparr>"

inductive lock_reach :: "lock_sys \<Rightarrow> bool" where
  start: "lock_reach lock_start"
| step: "lock_reach st \<Longrightarrow> lock_reach (cpu_step c st)"

definition owns :: "lock_sys \<Rightarrow> nat \<Rightarrow> bool" where
  "owns st c \<longleftrightarrow> cpu_at st c = Acquired \<or> cpu_at st c = Critical \<or> cpu_at st c = Releasing"

definition lock_inv :: "lock_sys \<Rightarrow> bool" where
  "lock_inv st \<longleftrightarrow> (\<forall>c d. owns st c \<longrightarrow> owns st d \<longrightarrow> c = d)
     \<and> (locked (lck st) \<noteq> 0 \<longleftrightarrow> (\<exists>c. owns st c))
     \<and> (\<forall>c. lk_cpu (lck st) = Some c \<longleftrightarrow> cpu_at st c = Critical)
     \<and> (\<forall>c. cpu_at st c \<noteq> Panicked)"

lemma lock_inv_start: "lock_inv lock_start"
  by (simp add: lock_inv_def lock_start_def owns_def)

lemma lock_inv_step:
  assumes "lock_inv st"
  shows "lock_inv (cpu_step c st)"
proof -
  have one: "owns st a \<Longrightarrow> owns st b \<Longrightarrow> a = b"
    and lk: "locked (lck st) \<noteq> 0 \<longleftrightarrow> (\<exists>c. owns st c)"
    and cpu: "lk_cpu (lck st) = Some a \<longleftrightarrow> cpu_at st a = Critical"
    and np: "cpu_at st a \<noteq> Panicked" for a b
    using assms by (auto simp: lock_inv_def)
  have crit: "cpu_at st a = Critical \<Longrightarrow> owns st a" for a by (simp add: owns_def)
  show ?thesis
  proof (cases "cpu_at st c")
    case Outside
    then have "\<not> holding c (lck st)" using cpu [of c] by (simp add: holding_def)
    with Outside show ?thesis
      using one lk cpu np unfolding lock_inv_def owns_def cpu_step_def
      by (simp add: Let_def) (metis lock_pc.distinct)
  next
    case Spinning
    then show ?thesis
      using one lk cpu np unfolding lock_inv_def owns_def cpu_step_def
      by (simp add: Let_def) (metis lock_pc.distinct)
  next
    case Acquired
    then show ?thesis
      using one lk cpu np unfolding lock_inv_def owns_def cpu_step_def
      by (simp add: Let_def) (metis lock_pc.distinct)
  next
    case Critical
    then have "holding c (lck st)" using cpu [of c] lk crit by (auto simp: holding_def)
    with Critical show ?thesis
      using one lk cpu np unfolding lock_inv_def owns_def cpu_step_def
      by (simp add: Let_def) (metis lock_pc.distinct)
  next
    case Releasing
    then show ?thesis
      using one lk cpu np unfolding lock_inv_def owns_def cpu_step_def
      by (simp add: Let_def) (metis lock_pc.distinct)
  next
    case Panicked
    then show ?thesis using np by blast
  qed
qed

lemma lock_inv_reach: "lock_reach st \<Longrightarrow> lock_inv st"
  by (induction rule: lock_reach.induct) (simp_all add: lock_inv_start lock_inv_step)

section \<open>Properties\<close>

text \<open>C33: however the statements of the CPUs interleave, at most one CPU is between acquiring the
  kernel lock and releasing it, the debugging owner field names exactly the CPU in the critical
  section, and neither consistency check of spin\_lock and spin\_unlock panics.\<close>

theorem kernel_lock_mutual_exclusion:
  assumes "lock_reach st"
  shows "(\<forall>c d. owns st c \<longrightarrow> owns st d \<longrightarrow> c = d)
    \<and> (\<forall>c. cpu_at st c = Critical \<longleftrightarrow> lk_cpu (lck st) = Some c) \<and> (\<forall>c. cpu_at st c \<noteq> Panicked)"
  using lock_inv_reach [OF assms] by (auto simp: lock_inv_def)

theorem kernel_lock_mutual_exclusion_witness:
  "cpu_at (cpu_step 1 (cpu_step 0 (cpu_step 0 (cpu_step 0 (cpu_step 1 lock_start))))) 1 \<noteq> Critical"
proof -
  have r: "lock_reach (cpu_step 1 (cpu_step 0 (cpu_step 0 (cpu_step 0 (cpu_step 1 lock_start)))))"
    by (intro lock_reach.intros)
  have "cpu_at (cpu_step 1 (cpu_step 0 (cpu_step 0 (cpu_step 0 (cpu_step 1 lock_start))))) 0 = Critical"
    by (simp add: cpu_step_def lock_start_def holding_def)
  then show ?thesis using kernel_lock_mutual_exclusion [OF r] unfolding owns_def by (metis zero_neq_one)
qed

text \<open>The kernel lock is never lost: while it is taken, some CPU holds it, and at most three
  statements of that CPU later it is free; and a CPU spinning on a free lock gets it with its next xchg.\<close>

theorem kernel_lock_progress:
  assumes "lock_reach st"
  shows "(locked (lck st) \<noteq> 0 \<longrightarrow>
      (\<exists>c k. owns st c \<and> k \<le> 3 \<and> locked (lck ((cpu_step c ^^ k) st)) = 0))
    \<and> (\<forall>c. cpu_at st c = Spinning \<longrightarrow> locked (lck st) = 0 \<longrightarrow> owns (cpu_step c st) c)"
proof (intro conjI impI allI)
  note inv = lock_inv_reach [OF assms]
  assume "locked (lck st) \<noteq> 0"
  then obtain c where c: "owns st c" using inv by (auto simp: lock_inv_def)
  have lk: "locked (lck st) \<noteq> 0" and hold: "cpu_at st c = Critical \<longrightarrow> holding c (lck st)"
    using inv c by (auto simp: lock_inv_def holding_def)
  consider "cpu_at st c = Acquired" | "cpu_at st c = Critical" | "cpu_at st c = Releasing"
    using c by (auto simp: owns_def)
  then have "\<exists>k. k \<le> 3 \<and> locked (lck ((cpu_step c ^^ k) st)) = 0"
  proof cases
    case 1
    then show ?thesis using lk
      by (intro exI [of _ 3]) (simp add: numeral_3_eq_3 cpu_step_def holding_def)
  next
    case 2
    then show ?thesis using lk hold
      by (intro exI [of _ 2]) (simp add: numeral_2_eq_2 cpu_step_def)
  next
    case 3
    then show ?thesis by (intro exI [of _ 1]) (simp add: cpu_step_def)
  qed
  with c show "\<exists>c k. owns st c \<and> k \<le> 3 \<and> locked (lck ((cpu_step c ^^ k) st)) = 0" by blast
next
  fix c assume "cpu_at st c = Spinning" "locked (lck st) = 0"
  then show "owns (cpu_step c st) c" by (simp add: cpu_step_def owns_def)
qed

theorem kernel_lock_progress_witness: "owns (cpu_step 2 (cpu_step 2 lock_start)) 2"
proof -
  have "lock_reach (cpu_step 2 lock_start)" by (intro lock_reach.intros)
  moreover have "cpu_at (cpu_step 2 lock_start) 2 = Spinning" "locked (lck (cpu_step 2 lock_start)) = 0"
    by (simp_all add: cpu_step_def lock_start_def holding_def)
  ultimately show ?thesis using kernel_lock_progress by blast
qed

end
