(* ===== verification/EnvTable.thy ===== *)
theory EnvTable
  imports PageTable Spinlock
begin

text \<open>
  The environment table of kern/env.c: lookup of ids (envid2env), initialisation, allocation
  with generation numbers, loading of a program, and the switch to user mode (env\_run). The
  recursive pair env\_free / env\_destroy needs the scheduler and is in EnvFree.

  A function that returns a code and stores a result through a pointer gives \<open>Inl code\<close> on
  error and \<open>Inr result\<close> on success.
\<close>

section \<open>Looking up ids\<close>

definition envid2env :: "u32 \<Rightarrow> bool \<Rightarrow> (u32 + nat option) K" where
  "envid2env envid checkperm =
     (if envid = 0 then bnd (gets curenv) (\<lambda>c. ret (Inr c))
      else let e = ENVX envid in
        bnd (gets (\<lambda>s. envs s e)) (\<lambda>env.
        if env_status env = ENV_FREE \<or> env_id env \<noteq> envid then ret (Inl (err E_BAD_ENV))
        else bnd (gets curenv) (\<lambda>cur.
          if checkperm \<and> cur \<noteq> Some e
          then bnd (deref cur) (\<lambda>c. bnd (gets (\<lambda>s. env_id (envs s c))) (\<lambda>cid.
                 if env_parent_id env \<noteq> cid then ret (Inl (err E_BAD_ENV)) else ret (Inr (Some e))))
          else ret (Inr (Some e)))))"

section \<open>The free list and initialisation\<close>

definition env_push :: "nat \<Rightarrow> kst \<Rightarrow> kst" where
  "env_push e s = (upd_env e (\<lambda>v. v\<lparr>env_link := env_free_list s\<rparr>) s)\<lparr>env_free_list := Some e\<rparr>"

definition env_pop :: "nat \<Rightarrow> kst \<Rightarrow> kst" where
  "env_pop e s = s\<lparr>env_free_list := env_link (envs s e)\<rparr>"

abbreviation env_links :: "kst \<Rightarrow> nat \<Rightarrow> nat option" where
  "env_links s e \<equiv> env_link (envs s e)"

interpretation efl: free_list env_free_list env_links env_push env_pop
  by unfold_locales (auto simp: env_push_def env_pop_def upd_env_def)

definition env_init_one :: "nat \<Rightarrow> kst \<Rightarrow> kst" where
  "env_init_one i = upd_env i (\<lambda>v. v\<lparr>env_id := 0, env_status := ENV_FREE, env_link := Some (i + 1)\<rparr>)"

text \<open>The per-CPU part (segment registers) has no effect on this state.\<close>

definition env_init :: "unit K" where
  "env_init = modify (\<lambda>s.
     (upd_env (NENV - 1) (\<lambda>v. v\<lparr>env_link := None\<rparr>) (fold env_init_one [0..<NENV] s))
     \<lparr>env_free_list := Some 0\<rparr>)"

section \<open>Allocation\<close>

definition copy_frame :: "nat \<Rightarrow> nat \<Rightarrow> unit K" where
  "copy_frame dst src = modify (\<lambda>s. s\<lparr>pmem := (pmem s)(dst :=
     (\<lambda>i. if i < 1024 then pmem s src i else pmem s dst i))\<rparr>)"

definition env_setup_vm :: "nat \<Rightarrow> u32 K" where
  "env_setup_vm e = bnd (page_alloc ALLOC_ZERO) (\<lambda>pg. case pg of
       None \<Rightarrow> ret (err E_NO_MEM)
     | Some p \<Rightarrow> bnd (page2kva p) (\<lambda>f.
         thn (modify (upd_env e (\<lambda>v. v\<lparr>env_pgdir := Some f\<rparr>)))
         (bnd (gets kern_pgdir) (\<lambda>kpd.
         thn (copy_frame f kpd)
         (thn (page_incref p)
         (bnd (PADDR (Some f)) (\<lambda>pa.
         thn (store_word f (PDX UVPT) (pa OR PTE_P OR PTE_U))
         (ret 0))))))))"

definition ENVGENSHIFT :: nat where [simp]: "ENVGENSHIFT = 12"

definition next_generation :: "u32 \<Rightarrow> u32" where
  "next_generation old = (let generation = (old + push_bit ENVGENSHIFT 1) AND NOT (of_nat (NENV - 1))
     in if generation \<le>s 0 then push_bit ENVGENSHIFT 1 else generation)"

definition next_env_id :: "nat \<Rightarrow> u32 \<Rightarrow> u32" where
  "next_env_id e old = next_generation old OR of_nat e"

text \<open>The register state a new environment starts with.\<close>

definition user_tf :: Trapframe where
  "user_tf = zero_tf\<lparr>tf_ds := GD_UD OR 3, tf_es := GD_UD OR 3, tf_ss := GD_UD OR 3,
     tf_esp := USTACKTOP, tf_cs := GD_UT OR 3, tf_eflags := FL_IF\<rparr>"

definition init_env :: "nat \<Rightarrow> u32 \<Rightarrow> Env \<Rightarrow> Env" where
  "init_env e parent_id v = v\<lparr>env_id := next_env_id e (env_id v), env_parent_id := parent_id,
     env_type := ENV_TYPE_USER, env_status := ENV_RUNNABLE, env_runs := 0, env_tf := user_tf,
     env_pgfault_upcall := 0, env_ipc_recving := False, env_sleep_until := 0,
     env_priority := ENV_PRIORITY_DEFAULT, env_wait_ticks := 0\<rparr>"

definition env_alloc :: "u32 \<Rightarrow> (u32 + nat) K" where
  "env_alloc parent_id = bnd (gets env_free_list) (\<lambda>fl. case fl of
       None \<Rightarrow> ret (Inl (err E_NO_FREE_ENV))
     | Some e \<Rightarrow> bnd (env_setup_vm e) (\<lambda>r.
         if r <s 0 then ret (Inl r)
         else thn (modify (upd_env e (init_env e parent_id)))
             (thn (modify (env_pop e))
             (bnd (gets (\<lambda>s. (cur_id s, env_id (envs s e)))) (\<lambda>(cid, eid).
             thn (cprintf ''[%08x] new env %08x\<newline>'' [cid, eid])
             (ret (Inr e)))))))"

section \<open>Loading a program\<close>

text \<open>
  The ELF image is the bytes the linker put in the kernel, read little endian at the offsets
  of struct Elf and struct Proghdr (inc/elf.h). The stores of the loader through the new
  address space are the events \<open>UserClear\<close> and \<open>UserCopy\<close> (destination, offset in the image,
  length).
\<close>

type_synonym image = "nat \<Rightarrow> u8"

definition rd16 :: "image \<Rightarrow> nat \<Rightarrow> u16" where
  "rd16 b k = ucast (b k) OR push_bit 8 (ucast (b (k + 1)))"

definition rd32 :: "image \<Rightarrow> nat \<Rightarrow> u32" where
  "rd32 b k = ucast (rd16 b k) OR push_bit 16 (ucast (rd16 b (k + 2)))"

definition ELF_MAGIC :: u32 where "ELF_MAGIC = 0x464C457F"
definition ELF_PROG_LOAD :: u32 where "ELF_PROG_LOAD = 1"

record Proghdr =
  p_type :: u32
  p_offset :: u32
  p_va :: u32
  p_filesz :: u32
  p_memsz :: u32

record Elf =
  e_magic :: u32
  e_entry :: u32
  e_phoff :: u32
  e_phnum :: u16

definition elf_header :: "image \<Rightarrow> Elf" where
  "elf_header b = \<lparr>e_magic = rd32 b 0, e_entry = rd32 b 24, e_phoff = rd32 b 28, e_phnum = rd16 b 44\<rparr>"

definition prog_header :: "image \<Rightarrow> nat \<Rightarrow> Proghdr" where
  "prog_header b k = \<lparr>p_type = rd32 b k, p_offset = rd32 b (k + 4), p_va = rd32 b (k + 8),
     p_filesz = rd32 b (k + 16), p_memsz = rd32 b (k + 20)\<rparr>"

definition region_page :: "nat \<Rightarrow> nat \<Rightarrow> unit K" where
  "region_page e n = bnd (page_alloc 0) (\<lambda>pg. case pg of
       None \<Rightarrow> panic ''region_alloc: could not alloc page\<newline>''
     | Some p \<Rightarrow> bnd (gets (\<lambda>s. env_pgdir (envs s e))) (\<lambda>d.
         bnd (page_insert d p (of_nat n * PGSIZE) (PTE_U OR PTE_W)) (\<lambda>r.
         if r \<noteq> 0 then panic ''region_alloc: page_insert falied\<newline>'' else ret ())))"

definition region_alloc :: "nat \<Rightarrow> u32 \<Rightarrow> u32 \<Rightarrow> unit K" where
  "region_alloc e va len =
     (let va_lo = ROUNDDOWN va PGSIZE; va_hi = ROUNDUP (va + len) PGSIZE in
      if va_hi > UTOP then panic ''region_alloc: cannot map in high va\<newline>''
      else for_each [PGNUM va_lo ..< PGNUM va_hi] (region_page e))"

definition load_segment :: "nat \<Rightarrow> Proghdr \<Rightarrow> unit K" where
  "load_segment e ph = whenM (p_type ph = ELF_PROG_LOAD)
     (thn (region_alloc e (p_va ph) (p_memsz ph))
     (thn (emit (UserClear (p_va ph) (p_memsz ph)))
     (emit (UserCopy (p_va ph) (p_offset ph) (p_filesz ph)))))"

definition load_icode :: "nat \<Rightarrow> image \<Rightarrow> unit K" where
  "load_icode e binary = (let elf = elf_header binary in
     if e_magic elf \<noteq> ELF_MAGIC then panic ''load_icode: not an elf file\<newline>''
     else bnd (bnd (gets (\<lambda>s. env_pgdir (envs s e))) PADDR) (\<lambda>pa.
          thn (lcr3 (PGNUM pa))
          (thn (for_each [0..<unat (e_phnum elf)]
                  (\<lambda>k. load_segment e (prog_header binary (unat (e_phoff elf) + 32 * k))))
          (thn (region_alloc e (USTACKTOP - PGSIZE) PGSIZE)
          (thn (modify (upd_env e (\<lambda>v. v\<lparr>env_tf := (env_tf v)\<lparr>tf_eip := e_entry elf\<rparr>\<rparr>)))
          (bnd (gets kern_pgdir) lcr3))))))"

definition env_create :: "image \<Rightarrow> EnvType \<Rightarrow> unit K" where
  "env_create binary type = bnd (env_alloc 0) (\<lambda>r. case r of
       Inl e \<Rightarrow> panic ''env_create: %e''
     | Inr env \<Rightarrow> thn (load_icode env binary)
                   (modify (upd_env env (\<lambda>v. v\<lparr>env_type := type\<rparr>))))"

section \<open>Switching to user mode\<close>

definition env_load_pgdir :: "nat \<Rightarrow> unit K" where
  "env_load_pgdir e = bnd (bnd (gets (\<lambda>s. env_pgdir (envs s e))) PADDR) (\<lambda>pa. lcr3 (PGNUM pa))"

definition env_run :: "nat \<Rightarrow> 'a K" where
  "env_run e = bnd (gets curenv) (\<lambda>cur.
     thn (case cur of None \<Rightarrow> ret ()
          | Some c \<Rightarrow> modify (\<lambda>s. if env_status (envs s c) = ENV_RUNNING
              then upd_env c (\<lambda>v. v\<lparr>env_status := ENV_RUNNABLE\<rparr>) s else s))
     (thn (modify (set_curenv (Some e)))
     (thn (modify (upd_env e (\<lambda>v. v\<lparr>env_status := ENV_RUNNING\<rparr>)))
     (thn (modify (upd_env e (\<lambda>v. v\<lparr>env_runs := env_runs v + 1\<rparr>)))
     (thn (env_load_pgdir e)
     (thn unlock_kernel
     (thn (modify (\<lambda>s. upd_env e (\<lambda>v. v\<lparr>env_cpunum := cpunum s\<rparr>) s))
     (exit_with (UserMode e)))))))))"

section \<open>Ids\<close>

lemma unat_next_generation:
  assumes "unat old < 2147483648"
  shows "unat (next_generation old) = (if unat old div 1024 * 1024 + 4096 < 2147483648 
      then unat old div 1024 * 1024 + 4096 else 4096)"
proof -
  have "unat (old + 4096) = unat old + 4096" using assms by (simp add: unat_word_ariths)
  then have u: "unat ((old + 4096) AND - 1024) = unat old div 1024 * 1024 + 4096" 
    using div_mult_self1 [of 1024 "unat old" 4] by (simp add: unat_and_not_1023)
  let ?g = "(old + 4096) AND - 1024"
  have "?g \<noteq> 0" using u by (auto simp del: unat_eq_zero)
  then have "?g \<le>s 0 \<longleftrightarrow> 2147483648 \<le> unat ?g" by (simp only: sle_0) blast
  moreover have "next_generation old = (if ?g \<le>s 0 then 4096 else ?g)"
    by (simp add: next_generation_def NENV_def push_bit_eq_mult)
  ultimately show ?thesis using u by (simp only: if_distrib [of unat] unat_numeral) simp
qed

text \<open>An id a slot can hold: zero before its first use, then its own index in the low bits.\<close>

definition slot_id :: "nat \<Rightarrow> u32 \<Rightarrow> bool" where
  "slot_id e w \<longleftrightarrow> unat w < 2147483648 \<and> (w = 0 \<or> ENVX w = e)"

lemma unat_next_env_id:
  assumes "e < NENV"
  shows "unat (next_env_id e old) = unat (next_generation old) + e"
proof -
  have "next_generation old AND 1023 = 0"
    by (simp add: next_generation_def NENV_def push_bit_eq_mult)
       (simp add: word_unat_eq_iff unat_and_1023 unat_and_not_1023)
  then show ?thesis
    using assms or_low_1023 [of "next_generation old" e] by (simp add: next_env_id_def NENV_def)
qed

lemma next_env_id_slot:
  assumes "e < NENV" "slot_id e old"
  shows "slot_id e (next_env_id e old)" "0 < unat (next_env_id e old)"
    "next_env_id e old \<noteq> old" "next_env_id e old \<noteq> 0"
proof -
  let ?g = "unat old div 1024 * 1024"
  have old: "unat old < 2147483648" "e < 1024" using assms by (simp_all add: slot_id_def NENV_def)
  have u: "unat (next_env_id e old) = (if ?g + 4096 < 2147483648 then ?g + 4096 else 4096) + e"
    by (simp only: unat_next_env_id [OF assms(1)] unat_next_generation [OF old(1)])
  have g: "?g mod 1024 = 0" "?g \<le> unat old" by simp_all
  have "unat (next_env_id e old)
      = (if ?g + 4096 < 2147483648 then unat old div 1024 + 4 else 4) * 1024 + e"
    using u by simp
  then have m: "unat (next_env_id e old) mod 1024 = e"
    using old(2) by (simp only: mod_mult_self3 mod_less)
  have b: "unat (next_env_id e old) < 2147483648"
  proof (cases "?g + 4096 < 2147483648")
    case True
    then have "unat old div 1024 < 2097148" by linarith
    then have "?g + 4096 \<le> 2147482624" by linarith
    then show ?thesis using u old(2) by simp
  qed (use u old(2) in simp)
  show "slot_id e (next_env_id e old)"
    using m b by (simp add: slot_id_def ENVX_def unat_and_1023)
  show pos: "0 < unat (next_env_id e old)" using u by simp
  then show "next_env_id e old \<noteq> 0" by auto
  show "next_env_id e old \<noteq> old"
  proof
    assume "next_env_id e old = old"
    then have "unat old = (if ?g + 4096 < 2147483648 then ?g + 4096 else 4096) + e" using u by simp
    then show False using old(2) by (auto split: if_splits)
  qed
qed

text \<open>The ids a slot takes in its successive uses.\<close>

lemma next_env_id_iter:
  assumes "e < NENV" "k < 524287"
  shows "unat ((next_env_id e ^^ Suc k) 0) = 4096 * (k + 1) + e"
  using assms(2)
proof (induction k)
  case 0
  then show ?case using unat_next_env_id [OF assms(1), of 0] unat_next_generation [of 0] by simp
next
  case (Suc k)
  let ?w = "(next_env_id e ^^ Suc k) 0"
  have e: "e < 1024" using assms(1) by (simp add: NENV_def)
  have w: "unat ?w = 4096 * (k + 1) + e" using Suc by simp
  then have "unat ?w div 1024 * 1024 = 4096 * (k + 1)"
    using e div_mult_self3 [of 1024 "4 * (k + 1)" e] by simp
  moreover have "unat ?w < 2147483648" using w Suc.prems e by simp
  ultimately have "unat (next_generation ?w) = 4096 * (k + 2)"
    using Suc.prems unat_next_generation [of ?w] by (simp del: funpow.simps)
  then show ?case using unat_next_env_id [OF assms(1), of ?w] by simp
qed

section \<open>The invariant of the table\<close>

text \<open>
  The free list holds exactly the free slots; every slot holds an id of its own index, and a
  slot in use a nonzero one.
\<close>

definition env_table :: "kst \<Rightarrow> nat list \<Rightarrow> bool" where
  "env_table s xs \<longleftrightarrow> list_rep (env_links s) (env_free_list s) xs \<and> set xs \<subseteq> {..<NENV}
     \<and> (\<forall>e < NENV. (e \<in> set xs \<longleftrightarrow> env_status (envs s e) = ENV_FREE)
          \<and> slot_id e (env_id (envs s e))
          \<and> (env_status (envs s e) \<noteq> ENV_FREE \<longrightarrow> env_id (envs s e) \<noteq> 0))"

lemma env_table_cong:
  "envs s' = envs s \<Longrightarrow> env_free_list s' = env_free_list s \<Longrightarrow> env_table s' xs = env_table s xs"
  by (simp add: env_table_def)

lemma env_table_frame [simp]:
  "env_table (set_curenv c s) xs = env_table s xs" "env_table (s\<lparr>trace := t\<rparr>) xs = env_table s xs"
  "env_table (s\<lparr>klock := l\<rparr>) xs = env_table s xs" "env_table (s\<lparr>stats := st\<rparr>) xs = env_table s xs"
  "env_table (s\<lparr>ticks := tk\<rparr>) xs = env_table s xs" "env_table (s\<lparr>pmem := m\<rparr>) xs = env_table s xs"
  by (simp_all add: env_table_def)

text \<open>The environment an id names, and whether the caller may act on it.\<close>

definition env_named :: "kst \<Rightarrow> u32 \<Rightarrow> nat \<Rightarrow> bool" where
  "env_named s envid e \<longleftrightarrow> e < NENV \<and> env_status (envs s e) \<noteq> ENV_FREE \<and> env_id (envs s e) = envid"

definition env_permitted :: "kst \<Rightarrow> nat \<Rightarrow> nat \<Rightarrow> bool" where
  "env_permitted s c e \<longleftrightarrow> e = c \<or> env_parent_id (envs s e) = env_id (envs s c)"

lemma env_named_slot: "env_table s xs \<Longrightarrow> env_named s envid e \<Longrightarrow> envid \<noteq> 0 \<and> ENVX envid = e"
  by (auto simp: env_table_def env_named_def slot_id_def)

lemma env_named_unique:
  "env_table s xs \<Longrightarrow> env_named s envid e \<Longrightarrow> env_named s envid f \<Longrightarrow> e = f"
  using env_named_slot by metis

lemma envid2env_exec:
  assumes "env_table s xs" "curenv s = Some c" "envid \<noteq> 0"
  shows "envid2env envid checkperm s = (Inr (if env_named s envid (ENVX envid)
        \<and> (checkperm \<longrightarrow> env_permitted s c (ENVX envid))
      then Inr (Some (ENVX envid)) else Inl (err E_BAD_ENV)), s)"
  using assms
  by (auto simp: envid2env_def env_named_def env_permitted_def bnd_def deref_def)

lemma envid2env_zero: "envid2env 0 checkperm s = (Inr (Inr (curenv s)), s)"
  by (simp add: envid2env_def)

section \<open>Initialisation and allocation\<close>

lemma env_init_fold:
  "fold env_init_one [0..<n] s = s\<lparr>envs := (\<lambda>i. if i < n
     then (envs s i)\<lparr>env_id := 0, env_status := ENV_FREE, env_link := Some (i + 1)\<rparr> else envs s i)\<rparr>"
  by (induction n) (auto simp: env_init_one_def upd_env_def fun_eq_iff)

lemma flist_upto:
  "\<lbrakk>\<And>i. m \<le> i \<Longrightarrow> i < n \<Longrightarrow> link i = (if i + 1 = n then None else Some (i + 1)); m < n\<rbrakk>
   \<Longrightarrow> flist link (Some m) [m..<n]"
proof (induction "n - m" arbitrary: m)
  case 0 then show ?case by simp
next
  case (Suc k)
  have "flist link (link m) [Suc m..<n]"
  proof (cases "Suc m = n")
    case True then show ?thesis using Suc.prems by simp
  next
    case False
    then have "flist link (Some (Suc m)) [Suc m..<n]" using Suc by (intro Suc.hyps) auto
    then show ?thesis using Suc.prems False by simp
  qed
  then show ?case using Suc.prems by (simp add: upt_conv_Cons)
qed

lemma env_init_table:
  obtains s' where "env_init s = (Inr (), s')" "env_table s' [0..<NENV]"
proof
  let ?s = "(upd_env (NENV - 1) (\<lambda>v. v\<lparr>env_link := None\<rparr>) (fold env_init_one [0..<NENV] s))
     \<lparr>env_free_list := Some 0\<rparr>"
  show "env_init s = (Inr (), ?s)" by (simp add: env_init_def)
  have "flist (env_links ?s) (Some 0) [0..<NENV]"
    by (rule flist_upto) (auto simp: env_init_fold NENV_def)
  then show "env_table ?s [0..<NENV]"
    by (auto simp: env_table_def list_rep_def env_init_fold slot_id_def)
qed

text \<open>The page directory a new environment gets, and the state after env\_setup\_vm.\<close>

definition setup_post :: "nat \<Rightarrow> nat \<Rightarrow> kst \<Rightarrow> kst" where
  "setup_post e f s =
     (let s1 = upd_env e (\<lambda>v. v\<lparr>env_pgdir := Some f\<rparr>) (page_alloc_post ALLOC_ZERO f s);
          s2 = upd_page f (\<lambda>p. p\<lparr>pp_ref := pp_ref p + 1\<rparr>) s1
      in s2\<lparr>pmem := (pmem s)(f := (\<lambda>i. if i = PDX UVPT then page2pa f OR PTE_P OR PTE_U
             else if i < 1024 then pmem s (kern_pgdir s) i else 0))\<rparr>)"

lemma env_setup_vm_exec:
  assumes "free_pages s (f # fs)" "kern_pgdir s \<noteq> f"
  shows "env_setup_vm e s = (Inr 0, setup_post e f s)"
proof -
  have f: "f < npages s" "npages s \<le> 2 ^ 20" using assms(1) by (auto simp: free_pages_def)
  have kva: "page2kva f (page_alloc_post 1 f s) = (Inr f, page_alloc_post 1 f s)"
    using page2kva_exec [of f "page_alloc_post 1 f s"] f by simp
  have pa: "page_alloc 1 s = (Inr (Some f), page_alloc_post 1 f s)"
    using page_alloc_exec [OF assms(1), of 1] .
  have uvpt: "PDX 0xEF400000 = 957" by (simp add: PDX_div PGNUM_div)
  show ?thesis
    using assms(2) kva pa
    by (simp add: env_setup_vm_def bnd_def thn_def copy_frame_def page_incref_def setup_post_def uvpt)
       (rule kst.equality, simp_all add: upd_page_def fun_eq_iff uvpt)
qed

lemma env_setup_vm_no_memory: "free_pages s [] \<Longrightarrow> env_setup_vm e s = (Inr (err E_NO_MEM), s)"
  by (simp add: env_setup_vm_def page_alloc_empty bnd_def)

lemma setup_post_simps [simp]:
  "npages (setup_post e f s) = npages s" "curenv (setup_post e f s) = curenv s"
  "kern_pgdir (setup_post e f s) = kern_pgdir s" "env_free_list (setup_post e f s) = env_free_list s"
  "envs (setup_post e f s) = (envs s)(e := (envs s e)\<lparr>env_pgdir := Some f\<rparr>)"
  "trace (setup_post e f s) = trace s" "ticks (setup_post e f s) = ticks s"
  "stats (setup_post e f s) = stats s" "cpus (setup_post e f s) = cpus s"
  "cpunum (setup_post e f s) = cpunum s" "klock (setup_post e f s) = klock s"
  "policy (setup_post e f s) = policy s"
  by (simp_all add: setup_post_def)

definition alloc_post :: "nat \<Rightarrow> nat \<Rightarrow> u32 \<Rightarrow> kst \<Rightarrow> kst" where
  "alloc_post e f parent s = (let s1 = env_pop e (upd_env e (init_env e parent) (setup_post e f s))
     in s1\<lparr>trace := Cprintf ''[%08x] new env %08x\<newline>'' [cur_id s1, env_id (envs s1 e)] # trace s1\<rparr>)"

lemma alloc_post_simps [simp]:
  "npages (alloc_post e f p s) = npages s" "curenv (alloc_post e f p s) = curenv s"
  "kern_pgdir (alloc_post e f p s) = kern_pgdir s"
  "env_free_list (alloc_post e f p s) = env_link (envs s e)"
  "envs (alloc_post e f p s) = (envs s)(e := init_env e p ((envs s e)\<lparr>env_pgdir := Some f\<rparr>))"
  "ticks (alloc_post e f p s) = ticks s" "stats (alloc_post e f p s) = stats s"
  "cpus (alloc_post e f p s) = cpus s" "cpunum (alloc_post e f p s) = cpunum s"
  "klock (alloc_post e f p s) = klock s" "policy (alloc_post e f p s) = policy s"
  "pmem (alloc_post e f p s) = pmem (setup_post e f s)"
  "pages (alloc_post e f p s) = pages (setup_post e f s)"
  "page_free_list (alloc_post e f p s) = page_free_list (setup_post e f s)"
  by (simp_all add: alloc_post_def env_pop_def init_env_def)

lemma env_alloc_exec:
  assumes "env_table s (e # es)" "free_pages s (f # fs)" "kern_pgdir s \<noteq> f"
  shows "env_alloc parent s = (Inr (Inr e), alloc_post e f parent s)"
proof -
  have "env_free_list s = Some e" using assms(1) by (simp add: env_table_def list_rep_def)
  then show ?thesis
    using env_setup_vm_exec [OF assms(2,3), of e]
    by (simp add: env_alloc_def bnd_def thn_def alloc_post_def)
qed

lemma free_pages_setup:
  assumes "free_pages s (f # fs)"
  shows "free_pages (setup_post e f s) fs"
proof -
  have "f \<notin> set fs" using assms by (simp add: free_pages_def list_rep_def)
  then have "free_pages (upd_page f (\<lambda>p. p\<lparr>pp_ref := pp_ref p + 1\<rparr>) (page_alloc_post ALLOC_ZERO f s)) fs"
    by (intro free_pages_set_ref free_pages_alloc_post assms)
  then show ?thesis
    by (subst free_pages_cong [where s = "upd_page f (\<lambda>p. p\<lparr>pp_ref := pp_ref p + 1\<rparr>)
      (page_alloc_post ALLOC_ZERO f s)"]) (simp_all add: setup_post_def)
qed

lemma free_pages_alloc:
  "free_pages s (f # fs) \<Longrightarrow> free_pages (alloc_post e f parent s) fs"
  using free_pages_setup [of s f fs e] free_pages_cong [of "alloc_post e f parent s" "setup_post e f s"]
  by simp

lemma env_table_alloc:
  assumes "env_table s (e # es)"
  shows "env_table (alloc_post e f parent s) es"
proof -
  have e: "e < NENV" "e \<notin> set es" "slot_id e (env_id (envs s e))"
    using assms by (auto simp: env_table_def list_rep_def)
  have "list_rep (env_links (env_pop e s)) (env_free_list (env_pop e s)) es"
    using assms by (intro efl.pop_rep) (simp add: env_table_def)
  then have rep: "flist (env_links s) (env_link (envs s e)) es" "distinct es"
    by (simp_all add: list_rep_def env_pop_def)
  have "flist (env_links (alloc_post e f parent s)) h es = flist (env_links s) h es" for h
    by (rule flist_cong) (use e(2) in auto)
  with rep have "list_rep (env_links (alloc_post e f parent s)) (env_free_list (alloc_post e f parent s)) es"
    by (simp add: list_rep_def)
  moreover have "env_id (init_env e parent v) = next_env_id e (env_id v)"
    "env_status (init_env e parent v) = ENV_RUNNABLE" for v
    by (simp_all add: init_env_def)
  ultimately show ?thesis
    using assms e next_env_id_slot [OF e(1,3)] unfolding env_table_def by auto
qed

text \<open>The directory of the kernel, the template of every address space: empty below UTOP.\<close>

definition wf_kern_pgdir :: "kst \<Rightarrow> nat list \<Rightarrow> bool" where
  "wf_kern_pgdir s fl \<longleftrightarrow> wf_pgdir s fl (kern_pgdir s) \<and> (\<forall>i < PDX UTOP. pmem s (kern_pgdir s) i = 0)"

lemma alloc_pmem:
  "pmem (setup_post e f s) = (pmem s)(f := (\<lambda>i. if i = 957 then page2pa f OR PTE_P OR PTE_U
     else if i < 1024 then pmem s (kern_pgdir s) i else 0))"
proof -
  have "PDX 0xEF400000 = 957" by (simp add: PDX_div PGNUM_div)
  then show ?thesis by (simp add: setup_post_def)
qed

lemma wf_pgdir_setup:
  assumes "free_pages s (f # fs)" "wf_kern_pgdir s (f # fs)"
  shows "wf_pgdir (setup_post e f s) fs f"
proof -
  have f: "f < npages s" "f < 2 ^ 20" "f \<notin> set fs"
    using assms(1) by (auto simp: free_pages_def list_rep_def)
  have k: "PGNUM (pmem s (kern_pgdir s) i) < npages s" "PGNUM (pmem s (kern_pgdir s) i) \<notin> set fs"
    if "i < 1024" "pmem s (kern_pgdir s) i \<noteq> 0" for i
    using assms(2) that by (auto simp: wf_kern_pgdir_def wf_pgdir_def)
  have self: "PGNUM (page2pa f OR 1 OR 4) = f"
    using PGNUM_entry [of f "PTE_P OR PTE_U"] f(2) by (simp add: page2pa_def or.assoc)
  have low: "i < 955 \<Longrightarrow> pmem s (kern_pgdir s) i = 0" for i
    using assms(2) by (simp add: wf_kern_pgdir_def)
  have nf: "PGNUM (pmem s (kern_pgdir s) i) \<noteq> f" if "i < 1024" "pmem s (kern_pgdir s) i \<noteq> 0" for i
    using assms(2) that by (auto simp: wf_kern_pgdir_def wf_pgdir_def)
  show ?thesis
    using f self low k nf by (auto simp: wf_pgdir_def alloc_pmem)
qed

section \<open>env\_run\<close>

text \<open>The state the processor drops to user mode in.\<close>

definition run_post :: "nat \<Rightarrow> nat \<Rightarrow> kst \<Rightarrow> kst" where
  "run_post e d s =
     (let s1 = (case curenv s of None \<Rightarrow> s | Some c \<Rightarrow>
            if env_status (envs s c) = ENV_RUNNING
            then upd_env c (\<lambda>v. v\<lparr>env_status := ENV_RUNNABLE\<rparr>) s else s);
          s2 = upd_env e (\<lambda>v. v\<lparr>env_status := ENV_RUNNING, env_runs := env_runs v + 1,
                 env_cpunum := cpunum s\<rparr>) (set_curenv (Some e) s1)
      in s2\<lparr>trace := Lcr3 d # trace s, klock := \<lparr>locked = 0, lk_cpu = None\<rparr>\<rparr>)"

lemma env_run_exec:
  assumes "env_pgdir (envs s e) = Some d" "d < 2 ^ 20" "lock_held s"
  shows "env_run e s = (Inl (UserMode e), run_post e d s)"
proof -
  let ?s1 = "case curenv s of None \<Rightarrow> s | Some c \<Rightarrow>
            if env_status (envs s c) = ENV_RUNNING
            then upd_env c (\<lambda>v. v\<lparr>env_status := ENV_RUNNABLE\<rparr>) s else s"
  have f: "env_pgdir (envs ?s1 e) = Some d" "cpunum ?s1 = cpunum s" "klock ?s1 = klock s"
    "trace ?s1 = trace s"
    using assms(1) by (auto split: option.splits)
  have "env_run e s = thn (env_load_pgdir e) (thn unlock_kernel
       (thn (modify (\<lambda>s. upd_env e (\<lambda>v. v\<lparr>env_cpunum := cpunum s\<rparr>) s)) (exit_with (UserMode e))))
       (upd_env e (\<lambda>v. v\<lparr>env_runs := env_runs v + 1\<rparr>)
         (upd_env e (\<lambda>v. v\<lparr>env_status := ENV_RUNNING\<rparr>) (set_curenv (Some e) ?s1)))"
    by (cases "curenv s") (simp_all add: env_run_def)
  also have "\<dots> = (Inl (UserMode e), run_post e d s)"
    using f assms(2,3)
    by (simp add: env_load_pgdir_def bnd_def thn_def unlock_kernel_def run_post_def)
       (simp add: upd_env_def)
  finally show ?thesis .
qed

section \<open>Properties\<close>

text \<open>Eight frames and the whole environment table, initialised.\<close>

definition boot_kst :: kst where
  "boot_kst = snd (env_init pages_kst)"

lemma boot_kst_simps [simp]:
  "npages boot_kst = 8" "pmem boot_kst = (\<lambda>_ _. 0)" "kern_pgdir boot_kst = 0" "curenv boot_kst = None"
  "cpunum boot_kst = 0" "trace boot_kst = []" "klock boot_kst = \<lparr>locked = 0, lk_cpu = None\<rparr>"
  by (simp_all add: boot_kst_def env_init_def env_init_fold)

lemma boot_kst_wf:
  "env_table boot_kst [0..<NENV]" "free_pages boot_kst [6, 5, 4, 3, 2, 1]"
  "wf_kern_pgdir boot_kst [6, 5, 4, 3, 2, 1]"
proof -
  obtain s' where "env_init pages_kst = (Inr (), s')" "env_table s' [0..<NENV]" by (rule env_init_table)
  then show "env_table boot_kst [0..<NENV]" by (simp add: boot_kst_def)
  have "free_pages boot_kst [6, 5, 4, 3, 2, 1] = free_pages pages_kst [6, 5, 4, 3, 2, 1]"
    by (rule free_pages_cong) (simp_all add: boot_kst_def env_init_def env_init_fold)
  then show "free_pages boot_kst [6, 5, 4, 3, 2, 1]" using pages_kst_rep by simp
  show "wf_kern_pgdir boot_kst [6, 5, 4, 3, 2, 1]" by (simp add: wf_kern_pgdir_def wf_pgdir_def)
qed

lemma NENV_Cons: "[0..<NENV] = 0 # [1..<NENV]"
proof -
  have "0 < NENV" by (simp add: NENV_def)
  then show ?thesis by (simp only: upt_conv_Cons One_nat_def)
qed

text \<open>env\_init makes every environment free, in an environment table whose free list is in the
  order of the array.\<close>

theorem env_init_order:
  "\<exists>s'. env_init s = (Inr (), s') \<and> env_table s' [0..<NENV]
    \<and> (\<forall>e < NENV. env_status (envs s' e) = ENV_FREE \<and> env_id (envs s' e) = 0)"
proof -
  obtain s' where s': "env_init s = (Inr (), s')" "env_table s' [0..<NENV]" by (rule env_init_table)
  moreover have "env_id (envs s' e) = 0" if "e < NENV" for e
  proof -
    have "s' = snd (env_init s)" using s'(1) by simp
    then show ?thesis using that by (simp add: env_init_def env_init_fold)
  qed
  ultimately show ?thesis by (auto simp: env_table_def)
qed

text \<open>C10: envid2env resolves the id 0 to the environment that asks, without a check, and any other id exactly
  when a live environment has it, and, when permission is asked for, exactly when that environment is
  the caller or one of its direct children; anything else is -E\_BAD\_ENV, and the state does not change.\<close>

theorem envid2env_correct:
  assumes "env_table s xs" "curenv s = Some c"
  shows "envid2env 0 checkperm s = (Inr (Inr (Some c)), s)
    \<and> (envid \<noteq> 0 \<longrightarrow>
        (envid2env envid checkperm s = (Inr (Inr (Some e)), s)
          \<longleftrightarrow> env_named s envid e \<and> (checkperm \<longrightarrow> env_permitted s c e))
      \<and> ((\<nexists>e. env_named s envid e \<and> (checkperm \<longrightarrow> env_permitted s c e))
          \<longrightarrow> envid2env envid checkperm s = (Inr (Inl (err E_BAD_ENV)), s)))"
proof (cases "envid = 0")
  case True
  then show ?thesis using assms(2) by (simp add: envid2env_zero)
next
  case nz: False
  have slot: "env_named s envid x \<Longrightarrow> ENVX envid = x" for x
    using env_named_slot [OF assms(1)] by blast
  have z: "envid2env 0 checkperm s = (Inr (Inr (Some c)), s)" using assms(2) by (simp add: envid2env_zero)
  show ?thesis
  proof (cases "env_named s envid (ENVX envid) \<and> (checkperm \<longrightarrow> env_permitted s c (ENVX envid))")
    case True
    then have "envid2env envid checkperm s = (Inr (Inr (Some (ENVX envid))), s)"
      by (simp add: envid2env_exec [OF assms nz])
    then show ?thesis using True z by simp (use slot in blast)
  next
    case False
    then have "envid2env envid checkperm s = (Inr (Inl (err E_BAD_ENV)), s)"
      by (auto simp: envid2env_exec [OF assms nz])
    then show ?thesis using False z by simp (use slot in blast)
  qed
qed

theorem envid2env_correct_witness:
  "envid2env 4096 True (set_curenv (Some 0) (alloc_post 0 6 0 boot_kst))
     = (Inr (Inr (Some 0)), set_curenv (Some 0) (alloc_post 0 6 0 boot_kst))
   \<and> envid2env 0 True (set_curenv (Some 0) (alloc_post 0 6 0 boot_kst))
     = (Inr (Inr (Some 0)), set_curenv (Some 0) (alloc_post 0 6 0 boot_kst))"
proof -
  let ?s = "set_curenv (Some 0) (alloc_post 0 6 0 boot_kst)"
  have t: "env_table ?s [1..<NENV]"
    using env_table_alloc [OF boot_kst_wf(1) [unfolded NENV_Cons]] by simp
  have "env_id (envs boot_kst 0) = 0" by (simp add: boot_kst_def env_init_def env_init_fold NENV_def)
  then have "env_id (envs ?s 0) = 4096" "env_status (envs ?s 0) = ENV_RUNNABLE"
    by (simp_all add: init_env_def next_env_id_def next_generation_def NENV_def word_sle_eq)
  then have "env_named ?s 4096 0" "env_permitted ?s 0 0"
    by (simp_all add: env_named_def env_permitted_def NENV_def)
  then show ?thesis using envid2env_correct [OF t, of 0 True 4096 0] by simp
qed

text \<open>C11: an allocated environment has an id that is positive, that carries its slot in the low bits
  and differs from the one the slot had before, so the new id resolves to it and the stale id does not.\<close>

theorem env_alloc_fresh_id:
  assumes "env_table s (e # es)" "free_pages s (f # fs)" "wf_kern_pgdir s (f # fs)"
    and run: "env_alloc parent s = (Inr (Inr e'), s')"
  shows "e' = e \<and> env_table s' es \<and> free_pages s' fs
    \<and> ENVX (env_id (envs s' e)) = e \<and> 0 <s env_id (envs s' e)
    \<and> envid2env (env_id (envs s' e)) False s' = (Inr (Inr (Some e)), s')
    \<and> (env_id (envs s e) \<noteq> 0 \<longrightarrow>
         envid2env (env_id (envs s e)) False s' = (Inr (Inl (err E_BAD_ENV)), s'))"
proof -
  have k: "kern_pgdir s \<noteq> f" using assms(3) by (auto simp: wf_kern_pgdir_def wf_pgdir_def)
  have r: "e' = e" "s' = alloc_post e f parent s"
    using run env_alloc_exec [OF assms(1,2) k, of parent] by auto
  have e: "e < NENV" "slot_id e (env_id (envs s e))" using assms(1) by (auto simp: env_table_def)
  note id = next_env_id_slot [OF e]
  have new: "env_id (envs s' e) = next_env_id e (env_id (envs s e))" "env_status (envs s' e) = ENV_RUNNABLE"
    using r by (simp_all add: init_env_def)
  have "0 <s env_id (envs s' e)"
    using id(1,4) new(1) by (simp add: slot_id_def word_sless_eq)
       (metis linorder_not_le sle_0 signed.not_le signed.less_le)
  moreover have "ENVX (env_id (envs s' e)) = e" using id(1,4) new(1) by (simp add: slot_id_def)
  moreover have "env_id (envs s e) \<noteq> 0 \<longrightarrow> ENVX (env_id (envs s e)) = e"
    using e(2) unfolding slot_id_def by blast
  ultimately show ?thesis
    using r env_table_alloc [OF assms(1)] free_pages_alloc [OF assms(2)] id(3,4) new
    by (auto simp: envid2env_def bnd_def)
qed

theorem env_alloc_fresh_id_witness:
  "ENVX (env_id (envs (snd (env_alloc 0 boot_kst)) 0)) = 0"
proof -
  have "env_alloc 0 boot_kst = (Inr (Inr 0), alloc_post 0 6 0 boot_kst)"
    by (rule env_alloc_exec [OF boot_kst_wf(1) [unfolded NENV_Cons] boot_kst_wf(2)]) simp
  from env_alloc_fresh_id [OF boot_kst_wf(1) [unfolded NENV_Cons] boot_kst_wf(2,3) this] this
  show ?thesis by simp
qed

text \<open>env\_alloc fails without touching the state: -E\_NO\_FREE\_ENV when every environment is in use,
  -E\_NO\_MEM when one is free but no frame is left for its page directory.\<close>

theorem env_alloc_failure:
  assumes "env_table s es" "free_pages s fs"
  shows "(es = [] \<longrightarrow> env_alloc parent s = (Inr (Inl (err E_NO_FREE_ENV)), s))
    \<and> (es \<noteq> [] \<longrightarrow> fs = [] \<longrightarrow> env_alloc parent s = (Inr (Inl (err E_NO_MEM)), s))"
proof (cases es)
  case Nil
  then show ?thesis using assms(1) by (simp add: env_table_def list_rep_def env_alloc_def)
next
  case (Cons e es')
  then have "env_free_list s = Some e" using assms(1) by (simp add: env_table_def list_rep_def)
  then show ?thesis
    using env_setup_vm_no_memory [of s e] assms(2) Cons by (auto simp: env_alloc_def bnd_def)
qed

theorem env_alloc_failure_witness:
  "env_alloc 0 (boot_kst\<lparr>page_free_list := None, pages := (\<lambda>_. \<lparr>pp_link = None, pp_ref = 1\<rparr>)\<rparr>)
     = (Inr (Inl (err E_NO_MEM)),
        boot_kst\<lparr>page_free_list := None, pages := (\<lambda>_. \<lparr>pp_link = None, pp_ref = 1\<rparr>)\<rparr>)"
proof -
  let ?s = "boot_kst\<lparr>page_free_list := None, pages := (\<lambda>_. \<lparr>pp_link = None, pp_ref = 1\<rparr>)\<rparr>"
  have "env_table ?s (0 # [1..<NENV])"
    using boot_kst_wf(1) env_table_cong [of ?s boot_kst] by (simp add: NENV_Cons)
  moreover have "free_pages ?s []" by (simp add: free_pages_def list_rep_def)
  ultimately show ?thesis using env_alloc_failure [of ?s "0 # [1..<NENV]" "[]" 0] by simp
qed

text \<open>C12: the address space of a new environment is a well-formed directory of its own frame, with one
  reference: nothing is mapped below UTOP, UVPT maps the directory itself (readable by the user, not
  writable), and every other entry is the kernel's.\<close>

theorem env_alloc_address_space:
  assumes "env_table s (e # es)" "free_pages s (f # fs)" "wf_kern_pgdir s (f # fs)"
    and run: "env_alloc parent s = (Inr (Inr e'), s')"
  shows "env_pgdir (envs s' e) = Some f \<and> wf_pgdir s' fs f \<and> pp_ref (pages s' f) = 1
    \<and> (\<forall>va. va < UTOP \<longrightarrow> upte s' f va = 0)
    \<and> (\<forall>i < 1024. pmem s' f i = (if i = PDX UVPT then page2pa f OR PTE_P OR PTE_U
                            else pmem s (kern_pgdir s) i))"
proof -
  have k: "kern_pgdir s \<noteq> f" using assms(3) by (auto simp: wf_kern_pgdir_def wf_pgdir_def)
  have s': "s' = alloc_post e f parent s"
    using run env_alloc_exec [OF assms(1,2) k, of parent] by auto
  have "wf_pgdir s' fs f"
    using wf_pgdir_setup [OF assms(2,3), of e] wf_pgdir_cong [of s' "setup_post e f s"] s' by simp
  moreover have words: "pmem s' f i = (if i = 957 then page2pa f OR PTE_P OR PTE_U
      else if i < 1024 then pmem s (kern_pgdir s) i else 0)" for i
    using s' by (simp add: alloc_pmem)
  moreover have "upte s' f va = 0" if "va < UTOP" for va
    using PDX_below_UTOP [OF that] assms(3) by (simp add: upte_def words wf_kern_pgdir_def)
  moreover have "PDX UVPT = 957" by (simp add: PDX_div PGNUM_div)
  moreover have "pp_ref (pages s' f) = 1"
    using s' assms(2) by (simp add: setup_post_def free_pages_def)
  ultimately show ?thesis using s' by (auto simp: init_env_def)
qed

theorem env_alloc_address_space_witness:
  "env_pgdir (envs (snd (env_alloc 0 boot_kst)) 0) = Some 6"
proof -
  have "env_alloc 0 boot_kst = (Inr (Inr 0), alloc_post 0 6 0 boot_kst)"
    by (rule env_alloc_exec [OF boot_kst_wf(1) [unfolded NENV_Cons] boot_kst_wf(2)]) simp
  from env_alloc_address_space [OF boot_kst_wf(1) [unfolded NENV_Cons] boot_kst_wf(2,3) this] this
  show ?thesis by simp
qed

text \<open>The ids a slot takes one after the other are all different for 524287 allocations of that
  slot: only then does the generation number come back to its first value.\<close>

theorem env_id_reuse_distance:
  assumes "e < NENV"
  shows "inj_on (\<lambda>k. (next_env_id e ^^ Suc k) 0) {..<524287}
    \<and> (next_env_id e ^^ 524288) 0 = (next_env_id e ^^ 1) 0"
proof
  show "inj_on (\<lambda>k. (next_env_id e ^^ Suc k) 0) {..<524287}"
  proof (rule inj_onI)
    fix j k :: nat
    assume h: "j \<in> {..<524287}" "k \<in> {..<524287}"
      and eq: "(next_env_id e ^^ Suc j) 0 = (next_env_id e ^^ Suc k) 0"
    have "4096 * (j + 1) + e = 4096 * (k + 1) + e"
      using h next_env_id_iter [OF assms] eq by (metis lessThan_iff)
    then show "j = k" by simp
  qed
  let ?w = "(next_env_id e ^^ Suc 524286) 0"
  have e: "e < 1024" using assms by (simp add: NENV_def)
  have w: "unat ?w = 2147479552 + e" using next_env_id_iter [OF assms, of 524286] by simp
  then have "unat ?w div 1024 * 1024 = 2147479552"
    using e div_mult_self3 [of 1024 2097148 e] by simp
  moreover have "unat ?w < 2147483648" using w e by simp
  ultimately have g: "unat (next_generation ?w) = 4096"
    using unat_next_generation [of ?w] by (simp del: funpow.simps)
  have "(next_env_id e ^^ 524288) 0 = next_env_id e ?w"
    using funpow.simps(2) [of 524287 "next_env_id e"] by simp
  moreover have "unat (next_env_id e ?w) = unat (next_env_id e 0)"
    using g unat_next_env_id [OF assms] unat_next_generation [of 0] by simp
  ultimately show "(next_env_id e ^^ 524288) 0 = (next_env_id e ^^ 1) 0"
    by (simp add: word_unat_eq_iff)
qed

theorem env_id_reuse_distance_witness: "(next_env_id 5 ^^ 524288) 0 = next_env_id 5 0"
  using env_id_reuse_distance [of 5] by (simp add: NENV_def)

text \<open>env\_run never returns. It enters user mode in the given environment, which is then the
  current one, RUNNING, counted once more and on this CPU; the environment that was current goes back
  to RUNNABLE only if it was still RUNNING; the kernel lock is released.\<close>

theorem env_run_switches:
  assumes "env_pgdir (envs s e) = Some d" "d < 2 ^ 20" "lock_held s"
  shows "\<exists>s'. env_run e s = (Inl (UserMode e), s') \<and> curenv s' = Some e \<and> lock_free s'
    \<and> env_status (envs s' e) = ENV_RUNNING \<and> env_runs (envs s' e) = env_runs (envs s e) + 1
    \<and> env_cpunum (envs s' e) = cpunum s \<and> Lcr3 d \<in> set (trace s')
    \<and> (\<forall>x. x \<noteq> e \<longrightarrow> envs s' x = (if curenv s = Some x \<and> env_status (envs s x) = ENV_RUNNING
           then (envs s x)\<lparr>env_status := ENV_RUNNABLE\<rparr> else envs s x))"
  using env_run_exec [OF assms] by (auto simp: run_post_def split: option.splits)

theorem env_run_switches_witness:
  "\<exists>s'. env_run 0 ((alloc_post 0 6 0 boot_kst)\<lparr>klock := \<lparr>locked = 1, lk_cpu = Some 0\<rparr>\<rparr>) = (Inl (UserMode 0), s')
     \<and> lock_free s'"
  using env_run_switches [of "(alloc_post 0 6 0 boot_kst)\<lparr>klock := \<lparr>locked = 1, lk_cpu = Some 0\<rparr>\<rparr>" 0 6]
  by (auto simp: init_env_def holding_def)

end
