(* ===== verification/Sched.thy ===== *)
theory Sched
  imports EnvTable
begin

text \<open>
  The scheduler (kern/sched.c): the statistics, the sleep queue, both policies (round robin and
  priorities with aging) and the halt path. The policy is the field \<open>policy\<close> of the state; the C
  code fixes it when it is compiled. The contract every policy must meet (it chooses an eligible
  environment, and one whenever there is one) is the locale \<open>policy_contract\<close>, interpreted for both.
\<close>

section \<open>Statistics\<close>

definition AGING_THRESHOLD :: u32 where [simp]: "AGING_THRESHOLD = 4"
definition SCHED_HISTORY_LEN :: nat where [simp]: "SCHED_HISTORY_LEN = 16"

definition upd_stats :: "(sched_stats \<Rightarrow> sched_stats) \<Rightarrow> kst \<Rightarrow> kst" where
  "upd_stats f s = s\<lparr>stats := f (stats s)\<rparr>"

definition upd_stat :: "nat \<Rightarrow> (EnvStat \<Rightarrow> EnvStat) \<Rightarrow> sched_stats \<Rightarrow> sched_stats" where
  "upd_stat i f t = t\<lparr>sched_env_stats := (sched_env_stats t)(i := f (sched_env_stats t i))\<rparr>"

definition add_prio_ticks :: "u32 \<Rightarrow> u32 \<Rightarrow> sched_stats \<Rightarrow> sched_stats" where
  "add_prio_ticks prio delta t = (if unat prio < NPRIORITIES
     then t\<lparr>sched_prio_ticks := (sched_prio_ticks t)(unat prio := sched_prio_ticks t (unat prio) + delta)\<rparr>
     else t)"

definition account :: "u32 \<Rightarrow> sched_stats \<Rightarrow> sched_stats" where
  "account now t = (if sched_running_id t = 0 then t else
     let delta = now - sched_running_since t;
         t1 = upd_stat (ENVX (sched_running_id t)) (\<lambda>st. st\<lparr>st_cputicks := st_cputicks st + delta\<rparr>) t;
         t2 = add_prio_ticks (sched_running_prio t) delta t1
     in t2\<lparr>sched_running_id := 0\<rparr>)"

definition sched_account_cputicks :: "unit K" where
  "sched_account_cputicks = modify (\<lambda>s. upd_stats (account (ticks s)) s)"

text \<open>The entry of a recycled slot is reset; what it held is printed first.\<close>

definition reset_stat :: "u32 \<Rightarrow> EnvStat \<Rightarrow> EnvStat" where
  "reset_stat eid st = st\<lparr>st_env_id := eid, st_runs := 0, st_cputicks := 0, st_maxbonus := 0\<rparr>"

definition count_run :: "u32 \<Rightarrow> u32 \<Rightarrow> EnvStat \<Rightarrow> EnvStat" where
  "count_run prio bonus st = st\<lparr>st_runs := st_runs st + 1, st_priority := prio,
     st_maxbonus := (if bonus > st_maxbonus st then bonus else st_maxbonus st)\<rparr>"

definition add_history :: "SchedHistory \<Rightarrow> sched_stats \<Rightarrow> sched_stats" where
  "add_history h t = t\<lparr>sched_history := (sched_history t)(unat (sched_history_count t) mod SCHED_HISTORY_LEN := h),
     sched_history_count := sched_history_count t + 1\<rparr>"

definition sched_run :: "nat \<Rightarrow> u32 \<Rightarrow> 'a K" where
  "sched_run e effective = bnd (gets (\<lambda>s. envs s e)) (\<lambda>v.
     let i = ENVX (env_id v); bonus = effective - env_priority v in
     thn sched_account_cputicks
     (bnd (gets (\<lambda>s. sched_env_stats (stats s) i)) (\<lambda>st.
     thn (whenM (st_env_id st \<noteq> env_id v)
          (thn (whenM (st_env_id st \<noteq> 0 \<and> st_runs st > 0)
                 (cprintf ''  [%08x] (finalizado, slot reciclado) elegido %d veces, %d ticks de CPU, prioridad %d\<newline>''
                    [st_env_id st, st_runs st, st_cputicks st, st_priority st]))
          (modify (upd_stats (upd_stat i (reset_stat (env_id v)))))))
     (thn (modify (upd_stats (upd_stat i (count_run (env_priority v) bonus))))
     (thn (modify (\<lambda>s. upd_stats (add_history \<lparr>h_env_id = env_id v, h_tick = ticks s,
                          h_priority = env_priority v, h_effective = effective\<rparr>) s))
     (thn (modify (\<lambda>s. upd_stats (\<lambda>t. t\<lparr>sched_running_id := env_id v,
                          sched_running_prio := env_priority v, sched_running_since := ticks s\<rparr>) s))
     (env_run e)))))))"

definition print_env_stat :: "nat \<Rightarrow> unit K" where
  "print_env_stat i = bnd (gets (\<lambda>s. (sched_env_stats (stats s) i, policy s))) (\<lambda>(st, pol).
     if st_env_id st = 0 then ret ()
     else thn (cprintf ''  [%08x] elegido %d veces, %d ticks de CPU, prioridad %d''
                 [st_env_id st, st_runs st, st_cputicks st, st_priority st])
         (thn (whenM (pol = SCHED_PRIORITIES) (cprintf '' (bonus maximo de aging: %d)'' [st_maxbonus st]))
         (cprintf ''\<newline>'' [])))"

definition print_history :: "nat \<Rightarrow> unit K" where
  "print_history i = bnd (gets (\<lambda>s. (stats s, policy s))) (\<lambda>(t, pol).
     let h = sched_history t (unat (sched_history_count t - 1 - of_nat i) mod SCHED_HISTORY_LEN) in
     if pol = SCHED_PRIORITIES
     then cprintf ''  [%08x] desde el tick %d (prioridad %d, efectiva %d)\<newline>''
            [h_env_id h, h_tick h, h_priority h, h_effective h]
     else cprintf ''  [%08x] desde el tick %d (prioridad %d)\<newline>'' [h_env_id h, h_tick h, h_priority h])"

definition total_ticks :: "sched_stats \<Rightarrow> u32" where
  "total_ticks t = sum_list (map (sched_prio_ticks t) [0..<NPRIORITIES])"

definition print_prio_ticks :: "u32 \<Rightarrow> nat \<Rightarrow> unit K" where
  "print_prio_ticks attributed i = bnd (gets (\<lambda>s. sched_prio_ticks (stats s) i)) (\<lambda>n.
     if n = 0 then ret ()
     else cprintf ''  prioridad %2d: %d ticks (%d%%)\<newline>''
            [of_nat i, n, (if attributed \<noteq> 0 then n * 100 div attributed else 0)])"

definition history_shown :: "sched_stats \<Rightarrow> u32" where
  "history_shown t = (if sched_history_count t < of_nat SCHED_HISTORY_LEN
     then sched_history_count t else of_nat SCHED_HISTORY_LEN)"

definition sched_print_stats :: "unit K" where
  "sched_print_stats = thn sched_account_cputicks
     (bnd (gets (\<lambda>s. (policy s, stats s, ticks s))) (\<lambda>(pol, t, now).
     thn (cprintf ''\<newline>=== estadisticas del scheduler ===\<newline>'' [])
     (thn (case pol of SCHED_ROUND_ROBIN \<Rightarrow> cprintf ''politica: round robin preemptivo\<newline>'' []
           | SCHED_PRIORITIES \<Rightarrow>
               cprintf ''politica: prioridades con aging (umbral: %d decisiones de espera por punto, peor caso %d)\<newline>''
                 [AGING_THRESHOLD, ENV_PRIORITY_MAX * AGING_THRESHOLD])
     (thn (cprintf ''llamadas al scheduler (sched_yield): %d\<newline>'' [sched_calls t])
     (thn (cprintf ''ticks de timer desde el arranque: %d\<newline>'' [now])
     (thn (cprintf ''\<newline>ejecuciones por environment:\<newline>'' [])
     (thn (for_each [0..<NENV] print_env_stat)
     (thn (cprintf ''\<newline>ultimas %d decisiones de scheduling (de la mas reciente a la mas vieja):\<newline>'' [history_shown t])
     (thn (for_each [0..<unat (history_shown t)] print_history)
     (thn (cprintf ''\<newline>distribucion de CPU por prioridad (%d ticks atribuidos):\<newline>'' [total_ticks t])
     (thn (for_each [0..<NPRIORITIES] (print_prio_ticks (total_ticks t)))
     (cprintf ''\<newline>'' []))))))))))))"

section \<open>Sleep\<close>

definition wakes :: "u32 \<Rightarrow> Env \<Rightarrow> bool" where
  "wakes now v \<longleftrightarrow> \<not> (env_status v \<noteq> ENV_NOT_RUNNABLE \<or> env_sleep_until v = 0) \<and> env_sleep_until v \<le> now"

definition sched_wakeup_sleeping :: "unit K" where
  "sched_wakeup_sleeping = for_each [0..<NENV] (\<lambda>i.
     modify (\<lambda>s. if wakes (ticks s) (envs s i)
       then upd_env i (\<lambda>v. v\<lparr>env_sleep_until := 0, env_status := ENV_RUNNABLE\<rparr>) s else s))"

section \<open>Halting a processor\<close>

definition env_pending :: "Env \<Rightarrow> bool" where
  "env_pending v \<longleftrightarrow> env_status v = ENV_RUNNABLE \<or> env_status v = ENV_RUNNING
     \<or> env_status v = ENV_DYING \<or> (env_status v = ENV_NOT_RUNNABLE \<and> env_sleep_until v \<noteq> 0)"

definition sched_halt :: "'a K" where
  "sched_halt = bnd (gets (\<lambda>s. list_ex (\<lambda>i. env_pending (envs s i)) [0..<NENV])) (\<lambda>pending.
     if \<not> pending
     then thn (cprintf ''No runnable environments in the system!\<newline>'' [])
          (thn sched_print_stats (exit_with Monitor))
     else thn (modify (set_curenv None))
          (thn (bnd (gets kern_pgdir) lcr3)
          (thn (modify (set_cpu_status CPU_HALTED))
          (thn unlock_kernel (exit_with Idle)))))"

section \<open>Choosing an environment\<close>

definition sched_effective_priority :: "Env \<Rightarrow> u32" where
  "sched_effective_priority v =
     (let bonus = env_wait_ticks v div AGING_THRESHOLD;
          bonus' = (if bonus > ENV_PRIORITY_MAX then ENV_PRIORITY_MAX else bonus)
      in env_priority v + bonus')"

definition EFFECTIVE_PRIORITY :: "sched_policy \<Rightarrow> Env \<Rightarrow> u32" where
  "EFFECTIVE_PRIORITY pol v = (case pol of SCHED_PRIORITIES \<Rightarrow> sched_effective_priority v
     | SCHED_ROUND_ROBIN \<Rightarrow> env_priority v)"

definition scan_start :: "kst \<Rightarrow> nat" where
  "scan_start s = (case curenv s of None \<Rightarrow> 0 | Some c \<Rightarrow> ENVX (env_id (envs s c)) + 1)"

definition scan_order :: "nat \<Rightarrow> nat list" where
  "scan_order start = map (\<lambda>i. (start + i) mod NENV) [0..<NENV]"

definition runnable :: "kst \<Rightarrow> nat \<Rightarrow> bool" where
  "runnable s e \<longleftrightarrow> env_status (envs s e) = ENV_RUNNABLE"

definition cur_running :: "kst \<Rightarrow> nat option" where
  "cur_running s = (case curenv s of None \<Rightarrow> None
     | Some c \<Rightarrow> if env_status (envs s c) = ENV_RUNNING then Some c else None)"

text \<open>The scan of the priority policy keeps the first environment with the largest value so far.\<close>

definition pr_better :: "kst \<Rightarrow> nat \<Rightarrow> (nat \<times> u32) option \<Rightarrow> (nat \<times> u32) option" where
  "pr_better s e best = (let prio = sched_effective_priority (envs s e) in
     case best of None \<Rightarrow> Some (e, prio)
     | Some (b, best_prio) \<Rightarrow> if prio > best_prio then Some (e, prio) else Some (b, best_prio))"

definition pr_scan_step :: "kst \<Rightarrow> nat \<Rightarrow> (nat \<times> u32) option \<Rightarrow> (nat \<times> u32) option" where
  "pr_scan_step s e best = (if runnable s e then pr_better s e best else best)"

definition pr_best :: "kst \<Rightarrow> (nat \<times> u32) option" where
  "pr_best s = (let best = fold (pr_scan_step s) (scan_order (scan_start s)) None in
     case cur_running s of None \<Rightarrow> best | Some c \<Rightarrow> pr_better s c best)"

definition age_waiting :: "nat \<Rightarrow> kst \<Rightarrow> kst" where
  "age_waiting best s =
     (let s1 = fold (\<lambda>e s. if e \<noteq> best \<and> runnable s e
             then upd_env e (\<lambda>v. v\<lparr>env_wait_ticks := env_wait_ticks v + 1\<rparr>) s else s) [0..<NENV] s
      in upd_env best (\<lambda>v. v\<lparr>env_wait_ticks := 0\<rparr>) s1)"

definition sched_fallback :: "'a K" where
  "sched_fallback = bnd (gets (\<lambda>s. (cur_running s, policy s, s))) (\<lambda>(cur, pol, s). case cur of
       Some c \<Rightarrow> sched_run c (EFFECTIVE_PRIORITY pol (envs s c))
     | None \<Rightarrow> sched_halt)"

definition sched_yield :: "'a K" where
  "sched_yield =
     thn (modify (upd_stats (\<lambda>t. t\<lparr>sched_calls := sched_calls t + 1\<rparr>)))
     (bnd (gets (\<lambda>s. s)) (\<lambda>s. case policy s of
        SCHED_ROUND_ROBIN \<Rightarrow> (case List.find (runnable s) (scan_order (scan_start s)) of
            Some e \<Rightarrow> sched_run e (env_priority (envs s e))
          | None \<Rightarrow> sched_fallback)
      | SCHED_PRIORITIES \<Rightarrow> (case pr_best s of
            Some (best, best_prio) \<Rightarrow> thn (modify (age_waiting best)) (sched_run best best_prio)
          | None \<Rightarrow> sched_fallback)))"

section \<open>Frames and closed forms\<close>

lemma upd_stats_simps [simp]:
  "stats (upd_stats f s) = f (stats s)" "envs (upd_stats f s) = envs s" "cpus (upd_stats f s) = cpus s"
  "policy (upd_stats f s) = policy s" "npages (upd_stats f s) = npages s" "pmem (upd_stats f s) = pmem s"
  "pages (upd_stats f s) = pages s" "page_free_list (upd_stats f s) = page_free_list s"
  "kern_pgdir (upd_stats f s) = kern_pgdir s" "env_free_list (upd_stats f s) = env_free_list s"
  "cpunum (upd_stats f s) = cpunum s" "klock (upd_stats f s) = klock s" "ticks (upd_stats f s) = ticks s"
  "trace (upd_stats f s) = trace s" "curenv (upd_stats f s) = curenv s"
  by (simp_all add: upd_stats_def)

lemma sched_wakeup_exec:
  "sched_wakeup_sleeping s = (Inr (), s\<lparr>envs := (\<lambda>i. if i < NENV \<and> wakes (ticks s) (envs s i)
     then (envs s i)\<lparr>env_sleep_until := 0, env_status := ENV_RUNNABLE\<rparr> else envs s i)\<rparr>)"
proof -
  let ?g = "\<lambda>i s. if wakes (ticks s) (envs s i)
    then upd_env i (\<lambda>v. v\<lparr>env_sleep_until := 0, env_status := ENV_RUNNABLE\<rparr>) s else s"
  have "fold ?g [0..<n] s = s\<lparr>envs := (\<lambda>i. if i < n \<and> wakes (ticks s) (envs s i)
     then (envs s i)\<lparr>env_sleep_until := 0, env_status := ENV_RUNNABLE\<rparr> else envs s i)\<rparr>" for n
    by (induction n) (auto simp: upd_env_def fun_eq_iff intro!: kst.equality)
  then show ?thesis by (simp add: sched_wakeup_sleeping_def for_each_modify)
qed

lemma age_waiting_eq:
  "age_waiting best s = s\<lparr>envs := (\<lambda>i. if i = best then (envs s i)\<lparr>env_wait_ticks := 0\<rparr>
     else if i < NENV \<and> runnable s i then (envs s i)\<lparr>env_wait_ticks := env_wait_ticks (envs s i) + 1\<rparr>
     else envs s i)\<rparr>"
proof -
  let ?g = "\<lambda>e s. if e \<noteq> best \<and> runnable s e
    then upd_env e (\<lambda>v. v\<lparr>env_wait_ticks := env_wait_ticks v + 1\<rparr>) s else s"
  have "fold ?g [0..<n] s = s\<lparr>envs := (\<lambda>i. if i \<noteq> best \<and> i < n \<and> runnable s i
      then (envs s i)\<lparr>env_wait_ticks := env_wait_ticks (envs s i) + 1\<rparr> else envs s i)\<rparr>" for n
    by (induction n) (auto simp: upd_env_def fun_eq_iff runnable_def intro!: kst.equality)
  then show ?thesis
    by (auto simp: age_waiting_def upd_env_def fun_eq_iff intro!: kst.equality)
qed

text \<open>What sched\_run does before it switches: it changes the statistics and prints.\<close>

definition recycle :: "u32 \<Rightarrow> nat \<Rightarrow> kst \<Rightarrow> kst" where
  "recycle eid i s = (let st = sched_env_stats (stats s) i in
     if st_env_id st = eid then s
     else upd_stats (upd_stat i (reset_stat eid))
       (if st_env_id st \<noteq> 0 \<and> st_runs st > 0
        then s\<lparr>trace := Cprintf ''  [%08x] (finalizado, slot reciclado) elegido %d veces, %d ticks de CPU, prioridad %d\<newline>''
                [st_env_id st, st_runs st, st_cputicks st, st_priority st] # trace s\<rparr>
        else s))"

definition note_run :: "nat \<Rightarrow> u32 \<Rightarrow> kst \<Rightarrow> kst" where
  "note_run e eff s = (let v = envs s e; i = ENVX (env_id v);
      s1 = recycle (env_id v) i (upd_stats (account (ticks s)) s);
      s2 = upd_stats (upd_stat i (count_run (env_priority v) (eff - env_priority v))) s1;
      s3 = upd_stats (add_history \<lparr>h_env_id = env_id v, h_tick = ticks s,
             h_priority = env_priority v, h_effective = eff\<rparr>) s2
    in upd_stats (\<lambda>t. t\<lparr>sched_running_id := env_id v, sched_running_prio := env_priority v,
             sched_running_since := ticks s\<rparr>) s3)"

lemma recycle_simps [simp]:
  "envs (recycle d i s) = envs s" "cpus (recycle d i s) = cpus s" "ticks (recycle d i s) = ticks s"
  "policy (recycle d i s) = policy s" "npages (recycle d i s) = npages s" "pmem (recycle d i s) = pmem s"
  "pages (recycle d i s) = pages s" "page_free_list (recycle d i s) = page_free_list s"
  "kern_pgdir (recycle d i s) = kern_pgdir s" "env_free_list (recycle d i s) = env_free_list s"
  "cpunum (recycle d i s) = cpunum s" "klock (recycle d i s) = klock s" "curenv (recycle d i s) = curenv s"
  by (simp_all add: recycle_def)

lemma note_run_simps [simp]:
  "envs (note_run e p s) = envs s" "cpus (note_run e p s) = cpus s" "ticks (note_run e p s) = ticks s"
  "policy (note_run e p s) = policy s" "npages (note_run e p s) = npages s" "pmem (note_run e p s) = pmem s"
  "pages (note_run e p s) = pages s" "page_free_list (note_run e p s) = page_free_list s"
  "kern_pgdir (note_run e p s) = kern_pgdir s" "env_free_list (note_run e p s) = env_free_list s"
  "cpunum (note_run e p s) = cpunum s" "klock (note_run e p s) = klock s" "curenv (note_run e p s) = curenv s"
  by (simp_all add: note_run_def)

lemma sched_run_exec: "sched_run e eff s = env_run e (note_run e eff s)"
  by (simp add: sched_run_def sched_account_cputicks_def note_run_def recycle_def whenM_def bnd_def thn_def)

lemma noreturn_env_run: "noreturn (env_run e)"
  unfolding env_run_def by (intro noreturn_bnd noreturn_thn noreturn_exit)

lemma noreturn_sched_run: "noreturn (sched_run e p)"
  using noreturn_env_run [of e] unfolding noreturn_def sched_run_exec by blast

lemma noreturn_sched_halt: "noreturn sched_halt"
  unfolding sched_halt_def by (intro noreturn_bnd noreturn_if noreturn_thn noreturn_exit)

lemma noreturn_sched_fallback: "noreturn sched_fallback"
  unfolding sched_fallback_def
  by (intro noreturn_bnd) (auto simp: noreturn_sched_run noreturn_sched_halt split: option.splits prod.splits)

lemma noreturn_sched_yield: "noreturn sched_yield"
  unfolding sched_yield_def
  by (intro noreturn_thn noreturn_bnd)
     (auto simp: noreturn_sched_run noreturn_sched_fallback intro: noreturn_thn
       split: option.splits sched_policy.splits)

section \<open>The circular scan\<close>

text \<open>How many steps of the scan from \<open>start\<close> it takes to get to \<open>e\<close>.\<close>

definition scan_dist :: "nat \<Rightarrow> nat \<Rightarrow> nat" where
  "scan_dist start e = (e + NENV - start mod NENV) mod NENV"

lemma scan_order_length [simp]: "length (scan_order start) = NENV"
  by (simp add: scan_order_def)

lemma scan_order_nth: "i < NENV \<Longrightarrow> scan_order start ! i = (start + i) mod NENV"
  by (simp add: scan_order_def)

lemma NENV_pos [simp]: "0 < NENV" "NENV \<noteq> 0"
  by (simp_all add: NENV_def)

lemma scan_dist_less [simp]: "scan_dist start e < NENV"
  by (simp add: scan_dist_def)

lemma scan_order_dist: "e < NENV \<Longrightarrow> scan_order start ! scan_dist start e = e"
proof -
  assume e: "e < NENV"
  have s: "start mod NENV < NENV" by simp
  have "(start + (e + NENV - start mod NENV)) mod NENV = (start mod NENV + (e + NENV - start mod NENV)) mod NENV"
    by (simp add: mod_add_left_eq)
  also have "start mod NENV + (e + NENV - start mod NENV) = e + NENV" using s by linarith
  finally show ?thesis using e by (simp add: scan_order_nth scan_dist_def mod_add_right_eq)
qed

lemma scan_dist_order: "i < NENV \<Longrightarrow> scan_dist start (scan_order start ! i) = i"
proof -
  assume i: "i < NENV"
  let ?m = "start mod NENV"
  have m: "?m < NENV" by simp
  have "scan_order start ! i = (?m + i) mod NENV" using i by (simp add: scan_order_nth mod_add_left_eq)
  also have "\<dots> = (if ?m + i < NENV then ?m + i else ?m + i - NENV)"
  proof (cases "?m + i < NENV")
    case False
    then have "?m + i - NENV < NENV" "NENV \<le> ?m + i" using i m by linarith+
    then show ?thesis using False by (simp only: le_mod_geq mod_less if_False)
  qed simp
  finally show ?thesis using i m by (auto simp: scan_dist_def)
qed

lemma set_scan_order [simp]: "set (scan_order start) = {..<NENV}"
proof -
  have "scan_order start ! i < NENV" if "i < NENV" for i using that by (simp add: scan_order_nth)
  then show ?thesis by (auto simp: set_conv_nth) (metis scan_order_dist scan_dist_less)
qed

lemma find_scan_order:
  "List.find P (scan_order start) = Some e \<longleftrightarrow> e < NENV \<and> P e
     \<and> (\<forall>x < NENV. P x \<longrightarrow> scan_dist start e \<le> scan_dist start x)"
proof
  assume "List.find P (scan_order start) = Some e"
  then obtain i where i: "i < NENV" "e = scan_order start ! i" "P e" "\<forall>j < i. \<not> P (scan_order start ! j)"
    by (auto simp: find_Some_nth)
  have "scan_dist start e \<le> scan_dist start x" if "x < NENV" "P x" for x
    using i that scan_order_dist [OF that(1), of start] scan_dist_order [OF i(1), of start]
    by (metis linorder_not_less)
  moreover have "e < NENV" using i(1,2) by (simp add: scan_order_nth)
  ultimately show "e < NENV \<and> P e \<and> (\<forall>x < NENV. P x \<longrightarrow> scan_dist start e \<le> scan_dist start x)"
    using i(3) by blast
next
  assume e: "e < NENV \<and> P e \<and> (\<forall>x < NENV. P x \<longrightarrow> scan_dist start e \<le> scan_dist start x)"
  have "\<not> P (scan_order start ! j)" if "j < scan_dist start e" for j
  proof
    assume p: "P (scan_order start ! j)"
    have j: "j < NENV" using that scan_dist_less [of start e] by linarith
    then have "scan_order start ! j < NENV" by (simp add: scan_order_nth)
    with e p have "scan_dist start e \<le> j" using scan_dist_order [OF j, of start] by metis
    with that show False by simp
  qed
  then show "List.find P (scan_order start) = Some e"
    using e scan_order_dist [of e start] by (auto simp: find_Some_nth intro!: exI [of _ "scan_dist start e"])
qed

text \<open>The fold of the priority scan: the first runnable environment of maximal value.\<close>

definition eff :: "kst \<Rightarrow> nat \<Rightarrow> u32" where
  "eff s e = sched_effective_priority (envs s e)"

lemma pr_fold_None: "fold (pr_scan_step s) xs None = None \<longleftrightarrow> (\<forall>e \<in> set xs. \<not> runnable s e)"
  by (induction xs rule: rev_induct) (auto simp: pr_scan_step_def pr_better_def split: option.splits)

lemma pr_fold_Some:
  "fold (pr_scan_step s) xs None = Some (b, p) \<Longrightarrow>
     p = eff s b \<and> (\<forall>e \<in> set xs. runnable s e \<longrightarrow> eff s e \<le> p)
     \<and> (\<exists>i < length xs. xs ! i = b \<and> runnable s b \<and> (\<forall>j < i. runnable s (xs ! j) \<longrightarrow> eff s (xs ! j) < p))"
proof (induction xs arbitrary: b p rule: rev_induct)
  case Nil then show ?case by simp
next
  case (snoc x xs)
  let ?r = "fold (pr_scan_step s) xs None"
  have last: "pr_scan_step s x ?r = Some (b, p)" using snoc.prems by simp
  show ?case
  proof (cases "runnable s x")
    case False
    then have "?r = Some (b, p)" using last by (simp only: pr_scan_step_def if_False)
    from snoc.IH [OF this] False show ?thesis
      by (auto simp: nth_append)
  next
    case x: True
    show ?thesis
    proof (cases ?r)
      case None
      then have "\<forall>e \<in> set xs. \<not> runnable s e" by (simp only: pr_fold_None)
      moreover have "b = x" "p = eff s x"
        using last x None by (auto simp: pr_scan_step_def [of s x] pr_better_def eff_def)
      ultimately show ?thesis using x by (auto simp: nth_append intro!: exI [of _ "length xs"])
    next
      case (Some r)
      obtain c q where r: "r = (c, q)" by (cases r)
      have "?r = Some (c, q)" using Some r by simp
      note cq = snoc.IH [OF this]
      have ih: "q = eff s c" "\<forall>e \<in> set xs. runnable s e \<longrightarrow> eff s e \<le> q"
        "\<exists>i < length xs. xs ! i = c \<and> runnable s c \<and> (\<forall>j < i. runnable s (xs ! j) \<longrightarrow> eff s (xs ! j) < q)"
        using cq by blast+
      have res: "(b, p) = (if eff s x > q then (x, eff s x) else (c, q))"
        using last x Some r by (auto simp: pr_scan_step_def [of s x] pr_better_def eff_def split: if_splits)
      show ?thesis
      proof (cases "eff s x > q")
        case True
        then have "b = x" "p = eff s x" using res by simp_all
        then show ?thesis
          using ih(2) x True
          by (auto simp: nth_append intro!: exI [of _ "length xs"])
      next
        case False
        then have "b = c" "p = q" using res by simp_all
        then show ?thesis using ih False by (auto simp: nth_append)
      qed
    qed
  qed
qed

lemma pr_scan_Some:
  assumes "fold (pr_scan_step s) (scan_order start) None = Some (b, p)"
  shows "b < NENV" "runnable s b" "p = eff s b" "e < NENV \<Longrightarrow> runnable s e \<Longrightarrow> eff s e \<le> p"
    "e < NENV \<Longrightarrow> runnable s e \<Longrightarrow> eff s e = p \<Longrightarrow> scan_dist start b \<le> scan_dist start e"
proof -
  note f = pr_fold_Some [OF assms]
  then obtain i where i: "i < NENV" "scan_order start ! i = b" "runnable s b"
    "\<forall>j < i. runnable s (scan_order start ! j) \<longrightarrow> eff s (scan_order start ! j) < p"
    by auto
  show "b < NENV" using i(1,2) scan_order_nth by auto
  show "runnable s b" "p = eff s b" using f by auto
  show "e < NENV \<Longrightarrow> runnable s e \<Longrightarrow> eff s e \<le> p" using f set_scan_order by blast
  show "scan_dist start b \<le> scan_dist start e" if "e < NENV" "runnable s e" "eff s e = p"
    using i that scan_order_dist [OF that(1), of start] scan_dist_order [OF i(1), of start]
    by (metis less_irrefl linorder_not_less)
qed

section \<open>The contract of a policy\<close>

text \<open>An environment this CPU may run: it is ready, or it is the one that was running here.\<close>

definition eligible :: "kst \<Rightarrow> nat \<Rightarrow> bool" where
  "eligible s e \<longleftrightarrow> (e < NENV \<and> runnable s e) \<or> cur_running s = Some e"

definition run_choice :: "(nat \<times> u32) option \<Rightarrow> (nat \<Rightarrow> kst \<Rightarrow> kst) \<Rightarrow> 'a K" where
  "run_choice choice prep = (case choice of None \<Rightarrow> sched_halt
     | Some (e, p) \<Rightarrow> thn (modify (prep e)) (sched_run e p))"

text \<open>What the switch at the end of a decision relies on.\<close>

definition sched_ok :: "kst \<Rightarrow> bool" where
  "sched_ok s \<longleftrightarrow> lock_held s
     \<and> (\<forall>e. eligible s e \<longrightarrow> (\<exists>d. env_pgdir (envs s e) = Some d \<and> d < 2 ^ 20))"

text \<open>What a policy may change of an environment it does not pick: how long it has waited.\<close>

definition waits_only :: "kst \<Rightarrow> kst \<Rightarrow> bool" where
  "waits_only s s' \<longleftrightarrow> curenv s' = curenv s \<and> cpunum s' = cpunum s \<and> klock s' = klock s \<and> ticks s' = ticks s
     \<and> stats s' = stats s
     \<and> (\<forall>x. envs s' x = (envs s x)\<lparr>env_wait_ticks := env_wait_ticks (envs s' x)\<rparr>)"

locale policy_contract =
  fixes pick :: "kst \<Rightarrow> (nat \<times> u32) option"
    and prep :: "nat \<Rightarrow> kst \<Rightarrow> kst"
  assumes sound: "pick s = Some (e, p) \<Longrightarrow> eligible s e"
    and complete: "eligible s e \<Longrightarrow> pick s \<noteq> None"
    and prep: "waits_only s (prep e s)"
begin

lemma runs:
  assumes "pick s = Some (e, p)" "sched_ok s"
  shows "\<exists>s'. run_choice (pick s) prep s = (Inl (UserMode e), s') \<and> curenv s' = Some e \<and> lock_free s'
    \<and> env_status (envs s' e) = ENV_RUNNING
    \<and> (\<forall>x. x \<noteq> e \<longrightarrow> env_status (envs s' x) = (if cur_running s = Some x then ENV_RUNNABLE
          else env_status (envs s x)))"
proof -
  have el: "eligible s e" using assms(1) by (rule sound)
  let ?s = "note_run e p (prep e s)"
  note w = prep [of s e, unfolded waits_only_def]
  obtain d where d: "env_pgdir (envs s e) = Some d" "d < 2 ^ 20" using assms(2) el by (auto simp: sched_ok_def)
  have "env_pgdir (envs ?s x) = env_pgdir (envs s x)" "env_status (envs ?s x) = env_status (envs s x)" for x
    using w by (metis Env.select_convs(6,9) Env.surjective Env.update_convs(18) note_run_simps(1))+
  note frame = this
  have "lock_held ?s" using assms(2) w by (simp add: sched_ok_def)
  from env_run_exec [OF _ d(2) this] frame(1) d(1)
  have run: "run_choice (pick s) prep s = (Inl (UserMode e), run_post e d ?s)"
    using assms(1) by (simp add: run_choice_def sched_run_exec)
  have "curenv ?s = curenv s" using w by simp
  then show ?thesis
    using run frame(2) by (auto simp: run_post_def cur_running_def split: option.splits)
qed

lemma work_conserving:
  assumes "eligible s x" "sched_ok s"
  shows "\<exists>e s'. run_choice (pick s) prep s = (Inl (UserMode e), s') \<and> eligible s e"
  using runs [OF _ assms(2)] complete [OF assms(1)] sound by (metis not_None_eq surj_pair)

lemma idle: "(\<nexists>e. eligible s e) \<Longrightarrow> run_choice (pick s) prep s = sched_halt s"
  using sound by (cases "pick s") (auto simp: run_choice_def)

end

text \<open>Both policies keep the contract.\<close>

definition rr_pick :: "kst \<Rightarrow> (nat \<times> u32) option" where
  "rr_pick s = (case List.find (runnable s) (scan_order (scan_start s)) of
       Some e \<Rightarrow> Some (e, env_priority (envs s e))
     | None \<Rightarrow> (case cur_running s of
           Some c \<Rightarrow> Some (c, EFFECTIVE_PRIORITY SCHED_ROUND_ROBIN (envs s c)) | None \<Rightarrow> None))"

interpretation rr: policy_contract rr_pick "\<lambda>_ s. s"
proof
  show "eligible s e" if "rr_pick s = Some (e, p)" for s e p
    using that by (auto simp: rr_pick_def eligible_def find_scan_order split: option.splits)
  show "rr_pick s \<noteq> None" if "eligible s e" for s e
    using that by (auto simp: rr_pick_def eligible_def find_None_iff split: option.splits)
  show "waits_only s s" for s by (simp add: waits_only_def)
qed

lemma pr_best_sound: "pr_best s = Some (e, p) \<Longrightarrow> eligible s e \<and> p = eff s e"
  using pr_scan_Some(1,2,3) [of s "scan_start s"]
  by (auto simp: pr_best_def pr_better_def eligible_def eff_def split: option.splits if_splits)

lemma pr_best_complete: "eligible s e \<Longrightarrow> pr_best s \<noteq> None"
  using pr_fold_None [of s "scan_order (scan_start s)"]
  by (auto simp: pr_best_def pr_better_def eligible_def split: option.splits)

interpretation pr: policy_contract pr_best age_waiting
  by unfold_locales
     (auto simp: pr_best_sound pr_best_complete waits_only_def age_waiting_eq curenv_def)

lemma sched_yield_exec:
  "sched_yield s = (let s1 = upd_stats (\<lambda>t. t\<lparr>sched_calls := sched_calls t + 1\<rparr>) s in
     case policy s of SCHED_ROUND_ROBIN \<Rightarrow> run_choice (rr_pick s1) (\<lambda>_ s. s) s1
     | SCHED_PRIORITIES \<Rightarrow> run_choice (pr_best s1) age_waiting s1)"
proof -
  let ?s = "upd_stats (\<lambda>t. t\<lparr>sched_calls := sched_calls t + 1\<rparr>) s"
  have yield: "sched_yield s = (case policy s of
        SCHED_ROUND_ROBIN \<Rightarrow> (case List.find (runnable ?s) (scan_order (scan_start ?s)) of
            Some e \<Rightarrow> sched_run e (env_priority (envs ?s e)) | None \<Rightarrow> sched_fallback)
      | SCHED_PRIORITIES \<Rightarrow> (case pr_best ?s of
            Some (best, best_prio) \<Rightarrow> thn (modify (age_waiting best)) (sched_run best best_prio)
          | None \<Rightarrow> sched_fallback)) ?s"
    by (simp add: sched_yield_def)
  have fb: "sched_fallback ?s = (case cur_running ?s of
       Some c \<Rightarrow> sched_run c (EFFECTIVE_PRIORITY (policy s) (envs ?s c)) | None \<Rightarrow> sched_halt) ?s"
    by (simp add: sched_fallback_def split: option.splits)
  have none: "cur_running ?s = None" if "pr_best ?s = None"
    using that pr_best_complete [of ?s] by (cases "cur_running ?s") (auto simp: eligible_def)
  show ?thesis
  proof (cases "policy s")
    case SCHED_ROUND_ROBIN
    then show ?thesis
      by (simp only: yield fb sched_policy.case Let_def rr_pick_def run_choice_def split: option.split)
         (auto simp: run_choice_def)
  next
    case SCHED_PRIORITIES
    then show ?thesis using none
      by (cases "pr_best ?s") (auto simp: yield fb run_choice_def)
  qed
qed

text \<open>The bookkeeping of the call does not change what can be chosen.\<close>

lemma sched_calls_frame [simp]:
  "runnable (upd_stats f s) = runnable s" "cur_running (upd_stats f s) = cur_running s"
  "scan_start (upd_stats f s) = scan_start s" "eff (upd_stats f s) = eff s"
  "eligible (upd_stats f s) = eligible s" "sched_ok (upd_stats f s) = sched_ok s"
  unfolding runnable_def cur_running_def scan_start_def eff_def eligible_def sched_ok_def
    fun_eq_iff upd_stats_simps by simp_all

lemma rr_pick_frame [simp]: "rr_pick (upd_stats f s) = rr_pick s"
  unfolding rr_pick_def sched_calls_frame upd_stats_simps by simp

lemma pr_best_frame [simp]: "pr_best (upd_stats f s) = pr_best s"
proof -
  have "pr_better (upd_stats f s) = pr_better s"
    unfolding pr_better_def fun_eq_iff upd_stats_simps by simp
  then have "pr_scan_step (upd_stats f s) = pr_scan_step s" by (simp add: pr_scan_step_def fun_eq_iff)
  then show ?thesis
    unfolding pr_best_def \<open>pr_better (upd_stats f s) = pr_better s\<close> sched_calls_frame by simp
qed

text \<open>The choice of the configured policy, and the outcome of sched\_yield in terms of it.\<close>

definition choice :: "kst \<Rightarrow> (nat \<times> u32) option" where
  "choice s = (case policy s of SCHED_ROUND_ROBIN \<Rightarrow> rr_pick s | SCHED_PRIORITIES \<Rightarrow> pr_best s)"

lemma sched_yield_runs:
  assumes "choice s = Some (e, p)" "sched_ok s"
  shows "\<exists>s'. sched_yield s = (Inl (UserMode e), s') \<and> curenv s' = Some e \<and> lock_free s'
    \<and> env_status (envs s' e) = ENV_RUNNING
    \<and> (\<forall>x. x \<noteq> e \<longrightarrow> env_status (envs s' x) = (if cur_running s = Some x then ENV_RUNNABLE
          else env_status (envs s x)))"
proof -
  let ?s = "upd_stats (\<lambda>t. t\<lparr>sched_calls := sched_calls t + 1\<rparr>) s"
  show ?thesis
  proof (cases "policy s")
    case SCHED_ROUND_ROBIN
    then show ?thesis using rr.runs [of ?s e p, unfolded upd_stats_simps sched_calls_frame] assms
      by (simp add: sched_yield_exec choice_def)
  next
    case SCHED_PRIORITIES
    then show ?thesis using pr.runs [of ?s e p, unfolded upd_stats_simps sched_calls_frame] assms
      by (simp add: sched_yield_exec choice_def)
  qed
qed

lemma sched_yield_halts:
  assumes "choice s = None"
  shows "sched_yield s = sched_halt (upd_stats (\<lambda>t. t\<lparr>sched_calls := sched_calls t + 1\<rparr>) s)"
  using assms by (cases "policy s") (simp_all add: sched_yield_exec choice_def run_choice_def)

lemma choice_eligible: "choice s = Some (e, p) \<Longrightarrow> eligible s e"
  by (auto simp: choice_def rr.sound pr_best_sound split: sched_policy.splits)

lemma choice_complete: "eligible s e \<Longrightarrow> choice s \<noteq> None"
  by (cases "policy s") (simp_all only: choice_def sched_policy.case rr.complete pr.complete not_False_eq_True)

lemma choice_None: "choice s = None \<longleftrightarrow> (\<nexists>e. eligible s e)"
  using choice_eligible choice_complete by (metis not_None_eq surj_pair)

section \<open>Round robin: waiting is bounded\<close>

lemma scan_dist_decreases:
  assumes "c < NENV" "e < NENV" "scan_dist a c < scan_dist a e"
  shows "scan_dist (c + 1) e < scan_dist a e"
proof -
  let ?dc = "scan_dist a c" and ?de = "scan_dist a e"
  have c: "(a + ?dc) mod NENV = c" and e: "(a + ?de) mod NENV = e"
    using scan_order_dist [OF assms(1), of a] scan_order_dist [OF assms(2), of a]
    by (simp_all add: scan_order_nth)
  let ?k = "?de - ?dc - 1"
  have k: "?k < NENV" using scan_dist_less [of a e] by linarith
  have "scan_order (c + 1) ! ?k = (c + 1 + ?k) mod NENV" using k by (rule scan_order_nth)
  also have "c + 1 + ?k = c + (?de - ?dc)" using assms(3) by linarith
  also have "(c + (?de - ?dc)) mod NENV = ((a + ?dc) mod NENV + (?de - ?dc)) mod NENV" using c by simp
  also have "\<dots> = (a + ?dc + (?de - ?dc)) mod NENV" by (rule mod_add_left_eq)
  also have "a + ?dc + (?de - ?dc) = a + ?de" using assms(3) by linarith
  finally have "scan_dist (c + 1) e = ?k" using scan_dist_order [OF k, of "c + 1"] e by simp
  then show ?thesis using assms(3) by simp
qed

lemma rr_pick_runnable:
  assumes "\<exists>x < NENV. runnable s x"
  shows "rr_pick s = Some (e, p) \<longleftrightarrow> e < NENV \<and> runnable s e \<and> p = env_priority (envs s e)
     \<and> (\<forall>x < NENV. runnable s x \<longrightarrow> scan_dist (scan_start s) e \<le> scan_dist (scan_start s) x)"
proof -
  obtain b where "List.find (runnable s) (scan_order (scan_start s)) = Some b"
    using assms by (cases "List.find (runnable s) (scan_order (scan_start s))") (auto simp: find_None_iff)
  then show ?thesis
    using find_scan_order [of "runnable s" "scan_start s" e] by (auto simp: rr_pick_def)
qed

section \<open>Aging\<close>

lemma unat_effective:
  assumes "env_priority v \<le> ENV_PRIORITY_MAX"
  shows "unat (sched_effective_priority v) = unat (env_priority v) + min 15 (unat (env_wait_ticks v) div 4)"
proof -
  let ?b = "env_wait_ticks v div 4"
  have b: "unat ?b = unat (env_wait_ticks v) div 4" by (simp add: unat_div)
  have p: "unat (env_priority v) \<le> 15" using assms by (simp add: word_le_nat_alt)
  have "unat (if ?b > 15 then 15 else ?b) = min 15 (unat (env_wait_ticks v) div 4)"
    using b by (simp add: word_less_nat_alt)
  moreover have "unat (p + w :: u32) = unat p + unat w" if "unat p \<le> 15" "unat w \<le> 15" for p w
    using that by (simp add: unat_word_ariths)
  moreover have "sched_effective_priority v = env_priority v + (if ?b > 15 then 15 else ?b)"
    by (simp add: sched_effective_priority_def)
  ultimately show ?thesis using p by (metis min.cobounded1)
qed

lemma pr_best_keeps:
  assumes "pr_best s = Some (c, p)" "cur_running s = Some c" "e < NENV" "runnable s e"
  shows "eff s e < eff s c"
proof -
  obtain b q where f: "fold (pr_scan_step s) (scan_order (scan_start s)) None = Some (b, q)"
    using pr_fold_None [of s "scan_order (scan_start s)"] assms(3,4) by fastforce
  note g = pr_scan_Some [OF f]
  have "\<not> runnable s c"
    using assms(2) by (auto simp: cur_running_def runnable_def split: option.splits if_splits)
  then have "b \<noteq> c" using g(2) by blast
  then have "eff s c > q"
    using assms(1,2) f by (auto simp: pr_best_def pr_better_def eff_def split: if_splits)
  then show ?thesis using g(4) [OF assms(3,4)] by simp
qed

lemma pr_best_cur:
  assumes "cur_running s = Some c" "\<forall>y < NENV. runnable s y \<longrightarrow> eff s y < eff s c"
  shows "pr_best s = Some (c, eff s c)"
proof (cases "fold (pr_scan_step s) (scan_order (scan_start s)) None")
  case None
  then show ?thesis using assms(1) by (simp add: pr_best_def pr_better_def eff_def)
next
  case (Some r)
  obtain b q where r: "r = (b, q)" by (cases r)
  note g = pr_scan_Some [OF Some [unfolded r]]
  have "q < eff s c" using g(1,2,3) assms(2) by simp
  then show ?thesis using assms(1) Some r by (simp add: pr_best_def pr_better_def eff_def)
qed

section \<open>Statistics\<close>

text \<open>The \<open>i\<close>-th most recent decision, as sched\_print\_stats reads it.\<close>

definition history_nth :: "sched_stats \<Rightarrow> nat \<Rightarrow> SchedHistory" where
  "history_nth t i = sched_history t (unat (sched_history_count t - 1 - of_nat i) mod SCHED_HISTORY_LEN)"

lemma slot_inj:
  assumes "i < 16"
  shows "unat (c - of_nat i :: u32) mod 16 = unat c mod 16 \<longleftrightarrow> i = 0"
proof
  assume h: "unat (c - of_nat i :: u32) mod 16 = unat c mod 16"
  have "unat c mod 16 = unat ((c - of_nat i) + of_nat i) mod 16" by simp
  also have "\<dots> = (unat (c - of_nat i) + i) mod 4294967296 mod 16"
    using assms by (simp only: unat_word_ariths unat_of_nat) simp
  also have "\<dots> = (unat (c - of_nat i) + i) mod 16" by (rule mod_mod_cancel) simp
  also have "\<dots> = (unat c mod 16 + i) mod 16" using h by (metis mod_add_left_eq)
  finally have eq: "unat c mod 16 = (unat c mod 16 + i) mod 16" .
  have arith: "i = 0" if r: "r = (r + i) mod 16" "r < 16" for r :: nat
  proof (cases "r + i < 16")
    case False
    then have "(r + i) mod 16 = r + i - 16" using assms r(2) by (simp add: le_mod_geq)
    then show ?thesis using assms r False by linarith
  qed (use r in simp)
  show "i = 0" by (rule arith [OF eq]) simp
qed simp

lemma history_ring:
  "history_nth (add_history h t) 0 = h"
  "i < 15 \<Longrightarrow> history_nth (add_history h t) (Suc i) = history_nth t i"
proof -
  show "history_nth (add_history h t) 0 = h" by (simp add: history_nth_def add_history_def)
  let ?c = "sched_history_count t"
  assume i: "i < 15"
  have e: "?c - of_nat (Suc i) = ?c - 1 - of_nat i" "?c + 1 - 1 - of_nat (Suc i) = ?c - 1 - of_nat i"
    by simp_all
  have "unat (?c - 1 - of_nat i) mod 16 \<noteq> unat ?c mod 16"
    using slot_inj [of "Suc i" ?c] i unfolding e(1) by simp
  moreover have "history_nth (add_history h t) (Suc i)
      = ((sched_history t)(unat ?c mod 16 := h)) (unat (?c + 1 - 1 - of_nat (Suc i)) mod 16)"
    by (simp add: history_nth_def add_history_def)
  ultimately show "history_nth (add_history h t) (Suc i) = history_nth t i"
    by (simp only: e(2) fun_upd_apply if_False history_nth_def SCHED_HISTORY_LEN_def)
qed

lemma total_ticks_account:
  "total_ticks (account now t) = total_ticks t + (if sched_running_id t \<noteq> 0
     \<and> unat (sched_running_prio t) < NPRIORITIES then now - sched_running_since t else 0)"
proof -
  have sum: "sum_list (map (f(k := f k + d)) [0..<n]) = sum_list (map f [0..<n]) + (if k < n then d else 0)"
    for f :: "nat \<Rightarrow> u32" and k d n
    by (induction n) (auto simp: ac_simps)
  show ?thesis
    by (simp add: account_def total_ticks_def add_prio_ticks_def upd_stat_def sum)
qed

lemma returns_cprintf [intro!, simp]: "returns (cprintf f a)" "returns (emit e)"
  by (simp_all add: returns_def)

lemma returns_print [intro!]:
  "returns (print_env_stat i)" "returns (print_history i)" "returns (print_prio_ticks n i)"
  unfolding print_env_stat_def print_history_def print_prio_ticks_def Let_def
  by (intro returns_rules returns_cprintf)+

lemma returns_print_stats: "returns sched_print_stats"
proof -
  have "returns (case pol of SCHED_ROUND_ROBIN \<Rightarrow> cprintf f [] | SCHED_PRIORITIES \<Rightarrow> cprintf g a)" for pol f g a
    by (cases pol) simp_all
  then show ?thesis
    unfolding sched_print_stats_def sched_account_cputicks_def
    by (intro returns_rules returns_cprintf returns_print)
qed

section \<open>One decision after the other\<close>

text \<open>What the scheduler looks at in an environment.\<close>

definition sched_view :: "Env \<Rightarrow> env_status_t \<times> u32 \<times> u32" where
  "sched_view v = (env_status v, env_priority v, env_wait_ticks v)"

text \<open>The environment that the call picks to run, if it picks one.\<close>

definition picked :: "kst \<Rightarrow> nat option" where
  "picked s = (case fst ((sched_yield :: unit K) s) of Inl (UserMode e) \<Rightarrow> Some e | _ \<Rightarrow> None)"

text \<open>The state the call leaves, in which the environment it picked starts to run.\<close>

definition after_pick :: "kst \<Rightarrow> kst" where
  "after_pick s = snd ((sched_yield :: unit K) s)"

lemma picked_choice:
  assumes "sched_ok s" "eligible s x"
  shows "picked s = map_option fst (choice s)" "curenv (after_pick s) = picked s" "picked s \<noteq> None"
proof -
  obtain e p where c: "choice s = Some (e, p)" using choice_complete [OF assms(2)] by fastforce
  from sched_yield_runs [OF c assms(1), where 'a = unit] c
  show "picked s = map_option fst (choice s)" "curenv (after_pick s) = picked s" "picked s \<noteq> None"
    by (auto simp: picked_def after_pick_def)
qed

lemma sched_yield_view:
  assumes "policy s = SCHED_PRIORITIES" "sched_ok s" "pr_best s = Some (e, p)"
  shows "\<exists>t. (sched_yield :: unit K) s = (Inl (UserMode e), t) \<and> curenv t = Some e \<and> policy t = policy s
    \<and> (\<forall>x. sched_view (envs t x) =
         (if x = e then ENV_RUNNING else if cur_running s = Some x then ENV_RUNNABLE else env_status (envs s x),
          env_priority (envs s x), env_wait_ticks (envs (age_waiting e s) x)))"
proof -
  let ?s = "upd_stats (\<lambda>t. t\<lparr>sched_calls := sched_calls t + 1\<rparr>) s"
  let ?t = "note_run e p (age_waiting e ?s)"
  have "eligible s e" using pr_best_sound assms(3) by blast
  then obtain d where d: "env_pgdir (envs s e) = Some d" "d < 2 ^ 20" using assms(2) by (auto simp: sched_ok_def)
  have "env_pgdir (envs ?t e) = Some d" using d(1) by (simp add: age_waiting_eq)
  moreover have "lock_held ?t" using assms(2) by (simp add: sched_ok_def age_waiting_eq)
  ultimately have run: "(sched_yield :: unit K) s = (Inl (UserMode e), run_post e d ?t)"
    using env_run_exec [of ?t e d] d(2) assms(1,3) by (simp add: sched_yield_exec run_choice_def sched_run_exec)
  have a: "curenv (age_waiting e ?s) = curenv s" "policy (age_waiting e ?s) = policy s"
    "env_status (envs (age_waiting e ?s) x) = env_status (envs s x)"
    "env_priority (envs (age_waiting e ?s) x) = env_priority (envs s x)"
    "env_wait_ticks (envs (age_waiting e ?s) x) = env_wait_ticks (envs (age_waiting e s) x)" for x
    by (simp_all add: age_waiting_eq curenv_def)
  show ?thesis
    unfolding run by (auto simp: run_post_def a cur_running_def sched_view_def split: option.splits)
qed

lemma picked_view:
  assumes "policy s = SCHED_PRIORITIES" "sched_ok s" "runnable s e" "e < NENV" "picked s = Some c"
  shows "pr_best s = Some (c, eff s c)"
    "sched_view (envs (after_pick s) x) =
         (if x = c then ENV_RUNNING else if cur_running s = Some x then ENV_RUNNABLE else env_status (envs s x),
          env_priority (envs s x), env_wait_ticks (envs (age_waiting c s) x))"
proof -
  have el: "eligible s e" using assms(3,4) by (simp add: eligible_def)
  obtain p where p: "pr_best s = Some (c, p)"
    using picked_choice(1) [OF assms(2) el] assms(1,5) by (cases "pr_best s") (auto simp: choice_def)
  show "pr_best s = Some (c, eff s c)" using p pr_best_sound [OF p] by simp
  obtain t where t: "(sched_yield :: unit K) s = (Inl (UserMode c), t)" "\<And>x. sched_view (envs t x) =
         (if x = c then ENV_RUNNING else if cur_running s = Some x then ENV_RUNNABLE else env_status (envs s x),
          env_priority (envs s x), env_wait_ticks (envs (age_waiting c s) x))"
    using sched_yield_view [OF assms(1,2) p] by blast
  then show "sched_view (envs (after_pick s) x) =
         (if x = c then ENV_RUNNING else if cur_running s = Some x then ENV_RUNNABLE else env_status (envs s x),
          env_priority (envs s x), env_wait_ticks (envs (age_waiting c s) x))"
    by (simp add: after_pick_def)
qed

lemma picked_rr:
  assumes "policy s = SCHED_ROUND_ROBIN" "sched_ok s" "e < NENV" "runnable s e" "picked s \<noteq> Some e"
  shows "\<exists>c < NENV. picked s = Some c \<and> curenv (after_pick s) = Some c \<and> scan_dist (c + 1) e < scan_dist (scan_start s) e"
proof -
  have el: "eligible s e" using assms(3,4) by (simp add: eligible_def)
  note P = picked_choice [OF assms(2) el]
  obtain c p where c: "rr_pick s = Some (c, p)" "picked s = Some c" using P(1,3) assms(1) by (auto simp: choice_def)
  have r: "c < NENV" "scan_dist (scan_start s) c \<le> scan_dist (scan_start s) e"
    using rr_pick_runnable [of s c p] c(1) assms(3,4) by auto
  have "scan_dist (scan_start s) c \<noteq> scan_dist (scan_start s) e"
    using scan_order_dist [OF r(1), of "scan_start s"] scan_order_dist [OF assms(3), of "scan_start s"] c(2) assms(5) by auto
  then show ?thesis using scan_dist_decreases [OF r(1) assms(3)] r P(2) c(2) by (intro exI [of _ c]) simp
qed

section \<open>Properties\<close>

text \<open>Two ready environments of priorities 3 and 9, and the lock held by CPU 0: the witnesses' state.\<close>

definition ready_env :: "u32 \<Rightarrow> nat \<Rightarrow> u32 \<Rightarrow> Env" where
  "ready_env eid d prio = zero_env\<lparr>env_id := eid, env_status := ENV_RUNNABLE, env_pgdir := Some d,
     env_priority := prio\<rparr>"

definition two_kst :: "sched_policy \<Rightarrow> kst" where
  "two_kst pol = zero_kst\<lparr>policy := pol, klock := \<lparr>locked = 1, lk_cpu = Some 0\<rparr>,
     envs := (\<lambda>_. zero_env)(0 := ready_env 4096 5 3, 1 := ready_env 4097 6 9)\<rparr>"

lemma two_kst_simps [simp]:
  "curenv (two_kst pol) = None" "policy (two_kst pol) = pol" "cur_running (two_kst pol) = None"
  "runnable (two_kst pol) e \<longleftrightarrow> e = 0 \<or> e = 1" "ticks (two_kst pol) = 0" "scan_start (two_kst pol) = 0"
  by (simp_all add: two_kst_def zero_kst_def curenv_def cur_running_def runnable_def ready_env_def zero_env_def
    scan_start_def)

lemma two_kst_ok: "sched_ok (two_kst pol)" "eligible (two_kst pol) e \<longleftrightarrow> e = 0 \<or> e = 1"
proof -
  show el: "eligible (two_kst pol) e \<longleftrightarrow> e = 0 \<or> e = 1" for e by (auto simp: eligible_def NENV_def)
  show "sched_ok (two_kst pol)"
    unfolding sched_ok_def el
    by (auto simp: two_kst_def zero_kst_def holding_def ready_env_def)
qed

text \<open>C3: sched\_yield never returns, whatever the state. With either policy, when some environment can
  run (a ready one, or the one this CPU was running) it enters user mode in such an environment, which
  is then current and RUNNING, with the lock released and nothing else's status changed but the
  preempted environment's, which is ready again; when none can, the CPU goes to the halt path.\<close>

theorem sched_yield_outcome:
  assumes "sched_ok s"
  shows "noreturn (sched_yield :: unit K)
    \<and> (if \<exists>e. eligible s e
       then \<exists>e s'. (sched_yield :: unit K) s = (Inl (UserMode e), s') \<and> eligible s e \<and> curenv s' = Some e
         \<and> env_status (envs s' e) = ENV_RUNNING \<and> lock_free s'
         \<and> (\<forall>x. x \<noteq> e \<longrightarrow> env_status (envs s' x) =
               (if cur_running s = Some x then ENV_RUNNABLE else env_status (envs s x)))
       else (sched_yield :: unit K) s
         = sched_halt (upd_stats (\<lambda>t. t\<lparr>sched_calls := sched_calls t + 1\<rparr>) s))"
proof (cases "\<exists>e. eligible s e")
  case True
  then obtain e p where c: "choice s = Some (e, p)" using choice_None [of s] by (cases "choice s") auto
  show ?thesis
    using True sched_yield_runs [OF c assms, where 'a = unit] choice_eligible [OF c] noreturn_sched_yield by auto
next
  case False
  then have "choice s = None" by (simp add: choice_None)
  with False show ?thesis using sched_yield_halts [of s, where 'a = unit] noreturn_sched_yield by auto
qed

theorem sched_yield_outcome_witness:
  "\<exists>e s'. (sched_yield :: unit K) (two_kst SCHED_PRIORITIES) = (Inl (UserMode e), s') \<and> lock_free s'"
proof -
  have "\<exists>e. eligible (two_kst SCHED_PRIORITIES) e" using two_kst_ok(2) by blast
  then show ?thesis
    using sched_yield_outcome [OF two_kst_ok(1), of SCHED_PRIORITIES] by (simp only: if_True) blast
qed

text \<open>Round robin picks, among the ready environments, the first one after the current environment
  in circular order of the table.\<close>

theorem round_robin_choice:
  assumes "policy s = SCHED_ROUND_ROBIN" "sched_ok s" "x < NENV" "runnable s x"
  shows "\<exists>e s'. (sched_yield :: unit K) s = (Inl (UserMode e), s') \<and> e < NENV \<and> runnable s e
    \<and> (\<forall>y < NENV. runnable s y \<longrightarrow> scan_dist (scan_start s) e \<le> scan_dist (scan_start s) y)"
proof -
  have ex: "\<exists>x < NENV. runnable s x" using assms(3,4) by blast
  then obtain e p where c: "rr_pick s = Some (e, p)"
    using rr.complete [of s x] assms(3,4) by (auto simp: eligible_def)
  moreover have "choice s = Some (e, p)" using c assms(1) by (simp add: choice_def)
  ultimately show ?thesis
    using rr_pick_runnable [OF ex, of e p] sched_yield_runs [OF _ assms(2), of e p, where 'a = unit] by auto
qed

theorem round_robin_choice_witness:
  "\<exists>s'. (sched_yield :: unit K) (two_kst SCHED_ROUND_ROBIN) = (Inl (UserMode 0), s')"
proof -
  obtain e s' where e: "(sched_yield :: unit K) (two_kst SCHED_ROUND_ROBIN) = (Inl (UserMode e), s')"
    "e = 0 \<or> e = 1" "\<forall>y < NENV. (y = 0 \<or> y = 1) \<longrightarrow> scan_dist 0 e \<le> scan_dist 0 y"
    using round_robin_choice [OF _ two_kst_ok(1), of SCHED_ROUND_ROBIN 0] by auto
  have "scan_dist 0 0 < scan_dist 0 1" by (simp add: scan_dist_def NENV_def)
  then have "e = 0" using e(2,3) by (metis NENV_pos(1) linorder_not_less)
  with e(1) show ?thesis by blast
qed

text \<open>C5: round robin does not starve: take the successive calls of \<open>sched_yield\<close> on a CPU, as long as the
  environment each picks is still the CPU's current one at the next call (if it is destroyed, or the CPU
  halts, the next scan restarts at slot 0 and this bound is lost), whatever else changes between the calls.
  Then an environment that is ready at every call is picked by one of the first NENV.\<close>

theorem round_robin_bounded_wait:
  assumes "e < NENV"
    and "\<forall>i. (\<forall>j < i. picked (st j) \<noteq> Some e) \<longrightarrow>
          policy (st i) = SCHED_ROUND_ROBIN \<and> sched_ok (st i) \<and> runnable (st i) e"
    and "\<forall>i. (\<forall>j \<le> i. picked (st j) \<noteq> Some e) \<longrightarrow>
          (\<forall>c. picked (st i) = Some c \<longrightarrow> curenv (st (Suc i)) = Some c
             \<and> ENVX (env_id (envs (st (Suc i)) c)) = c)"
  shows "\<exists>i < NENV. picked (st i) = Some e"
proof (rule ccontr)
  assume "\<not> (\<exists>i < NENV. picked (st i) = Some e)"
  then have no: "picked (st i) \<noteq> Some e" if "i < NENV" for i using that by blast
  have step: "scan_dist (scan_start (st (Suc i))) e < scan_dist (scan_start (st i)) e" if i: "i < NENV" for i
  proof -
    have ok: "policy (st i) = SCHED_ROUND_ROBIN" "sched_ok (st i)" "runnable (st i) e"
      using assms(2) [rule_format, of i] no i by auto
    obtain c where c: "picked (st i) = Some c" "scan_dist (c + 1) e < scan_dist (scan_start (st i)) e"
      using picked_rr [OF ok(1,2) assms(1) ok(3) no [OF i]] by blast
    have "curenv (st (Suc i)) = Some c" "ENVX (env_id (envs (st (Suc i)) c)) = c"
      using assms(3) [rule_format, of i c] no i c(1) by auto
    then show ?thesis using c(2) by (simp add: scan_start_def)
  qed
  have "i \<le> NENV \<Longrightarrow> scan_dist (scan_start (st i)) e + i \<le> scan_dist (scan_start (st 0)) e" for i
  proof (induction i)
    case (Suc i) then show ?case using step [of i] by simp
  qed simp
  from this [of NENV] show False using scan_dist_less [of "scan_start (st 0)" e] by linarith
qed

text \<open>Environment 0 has just been picked and runs; environment 1 is ready.\<close>

definition second_kst :: kst where
  "second_kst = set_curenv (Some 0) (upd_env 0 (\<lambda>v. v\<lparr>env_status := ENV_RUNNING\<rparr>) (two_kst SCHED_ROUND_ROBIN))"

lemma second_kst_simps [simp]:
  "curenv second_kst = Some 0" "policy second_kst = SCHED_ROUND_ROBIN" "runnable second_kst e \<longleftrightarrow> e = 1"
  "scan_start second_kst = 1" "ENVX (env_id (envs second_kst 0)) = 0" "env_priority (envs second_kst (Suc 0)) = 9"
  by (simp_all add: second_kst_def scan_start_def two_kst_def ready_env_def ENVX_def runnable_def zero_env_def)

lemma second_kst_ok: "sched_ok second_kst"
proof -
  have "cur_running second_kst = Some 0" by (simp add: cur_running_def second_kst_def)
  then have "eligible second_kst e \<Longrightarrow> e = 0 \<or> e = 1" for e by (auto simp: eligible_def)
  moreover have "lock_held second_kst" using two_kst_ok(1) [of SCHED_ROUND_ROBIN] by (simp add: second_kst_def sched_ok_def)
  ultimately show ?thesis by (fastforce simp: sched_ok_def second_kst_def two_kst_def ready_env_def)
qed

theorem round_robin_bounded_wait_witness:
  "\<exists>i. i < NENV \<and> picked (if i = 0 then two_kst SCHED_ROUND_ROBIN else second_kst) = Some 1"
proof -
  let ?s = "two_kst SCHED_ROUND_ROBIN"
  let ?st = "\<lambda>i :: nat. if i = 0 then ?s else second_kst"
  have "rr_pick ?s = Some (0, 3)"
  proof -
    have "scan_dist 0 0 = 0" by (simp add: scan_dist_def)
    moreover have "env_priority (envs ?s 0) = 3" by (simp add: two_kst_def ready_env_def)
    moreover have "\<exists>x < NENV. runnable ?s x" using NENV_pos(1) two_kst_simps(4) by blast
    ultimately show ?thesis using rr_pick_runnable [of ?s 0 3] by simp
  qed
  then have p: "picked ?s = Some 0"
    using picked_choice(1) [OF two_kst_ok(1), of SCHED_ROUND_ROBIN 0] two_kst_ok(2) [of SCHED_ROUND_ROBIN 0]
    by (simp add: choice_def)
  have el: "eligible second_kst 1" by (simp add: eligible_def NENV_def)
  have "rr_pick second_kst = Some (1, 9)"
  proof -
    have "scan_dist 1 1 = 0" by (simp add: scan_dist_def NENV_def)
    moreover have "\<exists>x < NENV. runnable second_kst x" by (simp add: NENV_def)
    ultimately show ?thesis using rr_pick_runnable [of second_kst 1 9] by (simp add: NENV_def)
  qed
  then have q: "picked second_kst = Some 1"
    using picked_choice(1) [OF second_kst_ok el] by (simp add: choice_def)
  have "\<exists>i < NENV. picked (?st i) = Some 1"
  proof (rule round_robin_bounded_wait)
    show "\<forall>i. (\<forall>j \<le> i. picked (?st j) \<noteq> Some 1) \<longrightarrow> (\<forall>c. picked (?st i) = Some c \<longrightarrow> curenv (?st (Suc i)) = Some c
        \<and> ENVX (env_id (envs (?st (Suc i)) c)) = c)"
      using p q by auto
  qed (simp_all add: NENV_def two_kst_ok second_kst_ok)
  then show ?thesis by simp
qed
text \<open>The effective priority is the base priority plus one point per four decisions waited, saturated
  at 15, computed without overflow for every priority the kernel hands out.\<close>

theorem effective_priority_exact:
  assumes "env_priority v \<le> ENV_PRIORITY_MAX"
  shows "unat (sched_effective_priority v) = unat (env_priority v) + min 15 (unat (env_wait_ticks v) div 4)
    \<and> unat (sched_effective_priority v) \<le> 30"
  using unat_effective [OF assms] assms by (simp add: word_le_nat_alt)

theorem effective_priority_exact_witness:
  "unat (sched_effective_priority (zero_env\<lparr>env_priority := 7, env_wait_ticks := 23\<rparr>)) = 12"
  using effective_priority_exact [of "zero_env\<lparr>env_priority := 7, env_wait_ticks := 23\<rparr>"] by simp

text \<open>C4: the priority policy runs an environment of the highest effective priority: no ready environment
  has a higher one, among ready ones that tie the first in circular order wins, and the environment
  that was running keeps the CPU exactly when its own is strictly higher than all of theirs. Then the
  winner has waited 0 decisions, and every other ready environment one more.\<close>

theorem priority_choice:
  assumes "policy s = SCHED_PRIORITIES" "sched_ok s" "x < NENV" "runnable s x"
  shows "\<exists>e s'. (sched_yield :: unit K) s = (Inl (UserMode e), s')
    \<and> (\<forall>y < NENV. runnable s y \<longrightarrow> eff s y \<le> eff s e)
    \<and> (cur_running s = Some e \<longleftrightarrow> (\<exists>c. cur_running s = Some c \<and> (\<forall>y < NENV. runnable s y \<longrightarrow> eff s y < eff s c)))
    \<and> (cur_running s \<noteq> Some e \<longrightarrow> runnable s e \<and>
         (\<forall>y < NENV. runnable s y \<and> eff s y = eff s e \<longrightarrow>
            scan_dist (scan_start s) e \<le> scan_dist (scan_start s) y))
    \<and> env_wait_ticks (envs s' e) = 0
    \<and> (\<forall>y < NENV. y \<noteq> e \<longrightarrow> env_wait_ticks (envs s' y) =
          env_wait_ticks (envs s y) + (if runnable s y then 1 else 0))"
proof -
  obtain b q where f: "fold (pr_scan_step s) (scan_order (scan_start s)) None = Some (b, q)"
    using pr_fold_None [of s "scan_order (scan_start s)"] assms(3,4) by fastforce
  note g = pr_scan_Some [OF f]
  obtain e where pick: "pr_best s = Some (e, eff s e)"
    and e: "e = (case cur_running s of Some c \<Rightarrow> if eff s c > q then c else b | None \<Rightarrow> b)"
    using f g(3) by (auto simp: pr_best_def pr_better_def eff_def split: option.splits)
  have el: "eligible s e" using pr_best_sound [OF pick] by simp
  have nr: "\<not> runnable s c" if "cur_running s = Some c" for c
    using that by (auto simp: cur_running_def runnable_def split: option.splits if_splits)
  have le: "eff s y \<le> eff s e" if "y < NENV" "runnable s y" for y
    using g(3) g(4) [OF that] e by (auto split: option.splits)
  have keep: "cur_running s = Some e \<longleftrightarrow>
      (\<exists>c. cur_running s = Some c \<and> (\<forall>y < NENV. runnable s y \<longrightarrow> eff s y < eff s c))"
  proof
    assume c: "cur_running s = Some e"
    then have "b \<noteq> e" using nr g(2) by blast
    moreover have "e = (if eff s e > q then e else b)" using e unfolding c option.case .
    ultimately have "q < eff s e" by metis
    then show "\<exists>c. cur_running s = Some c \<and> (\<forall>y < NENV. runnable s y \<longrightarrow> eff s y < eff s c)"
      using c g(4) by (meson order_le_less_trans)
  next
    assume "\<exists>c. cur_running s = Some c \<and> (\<forall>y < NENV. runnable s y \<longrightarrow> eff s y < eff s c)"
    then show "cur_running s = Some e" using e g(1,2,3) by auto
  qed
  have tie: "runnable s e \<and> (\<forall>y < NENV. runnable s y \<and> eff s y = eff s e \<longrightarrow>
      scan_dist (scan_start s) e \<le> scan_dist (scan_start s) y)" if "cur_running s \<noteq> Some e"
  proof -
    have "e = b" using e that by (auto split: option.splits if_splits)
    then show ?thesis using g by auto
  qed
  let ?s = "upd_stats (\<lambda>t. t\<lparr>sched_calls := sched_calls t + 1\<rparr>) s"
  let ?t = "note_run e (eff s e) (age_waiting e ?s)"
  obtain d where d: "env_pgdir (envs s e) = Some d" "d < 2 ^ 20" using assms(2) el by (auto simp: sched_ok_def)
  have "lock_held ?t" "env_pgdir (envs ?t e) = Some d"
    using assms(2) d by (simp_all add: sched_ok_def age_waiting_eq)
  from env_run_exec [OF this(2) d(2) this(1)]
  have run: "(sched_yield :: unit K) s = (Inl (UserMode e), run_post e d ?t)"
    using assms(1) pick by (simp add: sched_yield_exec run_choice_def sched_run_exec)
  have wait: "env_wait_ticks (envs (run_post e d ?t) y) = env_wait_ticks (envs (age_waiting e ?s) y)" for y
    by (simp add: run_post_def split: option.splits)
  have "env_wait_ticks (envs (age_waiting e ?s) e) = 0"
    "y < NENV \<Longrightarrow> y \<noteq> e \<Longrightarrow> env_wait_ticks (envs (age_waiting e ?s) y) =
       env_wait_ticks (envs s y) + (if runnable s y then 1 else 0)" for y
    by (simp_all add: age_waiting_eq)
  then have "env_wait_ticks (envs (run_post e d ?t) e) = 0"
    "\<forall>y < NENV. y \<noteq> e \<longrightarrow> env_wait_ticks (envs (run_post e d ?t) y) =
       env_wait_ticks (envs s y) + (if runnable s y then 1 else 0)"
    unfolding wait by blast+
  then show ?thesis using run le keep tie by blast
qed

theorem priority_choice_witness:
  "\<exists>s'. (sched_yield :: unit K) (two_kst SCHED_PRIORITIES) = (Inl (UserMode 1), s')
     \<and> env_wait_ticks (envs s' 0) = 1"
proof -
  let ?s = "two_kst SCHED_PRIORITIES"
  have eff: "eff ?s 0 = 3" "eff ?s 1 = 9"
    by (simp_all add: eff_def sched_effective_priority_def two_kst_def ready_env_def zero_env_def)
  have w: "env_wait_ticks (envs ?s 0) = 0" by (simp add: two_kst_def ready_env_def zero_env_def)
  have n: "0 < NENV" "1 < NENV" by (simp_all add: NENV_def)
  obtain e s' where e: "(sched_yield :: unit K) ?s = (Inl (UserMode e), s')" "eff ?s 1 \<le> eff ?s e"
    "e = 0 \<or> e = 1" "\<forall>y < NENV. y \<noteq> e \<longrightarrow> env_wait_ticks (envs s' y) =
          env_wait_ticks (envs ?s y) + (if runnable ?s y then 1 else 0)"
    using priority_choice [of ?s 0] two_kst_ok(1) n by auto
  then have "e = 1" using eff by auto
  with e w n show ?thesis by auto
qed

text \<open>C6: under the priority policy a running environment cannot hold its CPU against a ready one for
  long: while \<open>e\<close> stays ready, the priorities stay as they are and only the timer interrupts the environment
  \<open>c\<close> that runs, successive calls of \<open>sched_yield\<close> pick \<open>c\<close> at most four times the difference of their
  priorities in a row (once, if \<open>e\<close> has no smaller priority), so at most 60 times. Decisions of other CPUs
  may age \<open>e\<close> further in between.\<close>

theorem aging_bounds_wait:
  assumes "e < NENV" "e \<noteq> c" "runnable (st 0) e"
    and p: "pc = env_priority (envs (st 0) c)" "pe = env_priority (envs (st 0) e)" "pc \<le> ENV_PRIORITY_MAX" "pe \<le> ENV_PRIORITY_MAX"
    and ok: "\<forall>i. (\<forall>j < i. picked (st j) = Some c) \<longrightarrow> policy (st i) = SCHED_PRIORITIES \<and> sched_ok (st i)"
    and small: "\<forall>i \<le> 60. unat (env_wait_ticks (envs (st i) e)) < 2 ^ 31"
    and nxt: "\<forall>i. (\<forall>j \<le> i. picked (st j) = Some c) \<longrightarrow> curenv (st (Suc i)) = Some c
      \<and> sched_view (envs (st (Suc i)) c) = sched_view (envs (after_pick (st i)) c)
      \<and> env_status (envs (st (Suc i)) e) = env_status (envs (after_pick (st i)) e)
      \<and> env_priority (envs (st (Suc i)) e) = env_priority (envs (after_pick (st i)) e)
      \<and> env_wait_ticks (envs (after_pick (st i)) e) \<le> env_wait_ticks (envs (st (Suc i)) e)"
  shows "\<exists>i \<le> max 1 (4 * (unat pc - unat pe)). i \<le> 60 \<and> picked (st i) \<noteq> Some c"
proof (rule ccontr)
  let ?n = "max 1 (4 * (unat pc - unat pe))"
  have p15: "unat pc \<le> 15" "unat pe \<le> 15" using p(3,4) by (simp_all add: word_le_nat_alt)
  then have n: "?n \<le> 60" by simp
  assume "\<not> ?thesis"
  then have c: "picked (st i) = Some c" if "i \<le> ?n" for i using that n by fastforce
  let ?w = "\<lambda>i. unat (env_wait_ticks (envs (st i) e))"
  have inv: "i \<le> ?n \<Longrightarrow> runnable (st i) e \<and> env_priority (envs (st i) c) = pc \<and> env_priority (envs (st i) e) = pe
      \<and> i \<le> ?w i \<and> (0 < i \<longrightarrow> cur_running (st i) = Some c \<and> env_wait_ticks (envs (st i) c) = 0)" for i
  proof (induction i)
    case 0
    then show ?case using assms(3) p by simp
  next
    case (Suc i)
    then have IH: "runnable (st i) e" "env_priority (envs (st i) c) = pc" "env_priority (envs (st i) e) = pe" "i \<le> ?w i" by simp_all
    have o: "policy (st i) = SCHED_PRIORITIES" "sched_ok (st i)" using ok [rule_format, of i] c Suc.prems by auto
    have x: "curenv (st (Suc i)) = Some c" "sched_view (envs (st (Suc i)) c) = sched_view (envs (after_pick (st i)) c)"
      "env_status (envs (st (Suc i)) e) = env_status (envs (after_pick (st i)) e)"
      "env_priority (envs (st (Suc i)) e) = env_priority (envs (after_pick (st i)) e)"
      "env_wait_ticks (envs (after_pick (st i)) e) \<le> env_wait_ticks (envs (st (Suc i)) e)"
      using nxt [rule_format, of i] c Suc.prems by auto
    have "picked (st i) = Some c" using c Suc.prems by simp
    note v = picked_view(2) [OF o IH(1) assms(1) this]
    have ne: "cur_running (st i) \<noteq> Some e" using IH(1) by (auto simp: cur_running_def runnable_def split: option.splits if_splits)
    have ve: "env_status (envs (st (Suc i)) e) = ENV_RUNNABLE" "env_priority (envs (st (Suc i)) e) = pe"
      "env_wait_ticks (envs (st i) e) + 1 \<le> env_wait_ticks (envs (st (Suc i)) e)"
      using x(3-5) v [of e] IH ne assms(1,2) by (simp_all add: age_waiting_eq runnable_def sched_view_def)
    have vc: "sched_view (envs (st (Suc i)) c) = (ENV_RUNNING, pc, 0)"
      using x(2) v [of c] IH by (simp add: age_waiting_eq)
    have "unat (env_wait_ticks (envs (st i) e) + 1) = Suc (?w i)"
      using small [rule_format, of i] Suc.prems n by (simp add: unat_word_ariths)
    then have "Suc i \<le> ?w (Suc i)" using ve(3) IH(4) by (simp add: word_le_nat_alt)
    then show ?case using ve vc x(1) by (simp add: sched_view_def runnable_def cur_running_def)
  qed
  have i: "runnable (st ?n) e" "env_priority (envs (st ?n) c) = pc" "env_priority (envs (st ?n) e) = pe"
    "?n \<le> ?w ?n" "cur_running (st ?n) = Some c" "env_wait_ticks (envs (st ?n) c) = 0"
    using inv [of ?n] by simp_all
  have o: "policy (st ?n) = SCHED_PRIORITIES" "sched_ok (st ?n)" using ok [rule_format, of ?n] c by auto
  have "eff (st ?n) e < eff (st ?n) c"
    by (rule pr_best_keeps [OF picked_view(1) [OF o i(1) assms(1) c [OF order_refl]] i(5) assms(1) i(1)])
  then have "unat pe + min 15 (?w ?n div 4) < unat pc"
    using unat_effective [of "envs (st ?n) e"] unat_effective [of "envs (st ?n) c"] p(3,4) i(2,3,6)
    by (simp add: eff_def word_less_nat_alt)
  moreover have "unat pc - unat pe \<le> ?w ?n div 4" using i(4) div_le_mono [of "4 * (unat pc - unat pe)" "?w ?n" 4] by simp
  ultimately show False using p15 by linarith
qed

text \<open>Environment 1 (priority 9) runs, environment 0 (priority 3) has waited \<open>i\<close> decisions.\<close>

definition waiting_kst :: "nat \<Rightarrow> kst" where
  "waiting_kst i = (two_kst SCHED_PRIORITIES)\<lparr>cpus := (\<lambda>_. \<lparr>cpu_status = CPU_STARTED, cpu_env = Some 1\<rparr>),
     envs := (\<lambda>_. zero_env)(0 := (ready_env 4096 5 3)\<lparr>env_wait_ticks := of_nat i\<rparr>,
       1 := (ready_env 4097 6 9)\<lparr>env_status := ENV_RUNNING\<rparr>)\<rparr>"

lemma waiting_kst_simps [simp]:
  "runnable (waiting_kst i) e \<longleftrightarrow> e = 0" "cur_running (waiting_kst i) = Some 1" "curenv (waiting_kst i) = Some 1"
  "policy (waiting_kst i) = SCHED_PRIORITIES" "sched_view (envs (waiting_kst i) 0) = (ENV_RUNNABLE, 3, of_nat i)"
  "sched_view (envs (waiting_kst i) (Suc 0)) = (ENV_RUNNING, 9, 0)"
  by (simp_all add: waiting_kst_def two_kst_def runnable_def cur_running_def curenv_def ready_env_def zero_env_def sched_view_def)

lemma waiting_kst_ok: "sched_ok (waiting_kst i)"
  by (auto simp: sched_ok_def eligible_def waiting_kst_def two_kst_def zero_kst_def holding_def ready_env_def NENV_def
    cur_running_def curenv_def runnable_def zero_env_def split: if_splits)

theorem aging_bounds_wait_witness: "\<exists>i. i \<le> 24 \<and> picked (waiting_kst i) \<noteq> Some 1"
proof -
  have v: "env_status (envs (waiting_kst i) 0) = ENV_RUNNABLE" "env_priority (envs (waiting_kst i) 0) = 3"
    "env_wait_ticks (envs (waiting_kst i) 0) = of_nat i" "env_priority (envs (waiting_kst i) 1) = 9" for i
    using waiting_kst_simps(5,6) [of i] by (auto simp: sched_view_def)
  have nxt: "sched_view (envs (after_pick (waiting_kst i)) 1) = (ENV_RUNNING, 9, 0)"
    "sched_view (envs (after_pick (waiting_kst i)) 0) = (ENV_RUNNABLE, 3, of_nat i + 1)"
    if "picked (waiting_kst i) = Some 1" for i
    using picked_view(2) [of "waiting_kst i" 0 1, OF _ waiting_kst_ok _ _ that] v [of i]
    by (simp_all add: age_waiting_eq)
  let ?hyp = "\<lambda>i. curenv (waiting_kst (Suc i)) = Some 1
      \<and> sched_view (envs (waiting_kst (Suc i)) 1) = sched_view (envs (after_pick (waiting_kst i)) 1)
      \<and> env_status (envs (waiting_kst (Suc i)) 0) = env_status (envs (after_pick (waiting_kst i)) 0)
      \<and> env_priority (envs (waiting_kst (Suc i)) 0) = env_priority (envs (after_pick (waiting_kst i)) 0)
      \<and> env_wait_ticks (envs (after_pick (waiting_kst i)) 0) \<le> env_wait_ticks (envs (waiting_kst (Suc i)) 0)"
  have hyp: "?hyp i" if "picked (waiting_kst i) = Some 1" for i
    using nxt [OF that] v [of "Suc i"] waiting_kst_simps(6) [of "Suc i"] by (simp add: sched_view_def add.commute)
  have small: "i \<le> 60 \<Longrightarrow> unat (env_wait_ticks (envs (waiting_kst i) 0)) < 2 ^ 31" for i
    by (simp add: v unat_of_nat)
  have "\<exists>i \<le> max 1 (4 * (unat (9 :: u32) - unat (3 :: u32))). i \<le> 60 \<and> picked (waiting_kst i) \<noteq> Some 1"
  proof (rule aging_bounds_wait [where e = 0 and st = waiting_kst])
    show "\<forall>i. (\<forall>j \<le> i. picked (waiting_kst j) = Some 1) \<longrightarrow> ?hyp i" using hyp by blast
    show "\<forall>i \<le> 60. unat (env_wait_ticks (envs (waiting_kst i) 0)) < 2 ^ 31" using small by blast
  qed (use v [of 0] in \<open>simp_all add: waiting_kst_ok\<close>)
  then show ?thesis by auto
qed

text \<open>sched\_wakeup\_sleeping makes ready exactly the environments that sleep (blocked, with a wake-up
  time set) and whose time has come; it never touches one that is blocked for another reason, and leaves
  no expired sleeper behind.\<close>

theorem sched_wakeup_exact:
  assumes "e < NENV" and run: "sched_wakeup_sleeping s = (Inr u, s')"
  shows "(env_status (envs s' e) = (if env_status (envs s e) = ENV_NOT_RUNNABLE \<and> env_sleep_until (envs s e) \<noteq> 0
           \<and> env_sleep_until (envs s e) \<le> ticks s then ENV_RUNNABLE else env_status (envs s e)))
    \<and> (env_status (envs s e) = ENV_NOT_RUNNABLE \<and> env_sleep_until (envs s e) = 0 \<longrightarrow> envs s' e = envs s e)
    \<and> \<not> (env_status (envs s' e) = ENV_NOT_RUNNABLE \<and> env_sleep_until (envs s' e) \<noteq> 0
          \<and> env_sleep_until (envs s' e) \<le> ticks s')"
proof -
  have "s' = s\<lparr>envs := (\<lambda>i. if i < NENV \<and> wakes (ticks s) (envs s i)
     then (envs s i)\<lparr>env_sleep_until := 0, env_status := ENV_RUNNABLE\<rparr> else envs s i)\<rparr>"
    using run sched_wakeup_exec [of s] by simp
  then show ?thesis using assms(1) by (simp add: wakes_def)
qed

theorem sched_wakeup_exact_witness:
  "env_status (envs (snd (sched_wakeup_sleeping (upd_env 0 (\<lambda>v. v\<lparr>env_status := ENV_NOT_RUNNABLE,
      env_sleep_until := 5\<rparr>) (zero_kst\<lparr>ticks := 7\<rparr>)))) 0) = ENV_RUNNABLE"
proof -
  let ?s = "upd_env 0 (\<lambda>v. v\<lparr>env_status := ENV_NOT_RUNNABLE, env_sleep_until := 5\<rparr>) (zero_kst\<lparr>ticks := 7\<rparr>)"
  have "sched_wakeup_sleeping ?s = (Inr (), snd (sched_wakeup_sleeping ?s))"
    by (simp only: sched_wakeup_exec snd_conv)
  from sched_wakeup_exact [OF NENV_pos(1) this] show ?thesis by (simp add: zero_kst_def)
qed

text \<open>sched\_halt drops into the monitor exactly when no environment is ready, running, dying or
  asleep. Otherwise the CPU halts with no current environment, on the kernel's page directory, marked
  halted and with the kernel lock released, and no environment changed.\<close>

theorem sched_halt_outcome:
  assumes "lock_held s"
  shows "(if \<exists>e < NENV. env_status (envs s e) \<in> {ENV_RUNNABLE, ENV_RUNNING, ENV_DYING}
         \<or> (env_status (envs s e) = ENV_NOT_RUNNABLE \<and> env_sleep_until (envs s e) \<noteq> 0)
     then \<exists>s'. (sched_halt :: unit K) s = (Inl Idle, s') \<and> curenv s' = None \<and> lock_free s' \<and> envs s' = envs s
        \<and> cpu_status (cpus s' (cpunum s)) = CPU_HALTED \<and> hd (trace s') = Lcr3 (kern_pgdir s)
     else \<exists>s'. (sched_halt :: unit K) s = (Inl Monitor, s'))"
proof -
  have ex: "list_ex (\<lambda>i. env_pending (envs s i)) [0..<NENV] \<longleftrightarrow>
      (\<exists>e < NENV. env_status (envs s e) \<in> {ENV_RUNNABLE, ENV_RUNNING, ENV_DYING}
         \<or> (env_status (envs s e) = ENV_NOT_RUNNABLE \<and> env_sleep_until (envs s e) \<noteq> 0))"
    by (auto simp: list_ex_iff env_pending_def)
  show ?thesis
  proof (cases "list_ex (\<lambda>i. env_pending (envs s i)) [0..<NENV]")
    case True
    then show ?thesis
      using assms unfolding ex [symmetric]
      by (simp add: sched_halt_def bnd_def thn_def unlock_kernel_def set_cpu_status_def)
         (simp add: set_curenv_def curenv_def)
  next
    case False
    obtain x s' where "sched_print_stats (s\<lparr>trace := Cprintf ''No runnable environments in the system!\<newline>'' [] # trace s\<rparr>)
        = (Inr x, s')"
      using returns_print_stats unfolding returns_def by blast
    then show ?thesis using False unfolding ex [symmetric] by (simp add: sched_halt_def bnd_def thn_def)
  qed
qed

theorem sched_halt_outcome_witness:
  "\<exists>s'. (sched_halt :: unit K) (upd_env 3 (\<lambda>v. v\<lparr>env_status := ENV_DYING\<rparr>) (two_kst SCHED_ROUND_ROBIN)) = (Inl Idle, s')
     \<and> lock_free s'"
proof -
  let ?s = "upd_env 3 (\<lambda>v. v\<lparr>env_status := ENV_DYING\<rparr>) (two_kst SCHED_ROUND_ROBIN)"
  have "3 < NENV \<and> env_status (envs ?s 3) = ENV_DYING" by (simp add: NENV_def)
  then have ex: "\<exists>e < NENV. env_status (envs ?s e) \<in> {ENV_RUNNABLE, ENV_RUNNING, ENV_DYING}
         \<or> (env_status (envs ?s e) = ENV_NOT_RUNNABLE \<and> env_sleep_until (envs ?s e) \<noteq> 0)" by blast
  have "lock_held ?s" using two_kst_ok(1) [of SCHED_ROUND_ROBIN] by (simp add: sched_ok_def)
  from sched_halt_outcome [OF this] ex show ?thesis by (simp only: if_True) blast
qed

text \<open>The accounting is exact: every tick attributed to an environment is attributed to its
  priority level too, the total grows by the ticks that passed, and no tick is counted twice.\<close>

theorem tick_accounting:
  assumes "sched_running_id t \<noteq> 0" "unat (sched_running_prio t) < NPRIORITIES"
  shows "(let i = ENVX (sched_running_id t); d = now - sched_running_since t; t' = account now t in
    st_cputicks (sched_env_stats t' i) = st_cputicks (sched_env_stats t i) + d
    \<and> total_ticks t' = total_ticks t + d
    \<and> sched_prio_ticks t' (unat (sched_running_prio t)) = sched_prio_ticks t (unat (sched_running_prio t)) + d
    \<and> (\<forall>j. j \<noteq> i \<longrightarrow> sched_env_stats t' j = sched_env_stats t j) \<and> account later t' = t')"
  using total_ticks_account [of now t] assms
  by (simp add: account_def add_prio_ticks_def upd_stat_def)

theorem tick_accounting_witness:
  "total_ticks (account 9 (zero_stats\<lparr>sched_running_id := 4096, sched_running_prio := 8, sched_running_since := 4\<rparr>)) = 5"
  using tick_accounting [of "zero_stats\<lparr>sched_running_id := 4096, sched_running_prio := 8, sched_running_since := 4\<rparr>" 9]
  by (simp add: total_ticks_def zero_stats_def)

text \<open>The history is a ring of the last 16 decisions: after any sequence of decisions, the
  \<open>i\<close>-th line the statistics print is the \<open>i\<close>-th most recent one, also when the 32-bit counter has
  wrapped around.\<close>

theorem history_most_recent:
  assumes "i < length hs" "i < 16"
  shows "history_nth (fold add_history hs t) i = rev hs ! i"
  using assms
proof (induction hs arbitrary: i rule: rev_induct)
  case Nil then show ?case by simp
next
  case (snoc h hs)
  show ?case
  proof (cases i)
    case 0 then show ?thesis using history_ring(1) by simp
  next
    case (Suc j)
    then show ?thesis using snoc history_ring(2) [of j h "fold add_history hs t"] by simp
  qed
qed

theorem history_most_recent_witness:
  "history_nth (fold add_history [\<lparr>h_env_id = 1, h_tick = 0, h_priority = 0, h_effective = 0\<rparr>,
      \<lparr>h_env_id = 2, h_tick = 1, h_priority = 0, h_effective = 0\<rparr>]
      (zero_stats\<lparr>sched_history_count := - 1\<rparr>)) 1
    = \<lparr>h_env_id = 1, h_tick = 0, h_priority = 0, h_effective = 0\<rparr>"
  using history_most_recent [of 1 "[\<lparr>h_env_id = 1, h_tick = 0, h_priority = 0, h_effective = 0\<rparr>,
      \<lparr>h_env_id = 2, h_tick = 1, h_priority = 0, h_effective = 0\<rparr>]" "zero_stats\<lparr>sched_history_count := - 1\<rparr>"]
  by simp

end
