(* ===== verification/EnvFree.thy ===== *)
theory EnvFree
  imports Sched
begin

text \<open>
  The end of an environment: env\_free and env\_destroy of kern/env.c and user\_mem\_assert of
  kern/pmap.c. The two C functions call each other: env\_free of a process destroys its threads,
  whose own env\_free does not recurse. Each body takes the other function as a parameter, and the
  recursion is unrolled twice; \<open>env_free_rec\<close> and \<open>env_destroy_rec\<close> show that the result is a solution
  of the equations of the C code.
\<close>

section \<open>The operations\<close>

definition is_thread_of :: "kst \<Rightarrow> nat \<Rightarrow> nat \<Rightarrow> bool" where
  "is_thread_of s e t \<longleftrightarrow> t \<noteq> e \<and> env_type (envs s t) = ENV_TYPE_THREAD
     \<and> env_status (envs s t) \<noteq> ENV_FREE \<and> env_parent_id (envs s t) = env_id (envs s e)"

definition destroy_threads :: "(nat \<Rightarrow> unit K) \<Rightarrow> nat \<Rightarrow> unit K" where
  "destroy_threads destroy e = for_each [0..<NENV] (\<lambda>t.
     bnd (gets (\<lambda>s. is_thread_of s e t)) (\<lambda>b. whenM b (destroy t)))"

text \<open>The tail of both paths: the directory's reference goes, and the slot becomes free.\<close>

definition release_pgdir :: "nat \<Rightarrow> unit K" where
  "release_pgdir e = bnd (bnd (gets (\<lambda>s. env_pgdir (envs s e))) PADDR) (\<lambda>pa.
     thn (modify (upd_env e (\<lambda>v. v\<lparr>env_pgdir := None\<rparr>)))
     (bnd (pa2page pa) page_decref))"

definition release_slot :: "nat \<Rightarrow> unit K" where
  "release_slot e = thn (modify (upd_env e (\<lambda>v. v\<lparr>env_status := ENV_FREE\<rparr>))) (modify (env_push e))"

definition unmap_table :: "nat \<Rightarrow> nat \<Rightarrow> nat \<Rightarrow> unit K" where
  "unmap_table d pt pdeno = for_each [0..<NPTENTRIES] (\<lambda>pteno.
     bnd (load_word pt pteno) (\<lambda>w.
     whenM (w AND PTE_P \<noteq> 0) (page_remove (Some d) (PGADDR pdeno pteno 0))))"

definition unmap_user :: "nat \<Rightarrow> unit K" where
  "unmap_user e = for_each [0..<PDX UTOP] (\<lambda>pdeno.
     bnd (bnd (gets (\<lambda>s. env_pgdir (envs s e))) deref) (\<lambda>d.
     bnd (load_word d pdeno) (\<lambda>pde.
     if pde AND PTE_P = 0 then ret ()
     else let pa = PTE_ADDR pde in
       bnd (KADDR pa) (\<lambda>pt.
       thn (unmap_table d pt pdeno)
       (thn (store_word d pdeno 0)
       (bnd (pa2page pa) page_decref))))))"

definition env_free_with :: "(nat \<Rightarrow> unit K) \<Rightarrow> nat \<Rightarrow> unit K" where
  "env_free_with destroy e =
     bnd (gets (\<lambda>s. env_type (envs s e))) (\<lambda>ty.
     thn (whenM (ty \<noteq> ENV_TYPE_THREAD) (destroy_threads destroy e))
     (thn (bnd (gets (\<lambda>s. curenv s = Some e)) (\<lambda>b. whenM b (bnd (gets kern_pgdir) lcr3)))
     (thn (bnd (gets (\<lambda>s. (cur_id s, env_id (envs s e)))) (\<lambda>(cid, eid).
            cprintf ''[%08x] free env %08x\<newline>'' [cid, eid]))
     (bnd (gets (\<lambda>s. env_type (envs s e))) (\<lambda>ty.
     if ty = ENV_TYPE_THREAD then thn (release_pgdir e) (release_slot e)
     else thn (unmap_user e) (thn (release_pgdir e) (release_slot e)))))))"

definition env_destroy_with :: "(nat \<Rightarrow> unit K) \<Rightarrow> nat \<Rightarrow> unit K" where
  "env_destroy_with free e =
     bnd (gets (\<lambda>s. env_status (envs s e) = ENV_RUNNING \<and> curenv s \<noteq> Some e)) (\<lambda>elsewhere.
     if elsewhere then modify (upd_env e (\<lambda>v. v\<lparr>env_status := ENV_DYING\<rparr>))
     else thn (free e)
         (bnd (gets (\<lambda>s. curenv s = Some e)) (\<lambda>b.
          whenM b (thn (modify (set_curenv None)) sched_yield))))"

definition thread_free :: "nat \<Rightarrow> unit K" where
  "thread_free = env_free_with (\<lambda>_. ret ())"

definition env_free :: "nat \<Rightarrow> unit K" where
  "env_free = env_free_with (env_destroy_with thread_free)"

definition env_destroy :: "nat \<Rightarrow> unit K" where
  "env_destroy = env_destroy_with env_free"

definition user_mem_assert :: "nat \<Rightarrow> u32 \<Rightarrow> u32 \<Rightarrow> u32 \<Rightarrow> unit K" where
  "user_mem_assert e va len perm =
     bnd (gets (\<lambda>s. env_pgdir (envs s e))) (\<lambda>d.
     bnd (user_mem_check d va len (perm OR PTE_U)) (\<lambda>r.
     if r <s 0 then
       bnd (gets (\<lambda>s. (env_id (envs s e), user_mem_check_addr s))) (\<lambda>(eid, addr).
       thn (cprintf ''[%08x] user_mem_check assertion failure for va %08x\<newline>'' [eid, addr])
       (env_destroy e))
     else ret ()))"

section \<open>The equations of the C code\<close>

lemma thread_free_any:
  "env_type (envs s t) = ENV_TYPE_THREAD \<Longrightarrow> env_free_with d t s = thread_free t s"
  by (simp add: env_free_with_def thread_free_def)

lemma env_destroy_thread:
  assumes "env_type (envs s t) = ENV_TYPE_THREAD"
  shows "env_destroy_with (env_free_with d) t s = env_destroy_with thread_free t s"
  using thread_free_any [OF assms, of d] by (simp add: env_destroy_with_def thn_def bnd_def)

lemma destroy_threads_cong:
  assumes "\<And>t s. env_type (envs s t) = ENV_TYPE_THREAD \<Longrightarrow> f t s = g t s"
  shows "destroy_threads f e = destroy_threads g e"
proof -
  have "bnd (gets (\<lambda>s. is_thread_of s e t)) (\<lambda>b. whenM b (f t))
      = bnd (gets (\<lambda>s. is_thread_of s e t)) (\<lambda>b. whenM b (g t))" for t
    using assms by (auto simp: fun_eq_iff whenM_def is_thread_of_def)
  then show ?thesis by (simp add: destroy_threads_def)
qed

lemma env_free_rec: "env_free = env_free_with env_destroy"
proof -
  have "destroy_threads (env_destroy_with thread_free) e = destroy_threads env_destroy e" for e
    by (rule destroy_threads_cong) (simp add: env_destroy_def env_free_def env_destroy_thread)
  then show ?thesis by (intro ext) (simp only: env_free_def env_free_with_def)
qed

lemma env_destroy_rec: "env_destroy = env_destroy_with env_free"
  by (rule env_destroy_def)

section \<open>What a death changes\<close>

text \<open>The page functions touch neither the environments nor the processors.\<close>

definition mem_frame :: "(kst \<Rightarrow> bool) \<Rightarrow> bool" where
  "mem_frame I \<longleftrightarrow> (\<forall>s s'. envs s' = envs s \<longrightarrow> cpus s' = cpus s \<longrightarrow> cpunum s' = cpunum s \<longrightarrow> I s \<longrightarrow> I s')"

definition envs_are :: "(nat \<Rightarrow> Env) \<Rightarrow> kst \<Rightarrow> bool" where
  "envs_are E s \<longleftrightarrow> envs s = E"

definition envs_cur_are :: "(nat \<Rightarrow> Env) \<Rightarrow> nat option \<Rightarrow> kst \<Rightarrow> bool" where
  "envs_cur_are E c s \<longleftrightarrow> envs s = E \<and> curenv s = c"

lemma mem_frames [hoare_rules]: "mem_frame (envs_are E)" "mem_frame (envs_cur_are E c)"
  by (simp_all add: mem_frame_def envs_are_def envs_cur_are_def curenv_def)

lemma keeps_mem_modify:
  "mem_frame I \<Longrightarrow> (\<And>s. envs (f s) = envs s \<and> cpus (f s) = cpus s \<and> cpunum (f s) = cpunum s) \<Longrightarrow> keeps I (modify f)"
  by (rule keeps_modify) (auto simp: mem_frame_def)

lemma keeps_prims [hoare_rules]:
  "keeps I (panic msg)" "mem_frame I \<Longrightarrow> keeps I (emit e)" "mem_frame I \<Longrightarrow> keeps I (cprintf fmt a)"
  "mem_frame I \<Longrightarrow> keeps I (lcr3 d)" "keeps I (deref p)" "keeps I (load_word f i)"
  "mem_frame I \<Longrightarrow> keeps I (store_word f i w)" "keeps I (KADDR pa)" "keeps I (pa2page pa)" "keeps I (PADDR q)"
  by (auto simp: keeps_def triple_def mem_frame_def panic_def deref_def KADDR_def pa2page_def PADDR_def
    split: option.splits)

lemma keeps_page_free [hoare_rules]: "mem_frame I \<Longrightarrow> keeps I (page_free p)"
  unfolding page_free_def
  by (intro hoare_rules keeps_mem_modify) (simp_all add: page_push_def)

lemma keeps_page_decref [hoare_rules]: "mem_frame I \<Longrightarrow> keeps I (page_decref p)"
  unfolding page_decref_def by (intro hoare_rules keeps_mem_modify) simp_all

lemma keeps_page_alloc [hoare_rules]: "mem_frame I \<Longrightarrow> keeps I (page_alloc fl)"
  unfolding page_alloc_def page2kva_def zero_frame_def
  by (intro hoare_rules keeps_mem_modify) (simp_all add: page_pop_def)

lemma keeps_page_incref [hoare_rules]: "mem_frame I \<Longrightarrow> keeps I (page_incref p)"
  unfolding page_incref_def by (rule keeps_mem_modify) simp_all

lemma keeps_pgdir_walk [hoare_rules]: "mem_frame I \<Longrightarrow> keeps I (pgdir_walk d va c)"
  unfolding pgdir_walk_def Let_def by (intro hoare_rules)

lemma keeps_page_lookup [hoare_rules]: "mem_frame I \<Longrightarrow> keeps I (page_lookup d va)"
  unfolding page_lookup_def by (intro hoare_rules)

lemma keeps_page_remove [hoare_rules]: "mem_frame I \<Longrightarrow> keeps I (page_remove d va)"
  unfolding page_remove_def tlb_invalidate_def Let_def by (intro hoare_rules)

lemma keeps_page_insert [hoare_rules]: "mem_frame I \<Longrightarrow> keeps I (page_insert d p va perm)"
  unfolding page_insert_def by (intro hoare_rules)

lemma keeps_unmap_user: "mem_frame I \<Longrightarrow> keeps I (unmap_user e)"
  unfolding unmap_user_def unmap_table_def Let_def by (intro hoare_rules)

text \<open>
  \<open>winds_down s s'\<close>: between the two states environments have only died: identity, kind and
  parent are the same, and a status changed only to DYING or FREE.
\<close>

definition winds_down :: "kst \<Rightarrow> kst \<Rightarrow> bool" where
  "winds_down s s' \<longleftrightarrow> (\<forall>x. env_id (envs s' x) = env_id (envs s x) \<and> env_type (envs s' x) = env_type (envs s x)
     \<and> env_parent_id (envs s' x) = env_parent_id (envs s x)
     \<and> (env_status (envs s' x) = env_status (envs s x) \<or> env_status (envs s' x) \<in> {ENV_FREE, ENV_DYING}))"

lemma winds_down_refl [simp]: "winds_down s s"
  by (simp add: winds_down_def)

lemma winds_down_trans: "winds_down s s' \<Longrightarrow> winds_down s' s'' \<Longrightarrow> winds_down s s''"
  unfolding winds_down_def by (metis insert_iff)

lemma winds_down_envs: "envs s' = envs s \<Longrightarrow> winds_down s s'"
  by (simp add: winds_down_def)

lemma winds_down_dead:
  "winds_down s s' \<Longrightarrow> env_status (envs s x) \<in> {ENV_FREE, ENV_DYING} \<Longrightarrow> env_status (envs s' x) \<in> {ENV_FREE, ENV_DYING}"
  unfolding winds_down_def by metis

text \<open>\<open>dies_as e st s s'\<close>: the status of \<open>e\<close> has become \<open>st\<close>, no other status has changed, and the CPU
  still has the same current environment.\<close>

definition dies_as :: "nat \<Rightarrow> env_status_t \<Rightarrow> kst \<Rightarrow> kst \<Rightarrow> bool" where
  "dies_as e st s s' \<longleftrightarrow> winds_down s s' \<and> curenv s' = curenv s
     \<and> (\<forall>x. env_status (envs s' x) = (if x = e then st else env_status (envs s x)))"

lemma keeps_same_envs:
  assumes "\<And>I. mem_frame I \<Longrightarrow> keeps I m" "m s = (r, s')"
  shows "envs s' = envs s \<and> curenv s' = curenv s"
  using keeps_result [OF assms(1) [OF mem_frames(2)] _ assms(2), of "envs s" "curenv s"] by (simp add: envs_cur_are_def)

lemma release_pgdir_same:
  "release_pgdir e s = (Inr u, s') \<Longrightarrow> winds_down s s' \<and> curenv s' = curenv s
     \<and> (\<forall>x. env_status (envs s' x) = env_status (envs s x))"
proof -
  assume run: "release_pgdir e s = (Inr u, s')"
  let ?s1 = "upd_env e (\<lambda>v. v\<lparr>env_pgdir := None\<rparr>) s"
  obtain d where "bnd (pa2page (page2pa d)) page_decref ?s1 = (Inr u, s')"
    using run by (cases "env_pgdir (envs s e)") (auto simp: release_pgdir_def PADDR_def bnd_def thn_def panic_def)
  then have "envs s' = envs ?s1 \<and> curenv s' = curenv ?s1" by (rule keeps_same_envs [rotated]) (intro hoare_rules)
  then show ?thesis by (simp add: winds_down_def)
qed

lemma release_dies:
  assumes "thn (release_pgdir e) (release_slot e) s = (Inr u, s')"
  shows "dies_as e ENV_FREE s s'"
proof -
  obtain s1 where s1: "release_pgdir e s = (Inr (), s1)" "release_slot e s1 = (Inr u, s')"
    using assms by (auto elim!: thn_returns)
  have "dies_as e ENV_FREE s1 s'"
    using s1(2) by (auto simp: release_slot_def dies_as_def winds_down_def env_push_def curenv_def)
  then show ?thesis
    using release_pgdir_same [OF s1(1)] winds_down_trans [of s s1 s'] by (simp add: dies_as_def)
qed

lemma dies_as_envs: "dies_as e st s1 s' \<Longrightarrow> envs s1 = envs s \<Longrightarrow> curenv s1 = curenv s \<Longrightarrow> dies_as e st s s'"
  using winds_down_trans [OF winds_down_envs [of s1 s]] by (simp add: dies_as_def)

lemma env_free_with_dies:
  assumes run: "env_free_with destroy e s = (Inr u, s')"
  shows "\<exists>s1. (if env_type (envs s e) = ENV_TYPE_THREAD then s1 = s else destroy_threads destroy e s = (Inr (), s1))
    \<and> dies_as e ENV_FREE s1 s'"
proof -
  obtain s1 where s1: "whenM (env_type (envs s e) \<noteq> ENV_TYPE_THREAD) (destroy_threads destroy e) s = (Inr (), s1)"
    and r1: "thn (bnd (gets (\<lambda>s. curenv s = Some e)) (\<lambda>b. whenM b (bnd (gets kern_pgdir) lcr3)))
     (thn (bnd (gets (\<lambda>s. (cur_id s, env_id (envs s e)))) (\<lambda>(cid, eid).
            cprintf ''[%08x] free env %08x\<newline>'' [cid, eid]))
     (bnd (gets (\<lambda>s. env_type (envs s e))) (\<lambda>ty.
     if ty = ENV_TYPE_THREAD then thn (release_pgdir e) (release_slot e)
     else thn (unmap_user e) (thn (release_pgdir e) (release_slot e))))) s1 = (Inr u, s')"
    using run unfolding env_free_with_def bnd_gets by (rule thn_returns) auto
  obtain s2 where s2: "envs s2 = envs s1" "curenv s2 = curenv s1" and r2: "(if env_type (envs s2 e) = ENV_TYPE_THREAD
      then thn (release_pgdir e) (release_slot e)
      else thn (unmap_user e) (thn (release_pgdir e) (release_slot e))) s2 = (Inr u, s')"
  proof (rule thn_returns [OF r1])
    fix x sa
    assume a: "bnd (gets (\<lambda>s. curenv s = Some e)) (\<lambda>b. whenM b (bnd (gets kern_pgdir) lcr3)) s1 = (Inr x, sa)"
      and r: "thn (bnd (gets (\<lambda>s. (cur_id s, env_id (envs s e)))) (\<lambda>(cid, eid).
            cprintf ''[%08x] free env %08x\<newline>'' [cid, eid]))
        (bnd (gets (\<lambda>s. env_type (envs s e))) (\<lambda>ty. if ty = ENV_TYPE_THREAD
          then thn (release_pgdir e) (release_slot e)
          else thn (unmap_user e) (thn (release_pgdir e) (release_slot e)))) sa = (Inr u, s')"
    have "envs sa = envs s1 \<and> curenv sa = curenv s1" using keeps_same_envs [where m = "bnd (gets (\<lambda>s. curenv s = Some e)) (\<lambda>b. whenM b (bnd (gets kern_pgdir) lcr3))", OF _ a]
      by (simp add: hoare_rules)
    then show thesis
      using r that [of "sa\<lparr>trace := Cprintf ''[%08x] free env %08x\<newline>'' [cur_id sa, env_id (envs sa e)] # trace sa\<rparr>"]
      by (auto elim!: thn_returns)
  qed
  have "dies_as e ENV_FREE s2 s'"
  proof (cases "env_type (envs s2 e) = ENV_TYPE_THREAD")
    case True then show ?thesis using r2 release_dies by simp
  next
    case False
    then obtain s3 where s3: "unmap_user e s2 = (Inr (), s3)" "thn (release_pgdir e) (release_slot e) s3 = (Inr u, s')"
      using r2 by (simp only: if_False) (erule thn_returns, simp)
    have "envs s3 = envs s2 \<and> curenv s3 = curenv s2" using keeps_same_envs [OF keeps_unmap_user s3(1)] .
    then show ?thesis using dies_as_envs [OF release_dies [OF s3(2)]] by simp
  qed
  from dies_as_envs [OF this s2] have "dies_as e ENV_FREE s1 s'" .
  then show ?thesis using s1 by (auto simp: whenM_def split: if_splits)
qed

text \<open>What becomes of a thread that is destroyed: only one that another CPU is running lives on, as
  dying.\<close>

definition death_of :: "kst \<Rightarrow> nat \<Rightarrow> env_status_t" where
  "death_of s t = (if env_status (envs s t) = ENV_RUNNING \<and> curenv s \<noteq> Some t then ENV_DYING else ENV_FREE)"

lemma destroy_thread_dies:
  assumes "env_destroy_with thread_free t s = (Inr u, s')" "env_type (envs s t) = ENV_TYPE_THREAD"
  shows "dies_as t (death_of s t) s s'"
proof (cases "env_status (envs s t) = ENV_RUNNING \<and> curenv s \<noteq> Some t")
  case True
  then show ?thesis using assms(1) by (auto simp: env_destroy_with_def dies_as_def death_of_def winds_down_def)
next
  case False
  then obtain s1 where s1: "thread_free t s = (Inr (), s1)"
    and r: "whenM (curenv s1 = Some t) (thn (modify (set_curenv None)) sched_yield) s1 = (Inr u, s')"
    using assms(1) by (auto simp: env_destroy_with_def elim!: thn_returns)
  have "noreturn (thn (modify (set_curenv None)) sched_yield)" by (rule noreturn_thn noreturn_sched_yield)+
  then have "thn (modify (set_curenv None)) sched_yield s1 \<noteq> (Inr u, s')"
    unfolding noreturn_def by (metis Inl_Inr_False prod.inject)
  then have "s' = s1" using r by (cases "curenv s1 = Some t") simp_all
  moreover have "dies_as t ENV_FREE s s1"
    using env_free_with_dies [OF s1 [unfolded thread_free_def]] assms(2) by simp
  moreover have "death_of s t = ENV_FREE" using False by (auto simp: death_of_def)
  ultimately show ?thesis by simp
qed

text \<open>The loop over the threads.\<close>

lemma destroy_threads_die:
  assumes "for_each ts (\<lambda>t. bnd (gets (\<lambda>s. is_thread_of s e t))
      (\<lambda>b. whenM b (env_destroy_with thread_free t))) s = (Inr u, s')" "distinct ts"
  shows "winds_down s s' \<and> curenv s' = curenv s \<and> (\<forall>x. env_status (envs s' x) =
    (if x \<in> set ts \<and> is_thread_of s e x then death_of s x else env_status (envs s x)))"
  using assms
proof (induction ts arbitrary: s)
  case Nil then show ?case by simp
next
  case (Cons t ts)
  obtain s1 where s1: "whenM (is_thread_of s e t) (env_destroy_with thread_free t) s = (Inr (), s1)"
    and r: "for_each ts (\<lambda>t. bnd (gets (\<lambda>s. is_thread_of s e t))
      (\<lambda>b. whenM b (env_destroy_with thread_free t))) s1 = (Inr u, s')"
    using Cons.prems(1) unfolding for_each.simps by (rule thn_returns) auto
  have w: "winds_down s s1" "curenv s1 = curenv s"
    "env_status (envs s1 x) = (if x = t \<and> is_thread_of s e t then death_of s t else env_status (envs s x))" for x
    using s1 destroy_thread_dies [of t s "()" s1]
    by (auto simp: whenM_def dies_as_def is_thread_of_def split: if_splits)
  have same: "is_thread_of s1 e x = is_thread_of s e x" "death_of s1 x = death_of s x" if "x \<noteq> t" for x
    using w(1) w(2) w(3) [of x] that by (simp_all add: is_thread_of_def death_of_def winds_down_def)
  have "t \<notin> set ts" "distinct ts" using Cons.prems(2) by simp_all
  note ih = Cons.IH [OF r this(2)]
  have "env_status (envs s' x) = (if x \<in> set (t # ts) \<and> is_thread_of s e x then death_of s x else env_status (envs s x))" for x
    using ih w(3) [of x] same [of x] \<open>t \<notin> set ts\<close> by (cases "x = t") simp_all
  then show ?case using ih w(2) winds_down_trans [OF w(1), of s'] by simp
qed

section \<open>Executing the parts\<close>

lemma NENV_Cons2: "[0..<NENV] = 0 # 1 # [2..<NENV]"
proof -
  have "0 < NENV" "Suc 0 < NENV" by (simp_all add: NENV_def)
  then show ?thesis by (simp only: upt_conv_Cons One_nat_def numeral_2_eq_2)
qed

lemma for_each_skip: "(\<And>x. x \<in> set xs \<Longrightarrow> f x s = (Inr (), s)) \<Longrightarrow> for_each xs f s = (Inr (), s)"
  by (induction xs) (simp_all add: thn_Inr)

lemma thn_assoc: "thn (thn m n) k = thn m (thn n k)"
  by (simp add: thn_def bnd_assoc)

lemma for_each_append: "for_each (xs @ ys) f = thn (for_each xs f) (for_each ys f)"
  by (induction xs) (simp_all add: thn_assoc del: ret_exec)

text \<open>The table depends on the links, the ids and on which slots are free only.\<close>

lemma env_table_fields:
  assumes "\<And>x. env_link (envs s' x) = env_link (envs s x)" "\<And>x. env_id (envs s' x) = env_id (envs s x)"
    "\<And>x. env_status (envs s' x) = ENV_FREE \<longleftrightarrow> env_status (envs s x) = ENV_FREE"
    "env_free_list s' = env_free_list s"
  shows "env_table s' xs = env_table s xs"
  by (simp add: env_table_def assms)

definition release_post :: "nat \<Rightarrow> nat \<Rightarrow> kst \<Rightarrow> kst" where
  "release_post e d s = env_push e (upd_env e (\<lambda>v. v\<lparr>env_status := ENV_FREE\<rparr>)
     (decref_post d (upd_env e (\<lambda>v. v\<lparr>env_pgdir := None\<rparr>) s)))"

lemma release_exec:
  assumes "env_pgdir (envs s e) = Some d" "d < npages s" "d < 2 ^ 20" "pp_link (pages s d) = None"
  shows "thn (release_pgdir e) (release_slot e) s = (Inr (), release_post e d s)"
proof -
  let ?s = "upd_env e (\<lambda>v. v\<lparr>env_pgdir := None\<rparr>) s"
  have "pa2page (page2pa d) ?s = (Inr d, ?s)"
    using pa2page_exec [of "page2pa d" ?s] assms(2,3) by simp
  moreover have "page_decref d ?s = (Inr (), decref_post d ?s)" using page_decref_exec [of ?s d] assms(4) by simp
  ultimately have "release_pgdir e s = (Inr (), decref_post d ?s)"
    using assms(1) by (simp add: release_pgdir_def bnd_def thn_def)
  then show ?thesis by (simp add: thn_Inr release_slot_def release_post_def)
qed

lemma unmap_user_empty:
  assumes "env_pgdir (envs s e) = Some d" "\<forall>i < 955. pmem s d i AND 1 = 0"
  shows "unmap_user e s = (Inr (), s)"
  unfolding unmap_user_def by (rule for_each_skip) (use assms in \<open>simp add: bnd_def\<close>)

lemma destroy_threads_none:
  "\<forall>t < NENV. \<not> is_thread_of s e t \<Longrightarrow> destroy_threads f e s = (Inr (), s)"
  unfolding destroy_threads_def by (rule for_each_skip) simp

text \<open>The trace a death leaves before the memory goes.\<close>

definition death_note :: "nat \<Rightarrow> kst \<Rightarrow> kst" where
  "death_note e s = (let s1 = (if curenv s = Some e then s\<lparr>trace := Lcr3 (kern_pgdir s) # trace s\<rparr> else s)
     in s1\<lparr>trace := Cprintf ''[%08x] free env %08x\<newline>'' [cur_id s1, env_id (envs s1 e)] # trace s1\<rparr>)"

lemma death_note_simps [simp]:
  "envs (death_note e s) = envs s" "pages (death_note e s) = pages s" "npages (death_note e s) = npages s"
  "pmem (death_note e s) = pmem s" "curenv (death_note e s) = curenv s" "page_free_list (death_note e s) = page_free_list s"
  "env_free_list (death_note e s) = env_free_list s" "klock (death_note e s) = klock s"
  "cpunum (death_note e s) = cpunum s"
  by (simp_all add: death_note_def)

lemma env_free_with_exec:
  "env_free_with destroy e s = thn (whenM (env_type (envs s e) \<noteq> ENV_TYPE_THREAD) (destroy_threads destroy e))
     (\<lambda>s1. (if env_type (envs s1 e) = ENV_TYPE_THREAD then thn (release_pgdir e) (release_slot e)
        else thn (unmap_user e) (thn (release_pgdir e) (release_slot e))) (death_note e s1)) s"
proof -
  have note_it: "thn (bnd (gets (\<lambda>s. curenv s = Some e)) (\<lambda>b. whenM b (bnd (gets kern_pgdir) lcr3)))
     (thn (bnd (gets (\<lambda>s. (cur_id s, env_id (envs s e)))) (\<lambda>(cid, eid).
            cprintf ''[%08x] free env %08x\<newline>'' [cid, eid])) m) s1 = m (death_note e s1)" for m :: "unit K" and s1
    by (cases "curenv s1 = Some e") (simp_all add: thn_Inr death_note_def)
  show ?thesis unfolding env_free_with_def
    by (rule bnd_gets [THEN trans], rule arg_cong [where f = "\<lambda>n. thn (whenM (env_type (envs s e) \<noteq> ENV_TYPE_THREAD) (destroy_threads destroy e)) n s"],
      rule ext, subst note_it) simp
qed

lemma thread_free_exec:
  assumes "env_type (envs s e) = ENV_TYPE_THREAD" "env_pgdir (envs s e) = Some d" "d < npages s" "d < 2 ^ 20"
    "pp_link (pages s d) = None"
  shows "env_free_with destroy e s = (Inr (), release_post e d (death_note e s))"
  using assms release_exec [of "death_note e s" e d] by (simp add: env_free_with_exec)

lemma process_free_exec:
  assumes "env_type (envs s e) \<noteq> ENV_TYPE_THREAD" "destroy_threads destroy e s = (Inr (), s1)"
    "env_type (envs s1 e) \<noteq> ENV_TYPE_THREAD" "env_pgdir (envs s1 e) = Some d" "d < npages s1" "d < 2 ^ 20"
    "pp_link (pages s1 d) = None" "\<forall>i < 955. pmem s1 d i AND 1 = 0"
  shows "env_free_with destroy e s = (Inr (), release_post e d (death_note e s1))"
  using assms release_exec [of "death_note e s1" e d] unmap_user_empty [of "death_note e s1" e d]
  by (simp add: env_free_with_exec thn_Inr)

lemma env_table_release:
  assumes "env_table s xs" "e < NENV" "e \<notin> set xs"
  shows "env_table (release_post e d s) (e # xs)"
proof -
  have "list_rep (env_links (env_push e s)) (env_free_list (env_push e s)) (e # xs)"
    using assms by (intro efl.push_rep) (auto simp: env_table_def)
  then have rep: "flist (env_links s) (env_free_list s) xs" "distinct (e # xs)"
    using assms by (auto simp: list_rep_def env_table_def)
  have "flist (env_links (release_post e d s)) (env_free_list s) xs = flist (env_links s) (env_free_list s) xs"
    by (rule flist_cong) (use assms(3) in \<open>auto simp: release_post_def env_push_def\<close>)
  then show ?thesis
    using assms rep by (auto simp: env_table_def list_rep_def release_post_def env_push_def)
qed

section \<open>Properties\<close>


text \<open>A process (slot 0) and its two threads (slots 1 and 2), sharing the empty directory of frame 5;
  another CPU is running the second one.\<close>

definition family_kst :: kst where
  "family_kst = zero_kst\<lparr>npages := 8, pages := (\<lambda>_. \<lparr>pp_link = None, pp_ref = 3\<rparr>),
     envs := (\<lambda>_. zero_env)(0 := ready_env 4096 5 8,
       1 := (ready_env 4097 5 8)\<lparr>env_type := ENV_TYPE_THREAD, env_parent_id := 4096\<rparr>,
       2 := (ready_env 4098 5 8)\<lparr>env_type := ENV_TYPE_THREAD, env_parent_id := 4096, env_status := ENV_RUNNING\<rparr>)\<rparr>"

lemma family_kst_simps [simp]:
  "npages family_kst = 8" "pages family_kst = (\<lambda>_. \<lparr>pp_link = None, pp_ref = 3\<rparr>)" "curenv family_kst = None"
  "pmem family_kst = (\<lambda>_ _. 0)" "env_type (envs family_kst 0) = ENV_TYPE_USER"
  "env_type (envs family_kst (Suc 0)) = ENV_TYPE_THREAD" "env_pgdir (envs family_kst 0) = Some 5"
  "env_pgdir (envs family_kst (Suc 0)) = Some 5" "env_status (envs family_kst (Suc 0)) = ENV_RUNNABLE"
  "env_type (envs family_kst 2) = ENV_TYPE_THREAD" "env_status (envs family_kst 2) = ENV_RUNNING"
  "env_parent_id (envs family_kst 2) = 4096" "env_id (envs family_kst 0) = 4096"
  "is_thread_of family_kst 0 t \<longleftrightarrow> t = 1 \<or> t = 2"
  by (auto simp: family_kst_def zero_kst_def curenv_def ready_env_def zero_env_def is_thread_of_def)

definition family_post :: kst where
  "family_post = upd_env 2 (\<lambda>v. v\<lparr>env_status := ENV_DYING\<rparr>) (release_post 1 5 (death_note 1 family_kst))"

lemma NENV_Cons3: "[0..<NENV] = [0] @ [1] @ [2] @ [3..<NENV]"
proof -
  have "2 < NENV" by (simp add: NENV_def)
  then have "[2..<NENV] = 2 # [3..<NENV]" by (simp add: upt_conv_Cons numeral_3_eq_3 numeral_2_eq_2)
  then show ?thesis by (simp only: NENV_Cons2 append.simps)
qed

lemma family_destroy: "destroy_threads (env_destroy_with thread_free) 0 family_kst = (Inr (), family_post)"
proof -
  let ?f = "\<lambda>t. bnd (gets (\<lambda>s. is_thread_of s 0 t)) (\<lambda>b. whenM b (env_destroy_with thread_free t))"
  let ?s = "release_post 1 5 (death_note 1 family_kst)"
  have "env_free_with (\<lambda>_. ret ()) 1 family_kst = (Inr (), ?s)"
    by (rule thread_free_exec) simp_all
  then have one: "?f 1 family_kst = (Inr (), ?s)"
    by (simp add: env_destroy_with_def thread_free_def thn_Inr) (simp add: release_post_def env_push_def)
  have e: "envs ?s 2 = envs family_kst 2" "envs ?s 0 = envs family_kst 0" "curenv ?s = None"
    by (simp_all add: release_post_def env_push_def)
  then have "is_thread_of ?s 0 2" by (simp add: is_thread_of_def)
  then have two: "?f 2 ?s = (Inr (), family_post)"
    using e by (simp add: env_destroy_with_def family_post_def)
  have "\<not> is_thread_of family_post 0 t" if "t \<noteq> 0" "t \<noteq> 2" for t
    using that
    by (cases "t = 1") (auto simp: is_thread_of_def release_post_def env_push_def family_kst_def ready_env_def zero_env_def
      zero_kst_def family_post_def)
  then have "for_each [3..<NENV] ?f family_post = (Inr (), family_post)" by (intro for_each_skip) simp
  then show ?thesis
    using one two unfolding destroy_threads_def NENV_Cons3 for_each_append by (simp add: thn_Inr)
qed


text \<open>The death of a thread leaves the address space it shares alone: no word of memory changes, the
  page directory loses the one reference the thread held, and the slot is the next one to be allocated.\<close>

theorem thread_free_keeps_memory:
  assumes "env_type (envs s e) = ENV_TYPE_THREAD" "env_pgdir (envs s e) = Some d" "d < npages s" "d < 2 ^ 20"
    "pp_link (pages s d) = None" and tab: "env_table s xs" "e < NENV" "e \<notin> set xs"
  shows "\<exists>s'. env_free e s = (Inr (), s') \<and> pmem s' = pmem s \<and> pp_ref (pages s' d) = pp_ref (pages s d) - 1
    \<and> (\<forall>p. p \<noteq> d \<longrightarrow> pages s' p = pages s p) \<and> env_table s' (e # xs)
    \<and> (\<forall>x. x \<noteq> e \<longrightarrow> envs s' x = envs s x)"
proof -
  have "env_table (death_note e s) xs" using tab(1) env_table_cong [of "death_note e s" s xs] by simp
  from env_table_release [OF this tab(2,3), of d] show ?thesis
    using thread_free_exec [OF assms(1-5), of "env_destroy_with thread_free"]
    by (simp add: env_free_def) (simp add: release_post_def env_push_def)
qed

theorem thread_free_keeps_memory_witness:
  "pp_ref (pages (snd (env_free 1 (upd_env 1 (\<lambda>v. v\<lparr>env_type := ENV_TYPE_THREAD\<rparr>) (alloc_post 1 5 4096 (alloc_post 0 6 0 boot_kst))))) 5) = 0"
proof -
  let ?s = "upd_env 1 (\<lambda>v. v\<lparr>env_type := ENV_TYPE_THREAD\<rparr>) (alloc_post 1 5 4096 (alloc_post 0 6 0 boot_kst))"
  have "env_table (alloc_post 1 5 4096 (alloc_post 0 6 0 boot_kst)) [2..<NENV]"
    by (intro env_table_alloc) (rule boot_kst_wf(1) [unfolded NENV_Cons2])
  then have "env_table ?s [2..<NENV]" by (subst env_table_fields [where s = "alloc_post 1 5 4096 (alloc_post 0 6 0 boot_kst)"]) auto
  moreover have "pp_ref (pages ?s 5) = 1" "pp_link (pages ?s 5) = None"
    using boot_kst_wf(2) by (auto simp: setup_post_def free_pages_def)
  ultimately show ?thesis
    using thread_free_keeps_memory [of ?s 1 5 "[2..<NENV]"] by (auto simp: init_env_def NENV_def)
qed

end
