(* ===== verification/Syscall.thy ===== *)
theory Syscall
  imports EnvFree
begin

text \<open>
  The system calls (kern/syscall.c) and their dispatcher. A call returns the 32-bit value the
  dispatcher puts in the caller's eax; an error code is \<open>err e\<close>. A call that gives the processor to
  another environment does not return.
\<close>

section \<open>Helpers\<close>

definition check_perm :: "u32 \<Rightarrow> u32 option \<Rightarrow> u32" where
  "check_perm perm pte =
     (if perm AND NOT PTE_SYSCALL \<noteq> 0 then err E_INVAL
      else if perm AND PTE_P = 0 \<or> perm AND PTE_U = 0 then err E_INVAL
      else case pte of
          Some w \<Rightarrow> if w \<noteq> 0 \<and> w AND PTE_P = 0 then err E_INVAL
                     else if perm AND PTE_W \<noteq> 0 \<and> w AND PTE_W = 0 then err E_INVAL else 0
        | None \<Rightarrow> 0)"

definition env_pgdir_of :: "nat \<Rightarrow> nat option K" where
  "env_pgdir_of e = gets (\<lambda>s. env_pgdir (envs s e))"

definition env_page_alloc :: "nat \<Rightarrow> u32 \<Rightarrow> u32 \<Rightarrow> u32 K" where
  "env_page_alloc e va perm = (let r = check_perm perm None in
     if r <s 0 then ret r
     else bnd (page_alloc ALLOC_ZERO) (\<lambda>pg. case pg of
         None \<Rightarrow> ret (err E_NO_MEM)
       | Some p \<Rightarrow> bnd (env_pgdir_of e) (\<lambda>d. page_insert d p va perm)))"

definition env_page_map :: "nat \<Rightarrow> u32 \<Rightarrow> nat \<Rightarrow> u32 \<Rightarrow> u32 \<Rightarrow> u32 K" where
  "env_page_map srcenv srcva dstenv dstva perm =
     bnd (env_pgdir_of srcenv) (\<lambda>sd. bnd (page_lookup sd srcva) (\<lambda>found. case found of
       None \<Rightarrow> ret (err E_INVAL)
     | Some (page, (t, i)) \<Rightarrow> bnd (load_word t i) (\<lambda>w.
         if (perm AND PTE_W) AND NOT (PTE_W AND w) \<noteq> 0 then ret (err E_INVAL)
         else bnd (env_pgdir_of dstenv) (\<lambda>dd. page_insert dd page dstva perm))))"

definition on_env :: "u32 \<Rightarrow> bool \<Rightarrow> (nat \<Rightarrow> u32 K) \<Rightarrow> u32 K" where
  "on_env envid checkperm f = bnd (envid2env envid checkperm) (\<lambda>r. case r of
       Inl e \<Rightarrow> ret e | Inr p \<Rightarrow> bnd (deref p) f)"

definition bad_va :: "u32 \<Rightarrow> bool" where
  "bad_va va \<longleftrightarrow> va \<ge> UTOP \<or> va mod PGSIZE \<noteq> 0"

section \<open>The calls\<close>

definition sys_cputs :: "u32 \<Rightarrow> u32 \<Rightarrow> unit K" where
  "sys_cputs str len = bnd the_curenv (\<lambda>c.
     thn (user_mem_assert c str len (PTE_P OR PTE_W OR PTE_U))
     (cprintf ''%.*s'' [len, str]))"

definition sys_cgetc :: "u32 K" where
  "sys_cgetc = bnd (gets (\<lambda>s. cons_getc (con s))) (\<lambda>r. case r of
       None \<Rightarrow> exit_with Spin
     | Some (c, con') \<Rightarrow> thn (modify (\<lambda>s. s\<lparr>con := con'\<rparr>)) (ret (ucast c)))"

definition sys_getenvid :: "u32 K" where
  "sys_getenvid = bnd the_curenv (\<lambda>c. gets (\<lambda>s. env_id (envs s c)))"

definition sys_env_destroy :: "u32 \<Rightarrow> u32 K" where
  "sys_env_destroy envid = on_env envid True (\<lambda>e.
     bnd the_curenv (\<lambda>c.
     thn (bnd (gets (\<lambda>s. (env_id (envs s c), env_id (envs s e)))) (\<lambda>(cid, eid).
          if e = c then cprintf ''[%08x] exiting gracefully\<newline>'' [cid]
          else cprintf ''[%08x] destroying %08x\<newline>'' [cid, eid]))
     (thn (env_destroy e) (ret 0))))"

definition sys_yield :: "'a K" where
  "sys_yield = sched_yield"

definition sys_exofork :: "u32 K" where
  "sys_exofork = bnd the_curenv (\<lambda>c. bnd (gets (\<lambda>s. env_id (envs s c))) (\<lambda>cid.
     bnd (env_alloc cid) (\<lambda>r. case r of
       Inl e \<Rightarrow> ret e
     | Inr n \<Rightarrow>
         thn (modify (upd_env n (\<lambda>v. v\<lparr>env_status := ENV_NOT_RUNNABLE\<rparr>)))
         (thn (modify (\<lambda>s. upd_env n (\<lambda>v. v\<lparr>env_tf := env_tf (envs s c)\<rparr>) s))
         (thn (modify (upd_env n (\<lambda>v. v\<lparr>env_tf := set_eax 0 (env_tf v)\<rparr>)))
         (thn (modify (\<lambda>s. upd_env n (\<lambda>v. v\<lparr>env_priority := env_priority (envs s c)\<rparr>) s))
         (gets (\<lambda>s. env_id (envs s n)))))))))"

definition status_arg :: "u32 \<Rightarrow> env_status_t option" where
  "status_arg n = (if n = status_num ENV_RUNNABLE then Some ENV_RUNNABLE
     else if n = status_num ENV_NOT_RUNNABLE then Some ENV_NOT_RUNNABLE else None)"

definition sys_env_set_status :: "u32 \<Rightarrow> u32 \<Rightarrow> u32 K" where
  "sys_env_set_status envid status = (case status_arg status of
       None \<Rightarrow> ret (err E_INVAL)
     | Some st \<Rightarrow> on_env envid True (\<lambda>e.
         thn (modify (upd_env e (\<lambda>v. v\<lparr>env_status := st\<rparr>))) (ret 0)))"

definition sys_env_set_pgfault_upcall :: "u32 \<Rightarrow> u32 \<Rightarrow> u32 K" where
  "sys_env_set_pgfault_upcall envid func = on_env envid True (\<lambda>e.
     thn (user_mem_assert e func PGSIZE (PTE_P OR PTE_U))
     (thn (modify (upd_env e (\<lambda>v. v\<lparr>env_pgfault_upcall := func\<rparr>))) (ret 0)))"

definition sys_page_alloc :: "u32 \<Rightarrow> u32 \<Rightarrow> u32 \<Rightarrow> u32 K" where
  "sys_page_alloc envid va perm =
     (if bad_va va then ret (err E_INVAL)
      else on_env envid True (\<lambda>e. env_page_alloc e va (perm OR PTE_U OR PTE_P)))"

definition sys_page_map :: "u32 \<Rightarrow> u32 \<Rightarrow> u32 \<Rightarrow> u32 \<Rightarrow> u32 \<Rightarrow> u32 K" where
  "sys_page_map srcenvid srcva dstenvid dstva perm =
     (if bad_va srcva then ret (err E_INVAL)
      else if bad_va dstva then ret (err E_INVAL)
      else on_env srcenvid True (\<lambda>srcenv. on_env dstenvid True (\<lambda>dstenv.
        env_page_map srcenv srcva dstenv dstva (PTE_P OR PTE_U OR perm))))"

definition sys_page_unmap :: "u32 \<Rightarrow> u32 \<Rightarrow> u32 K" where
  "sys_page_unmap envid va =
     (if bad_va va then ret (err E_INVAL)
      else on_env envid True (\<lambda>e. bnd (env_pgdir_of e) (\<lambda>d. thn (page_remove d va) (ret 0))))"

text \<open>The label \<open>bail\<close> of sys\_ipc\_try\_send: the value is delivered.\<close>

definition ipc_deliver :: "nat \<Rightarrow> u32 \<Rightarrow> u32 K" where
  "ipc_deliver dst val = bnd the_curenv (\<lambda>c. bnd (gets (\<lambda>s. env_id (envs s c))) (\<lambda>cid.
     thn (modify (upd_env dst (\<lambda>v. v\<lparr>env_ipc_from := cid, env_ipc_recving := False,
            env_ipc_value := val, env_tf := set_eax 0 (env_tf v), env_status := ENV_RUNNABLE\<rparr>)))
     (ret 0)))"

definition sys_ipc_try_send :: "u32 \<Rightarrow> u32 \<Rightarrow> u32 \<Rightarrow> u32 \<Rightarrow> u32 K" where
  "sys_ipc_try_send envid val srcva perm = on_env envid False (\<lambda>dst.
     bnd (gets (\<lambda>s. envs s dst)) (\<lambda>dv.
     if \<not> env_ipc_recving dv then ret (err E_IPC_NOT_RECV)
     else if srcva \<ge> UTOP
       then thn (modify (upd_env dst (\<lambda>v. v\<lparr>env_ipc_perm := 0\<rparr>))) (ipc_deliver dst val)
     else if srcva mod PGSIZE \<noteq> 0 then ret (err E_INVAL)
     else bnd the_curenv (\<lambda>c.
       bnd (env_pgdir_of c) (\<lambda>cd.
       bnd (page_lookup cd srcva) (\<lambda>found.
       bnd (case found of Some (_, p) \<Rightarrow> ret p | None \<Rightarrow> gets stack_pte) (\<lambda>(t, i).
       bnd (load_word t i) (\<lambda>w.
       if w \<noteq> 0 \<and> w AND PTE_P = 0 then ret (err E_INVAL)
       else if perm AND PTE_W \<noteq> 0 \<and> w AND PTE_W = 0 then ret (err E_INVAL)
       else let perm' = perm OR PTE_U OR PTE_P in
         if env_ipc_dstva dv \<noteq> 0
         then bnd (env_page_alloc dst (env_ipc_dstva dv) perm') (\<lambda>r.
              if r <s 0 then ret r
              else bnd (env_page_map c srcva dst (env_ipc_dstva dv) perm') (\<lambda>r.
              if r <s 0 then ret r
              else thn (modify (upd_env dst (\<lambda>v. v\<lparr>env_ipc_perm := perm'\<rparr>))) (ipc_deliver dst val)))
         else ipc_deliver dst val)))))))"

definition sys_ipc_recv :: "u32 \<Rightarrow> u32 K" where
  "sys_ipc_recv dstva = bnd the_curenv (\<lambda>c.
     thn (modify (upd_env c (\<lambda>v. v\<lparr>env_ipc_recving := True\<rparr>)))
     (if bad_va dstva then ret (err E_INVAL)
      else thn (modify (upd_env c (\<lambda>v. v\<lparr>env_ipc_dstva := dstva, env_status := ENV_NOT_RUNNABLE\<rparr>)))
          (thn (sys_yield :: unit K) (panic ''sys_ipc_recv should not return!''))))"

definition sys_sleep :: "u32 \<Rightarrow> u32 K" where
  "sys_sleep n =
     (if n = 0 then ret (err E_INVAL)
      else bnd the_curenv (\<lambda>c.
        thn (modify (\<lambda>s. upd_env c (\<lambda>v. v\<lparr>env_sleep_until := ticks s + n,
               env_status := ENV_NOT_RUNNABLE, env_tf := set_eax 0 (env_tf v)\<rparr>) s))
        (thn (sched_yield :: unit K) (panic ''sys_sleep should not return!''))))"

definition sys_getpriority :: "u32 \<Rightarrow> u32 K" where
  "sys_getpriority envid = on_env envid True (\<lambda>e. gets (\<lambda>s. env_priority (envs s e)))"

definition sys_setpriority :: "u32 \<Rightarrow> u32 \<Rightarrow> u32 K" where
  "sys_setpriority envid priority =
     (if priority > ENV_PRIORITY_MAX then ret (err E_INVAL)
      else on_env envid True (\<lambda>e.
        bnd (gets (\<lambda>s. curenv s = Some e \<and> priority > env_priority (envs s e))) (\<lambda>raise.
        if raise then ret (err E_INVAL)
        else thn (modify (upd_env e (\<lambda>v. v\<lparr>env_priority := priority\<rparr>))) (ret 0))))"

definition thread_owner :: "Env \<Rightarrow> u32" where
  "thread_owner v = (if env_type v = ENV_TYPE_THREAD then env_parent_id v else env_id v)"

definition sys_thread_create :: "u32 \<Rightarrow> u32 \<Rightarrow> u32 K" where
  "sys_thread_create entry ustack_top =
     (if entry \<ge> UTOP \<or> ustack_top > UTOP \<or> ustack_top = 0 then ret (err E_INVAL)
      else bnd the_curenv (\<lambda>c. bnd (gets (\<lambda>s. thread_owner (envs s c))) (\<lambda>owner.
        bnd (env_alloc owner) (\<lambda>r. case r of
          Inl e \<Rightarrow> ret e
        | Inr t \<Rightarrow>
          bnd (bnd (bnd (env_pgdir_of t) PADDR) pa2page) (\<lambda>pp.
          thn (modify (upd_env t (\<lambda>v. v\<lparr>env_pgdir := None\<rparr>)))
          (thn (page_decref pp)
          (thn (modify (\<lambda>s. upd_env t (\<lambda>v. v\<lparr>env_pgdir := env_pgdir (envs s c)\<rparr>) s))
          (bnd (bnd (bnd (env_pgdir_of t) PADDR) pa2page) (\<lambda>q.
          thn (page_incref q)
          (thn (modify (\<lambda>s. upd_env t (\<lambda>v. v\<lparr>env_type := ENV_TYPE_THREAD,
                 env_priority := env_priority (envs s c),
                 env_tf := (env_tf v)\<lparr>tf_eip := entry, tf_esp := ustack_top\<rparr>\<rparr>) s))
          (gets (\<lambda>s. env_id (envs s t)))))))))))))"

definition syscall :: "u32 \<Rightarrow> u32 \<Rightarrow> u32 \<Rightarrow> u32 \<Rightarrow> u32 \<Rightarrow> u32 \<Rightarrow> u32 K" where
  "syscall no a1 a2 a3 a4 a5 = (case syscall_of no of
       None \<Rightarrow> ret (err E_INVAL)
     | Some n \<Rightarrow> (case n of
         SYS_cputs \<Rightarrow> thn (sys_cputs a1 a2) (ret 0)
       | SYS_getenvid \<Rightarrow> sys_getenvid
       | SYS_env_destroy \<Rightarrow> sys_env_destroy a1
       | SYS_cgetc \<Rightarrow> sys_cgetc
       | SYS_exofork \<Rightarrow> sys_exofork
       | SYS_env_set_status \<Rightarrow> sys_env_set_status a1 a2
       | SYS_page_alloc \<Rightarrow> sys_page_alloc a1 a2 a3
       | SYS_page_map \<Rightarrow> sys_page_map a1 a2 a3 a4 a5
       | SYS_page_unmap \<Rightarrow> sys_page_unmap a1 a2
       | SYS_ipc_recv \<Rightarrow> sys_ipc_recv a1
       | SYS_ipc_try_send \<Rightarrow> sys_ipc_try_send a1 a2 a3 a4
       | SYS_env_set_pgfault_upcall \<Rightarrow> sys_env_set_pgfault_upcall a1 a2
       | SYS_yield \<Rightarrow> sys_yield
       | SYS_sleep \<Rightarrow> sys_sleep a1
       | SYS_getpriority \<Rightarrow> sys_getpriority a1
       | SYS_setpriority \<Rightarrow> sys_setpriority a1 a2
       | SYS_thread_create \<Rightarrow> sys_thread_create a1 a2))"

section \<open>What an id gives the caller\<close>

text \<open>The environment that \<open>envid\<close> stands for when \<open>c\<close> makes the call: 0 is the caller itself.\<close>

definition target :: "kst \<Rightarrow> nat \<Rightarrow> u32 \<Rightarrow> bool \<Rightarrow> nat option" where
  "target s c envid checkperm =
     (if envid = 0 then Some c
      else if env_named s envid (ENVX envid) \<and> (checkperm \<longrightarrow> env_permitted s c (ENVX envid))
      then Some (ENVX envid) else None)"

lemma on_env_exec:
  assumes "env_table s xs" "curenv s = Some c"
  shows "on_env envid chk f s =
    (case target s c envid chk of None \<Rightarrow> (Inr (err E_BAD_ENV), s) | Some e \<Rightarrow> f e s)"
  using envid2env_exec [OF assms, of envid chk] envid2env_zero [of chk s] assms(2)
  by (cases "envid = 0") (auto simp: on_env_def target_def bnd_Inr)

lemma target_Some:
  "target s c envid chk = Some e \<Longrightarrow> e = c \<or> (env_named s envid e \<and> (chk \<longrightarrow> env_permitted s c e))"
  by (auto simp: target_def split: if_splits)

lemma target_self: "target s c 0 chk = Some c"
  by (simp add: target_def)

lemma target_named:
  "\<lbrakk>env_table s xs; env_named s envid e; chk \<longrightarrow> env_permitted s c e\<rbrakk> \<Longrightarrow> target s c envid chk = Some e"
  using env_named_slot [of s xs envid e] by (auto simp: target_def)

section \<open>What a switch leaves alone\<close>

text \<open>What the scheduler never changes of an environment: everything but its status and counters.\<close>

definition saved_view :: "Env \<Rightarrow> Env" where
  "saved_view v = v\<lparr>env_status := ENV_FREE, env_runs := 0, env_cpunum := 0, env_wait_ticks := 0\<rparr>"

definition same_saved :: "(nat \<Rightarrow> Env) \<Rightarrow> kst \<Rightarrow> bool" where
  "same_saved E s \<longleftrightarrow> (\<forall>x. saved_view (envs s x) = saved_view (E x))"

lemma keeps_envs_same: "(\<And>E. keeps (envs_are E) m) \<Longrightarrow> keeps (same_saved E) m"
  by (rule keepsI) (metis envs_are_def keeps_result same_saved_def)

lemma keeps_lock [hoare_rules]: "keeps (envs_are E) unlock_kernel"
  unfolding unlock_kernel_def by (intro hoare_rules keeps_modify) (simp add: envs_are_def)

lemma keeps_stats [hoare_rules]: "keeps (envs_are E) (modify (upd_stats f))"
  by (rule keeps_modify) (simp add: envs_are_def)

lemma keeps_stats' [hoare_rules]: "keeps (envs_are E) (modify (\<lambda>s. upd_stats (g s) s))"
  by (rule keeps_modify) (simp add: envs_are_def)

lemma keeps_print [hoare_rules]:
  "keeps (envs_are E) (print_env_stat i)" "keeps (envs_are E) (print_history i)"
  "keeps (envs_are E) (print_prio_ticks n i)"
  unfolding print_env_stat_def print_history_def print_prio_ticks_def Let_def
  by (intro hoare_rules)+

lemma keeps_print_stats [hoare_rules]: "keeps (envs_are E) sched_print_stats"
proof -
  have "keeps (envs_are E) (case pol of SCHED_ROUND_ROBIN \<Rightarrow> cprintf f [] | SCHED_PRIORITIES \<Rightarrow> cprintf g a)" for pol f g a
    by (cases pol) (simp_all add: hoare_rules)
  then show ?thesis
    unfolding sched_print_stats_def sched_account_cputicks_def by (intro hoare_rules)
qed

lemma keeps_halt [hoare_rules]: "keeps (envs_are E) sched_halt"
  unfolding sched_halt_def
  by (intro hoare_rules keeps_modify) (simp_all add: envs_are_def set_cpu_status_def)

lemma halt_result:
  assumes "sched_halt s = (Inl x, s')"
  shows "envs s' = envs s" "x \<noteq> UserMode e"
proof -
  show "envs s' = envs s"
    using keeps_result [OF keeps_halt _ assms, of "envs s"] by (simp add: envs_are_def)
  obtain y t where "sched_print_stats (s\<lparr>trace := Cprintf ''No runnable environments in the system!\<newline>'' [] # trace s\<rparr>)
      = (Inr y, t)"
    using returns_print_stats unfolding returns_def by blast
  then show "x \<noteq> UserMode e"
    using assms by (auto simp: sched_halt_def bnd_def thn_def unlock_kernel_def set_cpu_status_def deref_def
      split: if_splits option.splits)
qed

lemma same_saved_upd:
  "same_saved E s \<Longrightarrow> (\<And>v. saved_view (f v) = saved_view v) \<Longrightarrow> same_saved E (upd_env e f s)"
  by (simp add: same_saved_def)

lemma keeps_saved_env_run: "keeps (same_saved E) (env_run e)"
proof -
  have p: "keeps (same_saved E) unlock_kernel" "keeps (same_saved E) (lcr3 d)" for d
    by (rule keeps_envs_same, intro hoare_rules)+
  have "same_saved E s \<Longrightarrow> same_saved E (set_curenv c s)" for c s by (simp add: same_saved_def)
  moreover have "saved_view (v\<lparr>env_status := st\<rparr>) = saved_view v" "saved_view (v\<lparr>env_runs := n\<rparr>) = saved_view v"
    "saved_view (v\<lparr>env_cpunum := k\<rparr>) = saved_view v" for v st n k
    by (simp_all add: saved_view_def)
  ultimately show ?thesis
    unfolding env_run_def env_load_pgdir_def
    by (intro hoare_rules keeps_modify p) (auto intro: same_saved_upd)
qed

lemma keeps_saved_sched_run: "keeps (same_saved E) (sched_run e p)"
proof -
  have "keeps (same_saved E) (modify (upd_stats f))" "keeps (same_saved E) (modify (\<lambda>s. upd_stats (g s) s))"
    "keeps (same_saved E) (cprintf fmt a)" for f g fmt a
    by (rule keeps_envs_same, intro hoare_rules)+
  note p = this
  show ?thesis
    unfolding sched_run_def sched_account_cputicks_def Let_def
    by (intro hoare_rules p keeps_saved_env_run)
qed

lemma keeps_saved_yield: "keeps (same_saved E) sched_yield"
proof -
  have age: "same_saved E s \<Longrightarrow> same_saved E (age_waiting b s)" for b s
    by (auto simp: age_waiting_eq same_saved_def saved_view_def)
  have halt: "keeps (same_saved E) sched_halt" by (rule keeps_envs_same) (rule keeps_halt)
  have fb: "keeps (same_saved E) sched_fallback"
    unfolding sched_fallback_def by (intro hoare_rules halt keeps_saved_sched_run)
  have "keeps (same_saved E) (case policy s of
        SCHED_ROUND_ROBIN \<Rightarrow> (case List.find (runnable s) (scan_order (scan_start s)) of
            Some e \<Rightarrow> sched_run e (env_priority (envs s e)) | None \<Rightarrow> sched_fallback)
      | SCHED_PRIORITIES \<Rightarrow> (case pr_best s of
            Some (best, best_prio) \<Rightarrow> thn (modify (age_waiting best)) (sched_run best best_prio)
          | None \<Rightarrow> sched_fallback))" for s
    by (cases "policy s") (auto intro!: hoare_rules keeps_modify age fb keeps_saved_sched_run split: option.splits)
  moreover have "keeps (same_saved E) (modify (upd_stats f))" for f
    by (rule keeps_envs_same) (rule keeps_stats)
  ultimately show ?thesis unfolding sched_yield_def by (intro hoare_rules)
qed

section \<open>Blocking\<close>

text \<open>
  An environment that makes itself NOT\_RUNNABLE and yields: another ready one runs if there is
  any, and the saved state of the blocked one is what it was when it yielded.
\<close>

lemma yield_blocked:
  assumes cur: "curenv s = Some c" and ok: "sched_ok s"
    and f: "env_status (f (envs s c)) = ENV_NOT_RUNNABLE"
  shows "\<exists>x s'. (sched_yield :: 'a K) (upd_env c f s) = (Inl x, s') \<and> env_status (envs s' c) = ENV_NOT_RUNNABLE
    \<and> saved_view (envs s' c) = saved_view (f (envs s c))
    \<and> (\<forall>e. x = UserMode e \<longrightarrow> e \<noteq> c \<and> runnable s e)
    \<and> ((\<exists>e < NENV. e \<noteq> c \<and> runnable s e) \<longrightarrow> (\<exists>e. x = UserMode e))"
proof -
  let ?s = "upd_env c f s"
  have cr: "cur_running ?s = None" using cur f by (simp add: cur_running_def)
  have el: "eligible ?s e \<longleftrightarrow> e < NENV \<and> e \<noteq> c \<and> runnable s e" for e
    using cr f by (auto simp: eligible_def runnable_def)
  have ok': "sched_ok ?s" using ok el by (auto simp: sched_ok_def eligible_def)
  obtain x s' where r: "(sched_yield :: 'a K) ?s = (Inl x, s')"
    using noreturn_sched_yield unfolding noreturn_def by blast
  have "same_saved (envs ?s) ?s" by (simp add: same_saved_def)
  then have "same_saved (envs ?s) s'" by (rule keeps_result [OF keeps_saved_yield _ r])
  then have saved: "saved_view (envs s' c) = saved_view (f (envs s c))" by (simp add: same_saved_def)
  show ?thesis
  proof (cases "choice ?s")
    case None
    then have no: "\<nexists>e. eligible ?s e" by (simp add: choice_None)
    let ?s1 = "upd_stats (\<lambda>t. t\<lparr>sched_calls := sched_calls t + 1\<rparr>) ?s"
    have h: "(sched_halt :: 'a K) ?s1 = (Inl x, s')" using r sched_yield_halts [OF None, where 'a = 'a] by simp
    have "envs s' = envs ?s1 \<and> (\<forall>e. x \<noteq> UserMode e)"
      using halt_result [OF h] by blast
    then show ?thesis using r f saved no el by auto
  next
    case (Some ep)
    obtain e p where ep: "ep = (e, p)" by (cases ep)
    have c: "choice ?s = Some (e, p)" using Some ep by simp
    have "eligible ?s e" by (rule choice_eligible [OF c])
    moreover have "x = UserMode e" "env_status (envs s' c) = ENV_NOT_RUNNABLE" if "e \<noteq> c"
      using sched_yield_runs [OF c ok', where 'a = 'a] r cr f that by auto
    ultimately show ?thesis using r saved el by auto
  qed
qed

section \<open>Properties\<close>

text \<open>A running process (slot 0, id 4096) and its ready child (slot 1, id 4097).\<close>

definition sys_kst :: kst where
  "sys_kst = (set_curenv (Some 0) (upd_env 0 (\<lambda>v. v\<lparr>env_status := ENV_RUNNING\<rparr>)
     (alloc_post 1 5 4096 (alloc_post 0 6 0 boot_kst))))\<lparr>klock := \<lparr>locked = 1, lk_cpu = Some 0\<rparr>\<rparr>"

lemma boot_env: "e < NENV \<Longrightarrow> env_id (envs boot_kst e) = 0"
  by (simp add: boot_kst_def env_init_def env_init_fold)

lemma sys_kst_simps [simp]:
  "curenv sys_kst = Some 0" "npages sys_kst = 8" "kern_pgdir sys_kst = 0" "cpunum sys_kst = 0"
  "env_id (envs sys_kst 0) = 4096" "env_id (envs sys_kst (Suc 0)) = 4097"
  "env_status (envs sys_kst 0) = ENV_RUNNING" "env_status (envs sys_kst (Suc 0)) = ENV_RUNNABLE"
  "env_parent_id (envs sys_kst 0) = 0" "env_parent_id (envs sys_kst (Suc 0)) = 4096"
  "env_pgdir (envs sys_kst 0) = Some 6" "env_pgdir (envs sys_kst (Suc 0)) = Some 5"
  "env_priority (envs sys_kst 0) = 8" "env_priority (envs sys_kst (Suc 0)) = 8"
  "\<not> env_ipc_recving (envs sys_kst 0)" "\<not> env_ipc_recving (envs sys_kst (Suc 0))"
  "env_type (envs sys_kst 0) = ENV_TYPE_USER"
  by (simp_all add: sys_kst_def init_env_def next_env_id_def next_generation_def boot_env NENV_def word_sle_eq)

lemma sys_kst_wf:
  "env_table sys_kst [2..<NENV]" "free_pages sys_kst [4, 3, 2, 1]"
  "lock_held sys_kst"
proof -
  let ?s = "alloc_post 1 5 4096 (alloc_post 0 6 0 boot_kst)"
  have "env_table ?s [2..<NENV]"
    by (intro env_table_alloc) (rule boot_kst_wf(1) [unfolded NENV_Cons2])
  then show "env_table sys_kst [2..<NENV]"
    by (subst env_table_fields [where s = ?s]) (auto simp: sys_kst_def init_env_def)
  have "free_pages ?s [4, 3, 2, 1]" by (intro free_pages_alloc) (rule boot_kst_wf(2))
  then show "free_pages sys_kst [4, 3, 2, 1]"
    by (subst free_pages_cong [where s = ?s]) (simp_all add: sys_kst_def)
  show "lock_held sys_kst" by (simp add: sys_kst_def holding_def)
qed

lemma sys_kst_named:
  "env_named sys_kst 4096 0" "env_named sys_kst 4097 1" "env_permitted sys_kst 0 1"
  by (simp_all add: env_named_def env_permitted_def NENV_def)

lemma sys_kst_ok: "sched_ok sys_kst"
proof -
  have "runnable sys_kst e \<Longrightarrow> e < NENV \<Longrightarrow> e = 1" for e
    using sys_kst_wf(1) boot_kst_wf(1)
    by (auto simp: sys_kst_def init_env_def runnable_def env_table_def split: if_splits)
  then have "eligible sys_kst e \<Longrightarrow> e = 0 \<or> e = 1" for e
    by (auto simp: eligible_def cur_running_def split: if_splits)
  then have "eligible sys_kst e \<Longrightarrow> \<exists>d. env_pgdir (envs sys_kst e) = Some d \<and> d < 2 ^ 20" for e
    using sys_kst_simps(11,12) by fastforce
  then show ?thesis using sys_kst_wf(3) by (simp add: sched_ok_def)
qed

text \<open>sys\_setpriority obeys its rules on every call: a value above the maximum is refused; an id
  that is not the caller's nor a direct child's is -E\_BAD\_ENV; an environment cannot raise its own
  priority; every other call sets exactly the priority of the target.\<close>

theorem setpriority_rules:
  assumes "env_table s xs" "curenv s = Some c"
  shows "sys_setpriority envid prio s =
    (if prio > ENV_PRIORITY_MAX then (Inr (err E_INVAL), s)
     else case target s c envid True of
       None \<Rightarrow> (Inr (err E_BAD_ENV), s)
     | Some e \<Rightarrow> if e = c \<and> prio > env_priority (envs s c) then (Inr (err E_INVAL), s)
         else (Inr 0, upd_env e (\<lambda>v. v\<lparr>env_priority := prio\<rparr>) s))"
  unfolding sys_setpriority_def
  by (auto simp: on_env_exec [OF assms] assms(2) split: option.split)

theorem setpriority_rules_witness:
  "sys_setpriority 0 9 sys_kst = (Inr (err E_INVAL), sys_kst)
   \<and> sys_setpriority 4097 15 sys_kst = (Inr 0, upd_env 1 (\<lambda>v. v\<lparr>env_priority := 15\<rparr>) sys_kst)"
  using setpriority_rules [OF sys_kst_wf(1) sys_kst_simps(1), of 0 9]
    setpriority_rules [OF sys_kst_wf(1) sys_kst_simps(1), of 4097 15]
    target_named [OF sys_kst_wf(1) sys_kst_named(2), of True 0] sys_kst_named(3)
  by (simp add: target_self)

text \<open>C15: sys\_sleep of zero ticks is refused. Any other call does not come back: the caller is left
  NOT\_RUNNABLE with the tick it is to be woken at and with 0 as the result it will see, and another
  ready environment runs if there is one; the caller itself is not chosen.\<close>

theorem sleep_blocks:
  assumes "curenv s = Some c" "sched_ok s"
  shows "if n = 0 then sys_sleep n s = (Inr (err E_INVAL), s)
    else \<exists>x s'. sys_sleep n s = (Inl x, s') \<and> env_status (envs s' c) = ENV_NOT_RUNNABLE
      \<and> env_sleep_until (envs s' c) = ticks s + n
      \<and> env_tf (envs s' c) = set_eax 0 (env_tf (envs s c))
      \<and> (\<forall>e. x = UserMode e \<longrightarrow> e \<noteq> c \<and> runnable s e)
      \<and> ((\<exists>e < NENV. e \<noteq> c \<and> runnable s e) \<longrightarrow> (\<exists>e. x = UserMode e))"
proof (cases "n = 0")
  case False
  let ?f = "\<lambda>v. v\<lparr>env_sleep_until := ticks s + n, env_status := ENV_NOT_RUNNABLE,
     env_tf := set_eax 0 (env_tf v)\<rparr>"
  from yield_blocked [OF assms, of ?f, where 'a = unit]
  obtain x s' where r: "(sched_yield :: unit K) (upd_env c ?f s) = (Inl x, s')"
    and st: "env_status (envs s' c) = ENV_NOT_RUNNABLE"
    and v: "saved_view (envs s' c) = saved_view (?f (envs s c))"
    and e: "\<forall>e. x = UserMode e \<longrightarrow> e \<noteq> c \<and> runnable s e"
      "(\<exists>e < NENV. e \<noteq> c \<and> runnable s e) \<longrightarrow> (\<exists>e. x = UserMode e)" by auto
  have "sys_sleep n s = (Inl x, s')" using False r assms(1) by (simp add: sys_sleep_def thn_Inl)
  moreover have "env_sleep_until (envs s' c) = ticks s + n"
    "env_tf (envs s' c) = set_eax 0 (env_tf (envs s c))"
    using arg_cong [OF v, of env_sleep_until] arg_cong [OF v, of env_tf] by (simp_all add: saved_view_def)
  ultimately show ?thesis using False st e by auto
qed (simp add: sys_sleep_def)

theorem sleep_blocks_witness:
  "\<exists>x s'. sys_sleep 10 sys_kst = (Inl x, s') \<and> env_status (envs s' 0) = ENV_NOT_RUNNABLE
     \<and> env_sleep_until (envs s' 0) = ticks sys_kst + 10 \<and> (\<exists>e. x = UserMode e)"
proof -
  have "\<exists>e < NENV. e \<noteq> 0 \<and> runnable sys_kst e"
    by (rule exI [of _ 1]) (simp add: runnable_def NENV_def)
  then show ?thesis using sleep_blocks [OF sys_kst_simps(1) sys_kst_ok, of 10] by fastforce
qed

text \<open>sys\_ipc\_recv with an aligned address below UTOP does not come back: the caller waits, marked
  as receiving at that address and NOT\_RUNNABLE, and does not run. With any other address it returns
  -E\_INVAL, but the caller is already marked as receiving.\<close>

theorem ipc_recv_blocks:
  assumes "curenv s = Some c" "sched_ok s"
  shows "if bad_va dstva
    then sys_ipc_recv dstva s = (Inr (err E_INVAL), upd_env c (\<lambda>v. v\<lparr>env_ipc_recving := True\<rparr>) s)
    else \<exists>x s'. sys_ipc_recv dstva s = (Inl x, s') \<and> env_status (envs s' c) = ENV_NOT_RUNNABLE
      \<and> env_ipc_recving (envs s' c) \<and> env_ipc_dstva (envs s' c) = dstva
      \<and> (\<forall>e. x = UserMode e \<longrightarrow> e \<noteq> c \<and> runnable s e)"
proof (cases "bad_va dstva")
  case False
  let ?g = "\<lambda>v. v\<lparr>env_ipc_recving := True\<rparr>"
  let ?f = "\<lambda>v. v\<lparr>env_ipc_recving := True, env_ipc_dstva := dstva, env_status := ENV_NOT_RUNNABLE\<rparr>"
  from yield_blocked [OF assms, of ?f, where 'a = unit]
  obtain x s' where r: "(sched_yield :: unit K) (upd_env c ?f s) = (Inl x, s')"
    and st: "env_status (envs s' c) = ENV_NOT_RUNNABLE"
    and v: "saved_view (envs s' c) = saved_view (?f (envs s c))"
    and e: "\<forall>e. x = UserMode e \<longrightarrow> e \<noteq> c \<and> runnable s e" by auto
  have "upd_env c (\<lambda>v. v\<lparr>env_ipc_dstva := dstva, env_status := ENV_NOT_RUNNABLE\<rparr>) (upd_env c ?g s)
      = upd_env c ?f s" by (simp add: upd_env_def)
  then have "sys_ipc_recv dstva s = (Inl x, s')"
    using False r assms(1) by (simp add: sys_ipc_recv_def sys_yield_def thn_Inl)
  moreover have "env_ipc_recving (envs s' c)" "env_ipc_dstva (envs s' c) = dstva"
    using arg_cong [OF v, of env_ipc_recving] arg_cong [OF v, of env_ipc_dstva] by (simp_all add: saved_view_def)
  ultimately show ?thesis using False st e by auto
qed (simp add: sys_ipc_recv_def assms(1))

theorem ipc_recv_blocks_witness:
  "\<exists>x s'. sys_ipc_recv 0 sys_kst = (Inl x, s') \<and> env_ipc_recving (envs s' 0)"
  using ipc_recv_blocks [OF sys_kst_simps(1) sys_kst_ok, of 0] by (auto simp: bad_va_def)

text \<open>C1: the nine system calls that take an id act on no environment they may not act on: eight of them
  need a target that is the caller or one of its direct children (sys\_page\_map needs it for both ends);
  sys\_ipc\_try\_send is open to every environment, but only towards one that has asked to receive (its
  env\_ipc\_recving is set). Otherwise the call returns an error code and the kernel state does not
  change.\<close>

theorem syscall_confined:
  assumes "env_table s xs" "curenv s = Some c"
    and n: "syscall_of no = Some n" "n \<in> {SYS_env_destroy, SYS_env_set_status, SYS_page_alloc, SYS_page_map,
      SYS_page_unmap, SYS_env_set_pgfault_upcall, SYS_getpriority, SYS_setpriority, SYS_ipc_try_send}"
    and t: "if n = SYS_ipc_try_send
      then target s c a1 False = None \<or> (\<exists>d. target s c a1 False = Some d \<and> \<not> env_ipc_recving (envs s d))
      else target s c a1 True = None \<or> (n = SYS_page_map \<and> target s c a3 True = None)"
  shows "\<exists>e \<in> (if n = SYS_ipc_try_send then {E_BAD_ENV, E_IPC_NOT_RECV} else {E_BAD_ENV, E_INVAL}).
    syscall no a1 a2 a3 a4 a5 s = (Inr (err e), s)"
proof (cases "n = SYS_ipc_try_send")
  case True
  then show ?thesis
    using n t by (auto simp: syscall_def sys_ipc_try_send_def on_env_exec [OF assms(1,2)])
next
  case False
  have "sys_page_map a1 a2 a3 a4 a5 s = (Inr (err E_BAD_ENV), s) \<or> sys_page_map a1 a2 a3 a4 a5 s = (Inr (err E_INVAL), s)"
    if "target s c a1 True = None \<or> target s c a3 True = None"
    using that by (auto simp: sys_page_map_def on_env_exec [OF assms(1,2)] split: option.split)
  moreover have "target s c a1 True = None" if "n \<noteq> SYS_page_map" using t that False by auto
  ultimately show ?thesis
    using n t False
    by (cases "status_arg a2")
      (auto simp: syscall_def sys_env_destroy_def sys_env_set_status_def sys_page_alloc_def sys_page_unmap_def
        sys_env_set_pgfault_upcall_def sys_getpriority_def sys_setpriority_def on_env_exec [OF assms(1,2)]
      split: option.split)
qed

theorem syscall_confined_witness:
  "fst (syscall 15 4096 15 0 0 0 (set_curenv (Some 1) sys_kst)) \<in> {Inr (err E_BAD_ENV), Inr (err E_INVAL)}
   \<and> fst (syscall 11 4096 42 0xFFFFFFFF 0 0 (set_curenv (Some 1) sys_kst)) \<in> {Inr (err E_BAD_ENV), Inr (err E_IPC_NOT_RECV)}"
proof -
  let ?s = "set_curenv (Some 1) sys_kst"
  have t: "env_table ?s [2..<NENV]" using sys_kst_wf(1) by simp
  have n: "syscall_of 15 = Some SYS_setpriority" "syscall_of 11 = Some SYS_ipc_try_send"
    by (simp_all add: syscall_of_def syscall_list_def)
  have "fst (syscall 15 4096 15 0 0 0 ?s) \<in> {Inr (err E_BAD_ENV), Inr (err E_INVAL)}"
    using syscall_confined [OF t _ n(1), of 1 4096 0 15 0 0]
    by (auto simp: target_def env_permitted_def ENVX_def)
  moreover have "env_named ?s 4096 0" using sys_kst_named(1) by (simp add: env_named_def)
  then have "target ?s 1 4096 False = Some 0" using target_named [OF t, of 4096 0 False 1] by simp
  moreover have "\<not> env_ipc_recving (envs ?s 0)" by (simp add: sys_kst_def init_env_def)
  ultimately show ?thesis
    using syscall_confined [OF t _ n(2), where ?c = 1 and ?a1.0 = 4096 and ?a2.0 = 42 and ?a3.0 = "0xFFFFFFFF" and ?a4.0 = 0 and ?a5.0 = 0] by auto
qed

lemma ipc_send_exec:
  assumes "env_table s xs" "curenv s = Some c" "srcva \<ge> UTOP"
  shows "sys_ipc_try_send envid val srcva perm s = (case target s c envid False of
      None \<Rightarrow> (Inr (err E_BAD_ENV), s)
    | Some d \<Rightarrow> if \<not> env_ipc_recving (envs s d) then (Inr (err E_IPC_NOT_RECV), s)
        else (Inr 0, upd_env d (\<lambda>v. v\<lparr>env_ipc_perm := 0, env_ipc_from := env_id (envs s c),
               env_ipc_recving := False, env_ipc_value := val, env_tf := set_eax 0 (env_tf v),
               env_status := ENV_RUNNABLE\<rparr>) s))"
  using assms(2,3)
  by (auto simp: sys_ipc_try_send_def on_env_exec [OF assms(1,2)] ipc_deliver_def bnd_def upd_env_def
    fun_eq_iff split: option.split intro!: kst.equality)

text \<open>A message without a page reaches its receiver exactly when the id names a live environment that
  is receiving: that environment becomes ready with the value, the sender's id, no page, and 0 as
  the result of its sys\_ipc\_recv, and it stops receiving. In every other case nothing changes.\<close>

theorem ipc_send_value:
  assumes "env_table s xs" "curenv s = Some c" "srcva \<ge> UTOP"
  shows "sys_ipc_try_send envid val srcva perm s = (case target s c envid False of
      None \<Rightarrow> (Inr (err E_BAD_ENV), s)
    | Some d \<Rightarrow> if \<not> env_ipc_recving (envs s d) then (Inr (err E_IPC_NOT_RECV), s)
        else (Inr 0, upd_env d (\<lambda>v. v\<lparr>env_ipc_perm := 0, env_ipc_from := env_id (envs s c),
               env_ipc_recving := False, env_ipc_value := val, env_tf := set_eax 0 (env_tf v),
               env_status := ENV_RUNNABLE\<rparr>) s))"
  by (rule ipc_send_exec [OF assms])

theorem ipc_send_value_witness:
  "env_ipc_value (envs (snd (sys_ipc_try_send 4097 42 0xFFFFFFFF 0 (upd_env 1 (\<lambda>v. v\<lparr>env_ipc_recving := True\<rparr>) sys_kst))) 1) = 42
   \<and> sys_ipc_try_send 4097 42 0xFFFFFFFF 0 sys_kst = (Inr (err E_IPC_NOT_RECV), sys_kst)"
proof -
  let ?s = "upd_env 1 (\<lambda>v. v\<lparr>env_ipc_recving := True\<rparr>) sys_kst"
  have t: "env_table ?s [2..<NENV]"
    using sys_kst_wf(1) by (subst env_table_fields [where s = sys_kst]) auto
  have "target ?s 0 4097 False = Some 1" "target sys_kst 0 4097 False = Some 1"
    using target_named [OF t, of 4097 1 False 0] target_named [OF sys_kst_wf(1) sys_kst_named(2), of False 0] sys_kst_named(2)
    by (simp_all add: env_named_def)
  then show ?thesis
    using ipc_send_value [OF t, of 0 "0xFFFFFFFF" 4097 42 0] ipc_send_value [OF sys_kst_wf(1) sys_kst_simps(1), of "0xFFFFFFFF" 4097 42 0]
    by simp
qed

text \<open>The permission bits sys\_page\_map passes on ask for writing exactly when the caller's do.\<close>

lemma perm_write: "(PTE_P OR PTE_U OR perm) AND PTE_W = perm AND PTE_W"
proof (rule bit_word_eqI)
  fix n :: nat
  have "bit (1 :: u32) n \<longleftrightarrow> n = 0" "bit (2 :: u32) n \<longleftrightarrow> n = 1" "bit (4 :: u32) n \<longleftrightarrow> n = 2"
    if "n < LENGTH(32)" for n
    using that bit_exp_iff [where 'a = u32, of 1 n] bit_exp_iff [where 'a = u32, of 2 n] by (auto simp: bit_1_iff)
  moreover assume "n < LENGTH(32)"
  ultimately show "bit ((PTE_P OR PTE_U OR perm) AND PTE_W) n \<longleftrightarrow> bit (perm AND PTE_W) n"
    by (auto simp: bit_and_iff bit_or_iff)
qed

lemma no_write: "w AND PTE_W = 0 \<Longrightarrow> (v AND PTE_W) AND NOT (PTE_W AND w) = v AND PTE_W"
  by (simp add: and.commute)

lemma page_map_exec:
  assumes "env_table s xs" "curenv s = Some c"
    and se: "target s c srcid True = Some se" "env_pgdir (envs s se) = Some sd"
    and de: "target s c dstid True = Some de" "env_pgdir (envs s de) = Some dd"
    and va: "\<not> bad_va srcva" "\<not> bad_va dstva"
    and src: "wf_pgdir s fl sd" "wf_mapped s fl sd srcva"
  shows "sys_page_map srcid srcva dstid dstva perm s =
    (if upte s sd srcva = 0 then (Inr (err E_INVAL), s)
     else if (perm AND PTE_W) AND NOT (PTE_W AND upte s sd srcva) \<noteq> 0 then (Inr (err E_INVAL), s)
     else page_insert (Some dd) (PGNUM (upte s sd srcva)) dstva (PTE_P OR PTE_U OR perm) s)"
proof -
  have w: "pmem s (PGNUM (pmem s sd (PDX srcva))) (PTX srcva) = upte s sd srcva" if "upte s sd srcva \<noteq> 0"
    using that by (auto simp: upte_def split: if_splits)
  have "sys_page_map srcid srcva dstid dstva perm s = env_page_map se srcva de dstva (PTE_P OR PTE_U OR perm) s"
    using va by (simp add: sys_page_map_def on_env_exec [OF assms(1,2)] se(1) de(1))
  also have "\<dots> = (if upte s sd srcva = 0 then (Inr (err E_INVAL), s)
     else if (perm AND PTE_W) AND NOT (PTE_W AND upte s sd srcva) \<noteq> 0 then (Inr (err E_INVAL), s)
     else page_insert (Some dd) (PGNUM (upte s sd srcva)) dstva (PTE_P OR PTE_U OR perm) s)"
  proof (cases "upte s sd srcva = 0")
    case True
    then have "page_lookup (Some sd) srcva s = (Inr None, s)" using page_lookup_exec [OF src] by simp
    then show ?thesis using True se(2) by (simp add: env_page_map_def env_pgdir_of_def bnd_Inr)
  next
    case False
    then have l: "page_lookup (Some sd) srcva s
        = (Inr (Some (PGNUM (upte s sd srcva), (PGNUM (pmem s sd (PDX srcva)), PTX srcva))), s)"
      using page_lookup_exec [OF src] by simp
    have b: "bnd (page_lookup (Some sd) srcva) g s
        = g (Some (PGNUM (upte s sd srcva), (PGNUM (pmem s sd (PDX srcva)), PTX srcva))) s"
      for g :: "(nat \<times> (nat \<times> nat)) option \<Rightarrow> u32 K" by (simp add: bnd_def l)
    show ?thesis
      using False de(2)
      by (simp only: env_page_map_def env_pgdir_of_def bnd_gets se(2) b w [OF False] perm_write option.case prod.case
        bnd_load if_False if_distribR) simp
  qed
  finally show ?thesis .
qed

text \<open>The frame of an entry with more bits set.\<close>

lemma PGNUM_or: "PGNUM (v OR w) = (PGNUM v OR PGNUM w)"
  by (simp add: PGNUM_def unsigned_or_eq drop_bit_or)

lemma PGNUM_shared: "PGNUM (page2pa (PGNUM v) OR (PTE_P OR PTE_U OR perm) OR PTE_P) = (PGNUM v OR PGNUM perm)"
proof -
  have "PGNUM (page2pa (PGNUM v)) = PGNUM v" using PGNUM_entry [OF PGNUM_less, of 0 v] by (simp add: page2pa_def)
  moreover have "PGNUM PTE_P = 0" "PGNUM PTE_U = 0" by (simp_all add: PGNUM_div)
  ultimately show ?thesis by (simp only: PGNUM_or or.right_neutral or.left_neutral)
qed

text \<open>C16: when sys\_page\_map succeeds, the entry of the destination page is the frame of the source
  together with the requested bits, every other page of the destination is as before, and if the new
  mapping is writable because the caller asked for it, so is the source's. With permission bits below
  4096 the destination translates to the very frame of the source; the call does not check them
  (syscall.c:302), and bits above 11 are or-ed into the frame number, so that the caller can reach a
  different frame.\<close>

theorem page_map_shares:
  assumes "env_table s xs" "curenv s = Some c"
    and se: "target s c srcid True = Some se" "env_pgdir (envs s se) = Some sd"
    and de: "target s c dstid True = Some de" "env_pgdir (envs s de) = Some dd"
    and fp: "free_pages s fl"
    and src: "wf_pgdir s fl sd" "wf_mapped s fl sd srcva"
    and dst: "wf_pgdir s fl dd" "wf_mapped s fl dd dstva" "data_page s fl dd (PGNUM (upte s sd srcva))"
    and run: "sys_page_map srcid srcva dstid dstva perm s = (Inr 0, s')"
  shows "upte s sd srcva \<noteq> 0
    \<and> (\<forall>a < UTOP. upte s' dd a = (if PGNUM a = PGNUM dstva
         then page2pa (PGNUM (upte s sd srcva)) OR (PTE_P OR PTE_U OR perm) OR PTE_P else upte s dd a))
    \<and> PGNUM (upte s' dd dstva) = (PGNUM (upte s sd srcva) OR PGNUM perm)
    \<and> (perm < 2 ^ 12 \<longrightarrow> PGNUM (upte s' dd dstva) = PGNUM (upte s sd srcva))
    \<and> (perm AND PTE_W \<noteq> 0 \<longrightarrow> upte s sd srcva AND PTE_W \<noteq> 0)"
proof -
  have va: "\<not> bad_va srcva" "\<not> bad_va dstva" using run by (auto simp: sys_page_map_def split: if_splits)
  note ex = page_map_exec [OF assms(1,2) se de va src, of perm, unfolded run]
  then have m: "upte s sd srcva \<noteq> 0" by auto
  have w: "(perm AND PTE_W) AND NOT (PTE_W AND upte s sd srcva) = 0" using ex m by (auto split: if_splits)
  have i: "page_insert (Some dd) (PGNUM (upte s sd srcva)) dstva (PTE_P OR PTE_U OR perm) s = (Inr 0, s')"
    using ex m w by simp
  have d: "PDX dstva < 955" using va(2) by (intro PDX_below_UTOP) (simp add: bad_va_def not_le)
  have mem: "pmem s dd (PDX dstva) \<noteq> 0 \<or> fl \<noteq> []"
    using i page_insert_no_memory [of s dd dstva] fp by auto
  note entry = page_insert_upte(2) [OF fp dst(1,2) d dst(3) mem i PDX_below_UTOP]
  have frame: "PGNUM (upte s' dd dstva) = (PGNUM (upte s sd srcva) OR PGNUM perm)"
    using entry [of dstva] va(2) by (simp add: bad_va_def not_le PGNUM_shared del: PTE_P_def PTE_U_def UTOP_def)
  moreover have "PGNUM perm = 0" if "perm < 2 ^ 12"
    using that by (simp add: PGNUM_div word_less_nat_alt)
  ultimately show ?thesis
    using m w no_write [of "upte s sd srcva" perm] entry
    by (auto simp del: PTE_P_def PTE_W_def PTE_U_def UTOP_def)
qed

text \<open>The same process with a page (frame 7) mapped at 0x800000, through the table in frame 4.\<close>

definition map_kst :: kst where
  "map_kst = (page_alloc_post 0 4 sys_kst)\<lparr>
     pmem := (pmem sys_kst)(6 := (pmem sys_kst 6)(2 := 0x4007), 4 := (\<lambda>_. 0)(0 := 0x7007))\<rparr>"

lemma map_kst_simps [simp]:
  "curenv map_kst = Some 0" "env_pgdir (envs map_kst 0) = Some 6" "npages map_kst = 8"
  "pmem map_kst 6 = (\<lambda>i. if i = 2 then 0x4007 else if i = 957 then 0x6005 else 0)"
  "pmem map_kst 4 = (\<lambda>_. 0)(0 := 0x7007)"
  by (auto simp: map_kst_def sys_kst_def alloc_pmem page2pa_def init_env_def)

lemma map_kst_wf:
  "env_table map_kst [2..<NENV]" "free_pages map_kst [3, 2, 1]" "wf_pgdir map_kst [3, 2, 1] 6"
  "upte map_kst 6 0x800000 = 0x7007" "upte map_kst 6 0x801000 = 0" "data_page map_kst [3, 2, 1] 6 7"
proof -
  show "env_table map_kst [2..<NENV]"
    using sys_kst_wf(1) by (subst env_table_fields [where s = sys_kst]) (auto simp: map_kst_def)
  have "free_pages (page_alloc_post 0 4 sys_kst) [3, 2, 1]"
    by (rule free_pages_alloc_post) (rule sys_kst_wf(2))
  then show "free_pages map_kst [3, 2, 1]"
    by (simp add: map_kst_def)
qed (auto simp: wf_pgdir_def upte_def data_page_def PGNUM_div PDX_div PTX_mod)

theorem page_map_shares_witness:
  "upte (snd (sys_page_map 0 0x800000 0 0x801000 PTE_W map_kst)) 6 0x801FFC = 0x7007
   \<and> PGNUM (upte (snd (sys_page_map 0 0x800000 0 0x801000 PTE_W map_kst)) 6 0x801000) = 7"
proof -
  have m: "wf_mapped map_kst [3, 2, 1] 6 0x800000" "wf_mapped map_kst [3, 2, 1] 6 0x801000"
    "data_page map_kst [3, 2, 1] 6 (PGNUM (upte map_kst 6 0x800000))"
    using map_kst_wf(4-6) by (simp_all add: wf_mapped_def PGNUM_div)
  have r: "sys_page_map 0 0x800000 0 0x801000 PTE_W map_kst
      = page_insert (Some 6) 7 0x801000 (PTE_P OR PTE_U OR PTE_W) map_kst"
    using page_map_exec [OF map_kst_wf(1) map_kst_simps(1) target_self map_kst_simps(2) target_self map_kst_simps(2)
      _ _ map_kst_wf(3) m(1), of "0x801000" PTE_W] map_kst_wf(4)
    by (simp add: bad_va_def PGNUM_div)
  obtain s0 fl0 where b: "insert_base [3, 2, 1] 6 0x801000 map_kst = (s0, fl0)" by fastforce
  have "fst (page_insert (Some 6) 7 0x801000 (PTE_P OR PTE_U OR PTE_W) map_kst) = Inr 0"
    using page_insert_exec(1) [OF map_kst_wf(2,3) m(2) _ map_kst_wf(6) _ b] by (simp add: PDX_div PGNUM_div)
  then have run: "sys_page_map 0 0x800000 0 0x801000 PTE_W map_kst
      = (Inr 0, snd (sys_page_map 0 0x800000 0 0x801000 PTE_W map_kst))"
    using r by (metis prod.collapse)
  have "PGNUM 0x801FFC = PGNUM 0x801000" by (simp add: PGNUM_div)
  moreover have "PGNUM 0x7007 = 7" by (simp add: PGNUM_div)
  ultimately show ?thesis
    using page_map_shares [OF map_kst_wf(1) map_kst_simps(1) target_self map_kst_simps(2) target_self map_kst_simps(2)
      map_kst_wf(2,3) m(1) map_kst_wf(3) m(2,3) run] map_kst_wf(4)
    by (simp add: page2pa_def)
qed

text \<open>sys\_exofork, when there is a slot and a frame, makes a child the parent may act on: it is
  NOT\_RUNNABLE, has the parent's registers except that its own call returns 0, the parent's
  priority and an id of its own, which is what the parent's call returns. No other environment changes.\<close>

theorem exofork_child:
  assumes "env_table s (e # es)" "free_pages s (f # fs)" "wf_kern_pgdir s (f # fs)"
    and c: "curenv s = Some c" "c < NENV" "env_status (envs s c) \<noteq> ENV_FREE"
  shows "\<exists>s'. sys_exofork s = (Inr (env_id (envs s' e)), s') \<and> env_table s' es
    \<and> env_status (envs s' e) = ENV_NOT_RUNNABLE \<and> env_tf (envs s' e) = set_eax 0 (env_tf (envs s c))
    \<and> env_priority (envs s' e) = env_priority (envs s c) \<and> env_type (envs s' e) = ENV_TYPE_USER
    \<and> target s' c (env_id (envs s' e)) True = Some e \<and> (\<forall>x. x \<noteq> e \<longrightarrow> envs s' x = envs s x)"
proof -
  have k: "kern_pgdir s \<noteq> f" using assms(3) by (auto simp: wf_kern_pgdir_def wf_pgdir_def)
  have ec: "c \<noteq> e" using assms(1) c(2,3) by (auto simp: env_table_def)
  let ?a = "alloc_post e f (env_id (envs s c)) s"
  have al: "env_alloc (env_id (envs s c)) s = (Inr (Inr e), ?a)" by (rule env_alloc_exec [OF assms(1,2) k])
  let ?g = "\<lambda>v. v\<lparr>env_status := ENV_NOT_RUNNABLE, env_tf := set_eax 0 (env_tf (envs s c)),
      env_priority := env_priority (envs s c)\<rparr>"
  let ?s = "upd_env e ?g ?a"
  have run: "sys_exofork s = (Inr (env_id (envs ?s e)), ?s)"
    using c(1) al ec by (simp add: sys_exofork_def bnd_def thn_def) (simp add: upd_env_def fun_eq_iff)
  have e: "e < NENV" "slot_id e (env_id (envs s e))" using assms(1) by (auto simp: env_table_def)
  have tab: "env_table ?s es"
    using env_table_alloc [OF assms(1), of f "env_id (envs s c)"]
    by (subst env_table_fields [where s = ?a]) (auto simp: init_env_def)
  have "env_named ?s (env_id (envs ?s e)) e" "env_permitted ?s c e"
    using e ec by (auto simp: env_named_def env_permitted_def init_env_def)
  then have "target ?s c (env_id (envs ?s e)) True = Some e" using target_named [OF tab] by blast
  then show ?thesis using run tab by (intro exI [of _ ?s]) (auto simp: init_env_def)
qed

theorem exofork_child_witness:
  "env_status (envs (snd (sys_exofork sys_kst)) 2) = ENV_NOT_RUNNABLE"
proof -
  have n: "[2..<NENV] = 2 # [3..<NENV]"
    by (subst upt_conv_Cons) (simp_all add: NENV_def numeral_3_eq_3)
  have "wf_kern_pgdir sys_kst [4, 3, 2, 1]"
    by (auto simp: wf_kern_pgdir_def wf_pgdir_def sys_kst_def alloc_pmem)
  from exofork_child [OF sys_kst_wf(1) [unfolded n] sys_kst_wf(2) this, of 0] show ?thesis
    by (auto simp: NENV_def)
qed

text \<open>What a temporary page directory leaves behind when it is given back at once.\<close>

lemma setup_decref:
  assumes "free_pages s (f # fs)"
  shows "pp_link (pages (setup_post e f s) f) = None" "pp_ref (pages (setup_post e f s) f) = 1"
    "x \<noteq> f \<Longrightarrow> pages (setup_post e f s) x = pages s x"
  using assms by (auto simp: setup_post_def free_pages_def)

text \<open>C14: sys\_thread\_create, with a valid entry and stack, makes a thread of the process that owns the
  caller's address space: it shares that page directory, which gains one reference; the temporary
  directory goes back to the free list; it starts at the given entry and stack with the caller's
  priority, ready; and no other environment changes.\<close>

theorem thread_create_shares:
  assumes "env_table s (e # es)" "free_pages s (f # fs)" "wf_kern_pgdir s (f # fs)"
    and c: "curenv s = Some c" "c < NENV" "env_status (envs s c) \<noteq> ENV_FREE"
    and d: "env_pgdir (envs s c) = Some d" "d < npages s" "d \<notin> set (f # fs)"
    and arg: "entry < UTOP" "stack \<le> UTOP" "stack \<noteq> 0"
  shows "\<exists>s'. sys_thread_create entry stack s = (Inr (env_id (envs s' e)), s')
    \<and> env_table s' es \<and> free_pages s' (f # fs) \<and> pp_ref (pages s' d) = pp_ref (pages s d) + 1
    \<and> env_type (envs s' e) = ENV_TYPE_THREAD \<and> env_pgdir (envs s' e) = Some d
    \<and> env_parent_id (envs s' e) = thread_owner (envs s c) \<and> env_status (envs s' e) = ENV_RUNNABLE
    \<and> env_priority (envs s' e) = env_priority (envs s c)
    \<and> tf_eip (env_tf (envs s' e)) = entry \<and> tf_esp (env_tf (envs s' e)) = stack
    \<and> (\<forall>x. x \<noteq> e \<longrightarrow> envs s' x = envs s x)"
proof -
  have k: "kern_pgdir s \<noteq> f" using assms(3) by (auto simp: wf_kern_pgdir_def wf_pgdir_def)
  have ec: "c \<noteq> e" using assms(1) c(2,3) by (auto simp: env_table_def)
  have f: "f < npages s" "npages s \<le> 2 ^ 20" "f \<notin> set fs" "d \<noteq> f"
    using assms(2) d(3) by (auto simp: free_pages_def list_rep_def)
  let ?o = "thread_owner (envs s c)"
  let ?a = "alloc_post e f ?o s"
  have al: "env_alloc ?o s = (Inr (Inr e), ?a)" by (rule env_alloc_exec [OF assms(1,2) k])
  let ?a1 = "upd_env e (\<lambda>v. v\<lparr>env_pgdir := None\<rparr>) ?a"
  have pg: "pages ?a1 = pages (setup_post e f s)" by simp
  note sd = setup_decref [OF assms(2), where e = e]
  have dec: "page_decref f ?a1 = (Inr (), decref_post f ?a1)"
    by (rule page_decref_exec) (simp only: pg sd)
  have pf: "pa2page (page2pa f) t = (Inr f, t)" if "npages t = npages s" for t
    using that pa2page_exec [of "page2pa f" t] f(1,2) by simp
  have pd: "pa2page (page2pa d) t = (Inr d, t)" if "npages t = npages s" for t
    using that pa2page_exec [of "page2pa d" t] d(2) f(2) by simp
  let ?a2 = "decref_post f ?a1"
  let ?a3 = "upd_page d (\<lambda>p. p\<lparr>pp_ref := pp_ref p + 1\<rparr>) (upd_env e (\<lambda>v. v\<lparr>env_pgdir := Some d\<rparr>) ?a2)"
  let ?s = "upd_env e (\<lambda>v. v\<lparr>env_type := ENV_TYPE_THREAD, env_priority := env_priority (envs s c),
                 env_tf := (env_tf v)\<lparr>tf_eip := entry, tf_esp := stack\<rparr>\<rparr>) ?a3"
  have valid: "(entry \<ge> UTOP \<or> stack > UTOP \<or> stack = 0) = False" using arg by (simp add: not_le not_less)
  have run: "sys_thread_create entry stack s = (Inr (env_id (envs ?s e)), ?s)"
    using c(1) d(1) ec al dec pf pd unfolding sys_thread_create_def valid if_False
    by (simp add: env_pgdir_of_def bnd_def thn_def page_incref_def init_env_def)
  have "free_pages ?a1 fs" using free_pages_alloc [OF assms(2)] free_pages_cong [of ?a1 ?a fs] by simp
  from free_pages_decref [OF this f(3)] have "free_pages ?a2 (f # fs)" using f(1) sd(2) pg by simp
  then have "free_pages ?a3 (f # fs)"
    by (intro free_pages_set_ref) (use d(3) in \<open>simp_all add: free_pages_cong [of "upd_env e (\<lambda>v. v\<lparr>env_pgdir := Some d\<rparr>) ?a2" ?a2]\<close>)
  then have fp: "free_pages ?s (f # fs)" using free_pages_cong [of ?s ?a3] by simp
  have tab: "env_table ?s es"
    using env_table_alloc [OF assms(1), of f ?o]
    by (subst env_table_fields [where s = ?a]) (auto simp: init_env_def)
  have "pp_ref (pages ?s d) = pp_ref (pages s d) + 1" using f(4) sd(3) by simp
  then show ?thesis using run fp tab by (intro exI [of _ ?s]) (auto simp: init_env_def)
qed

theorem thread_create_shares_witness:
  "env_pgdir (envs (snd (sys_thread_create 0x800020 0xEEBFE000 sys_kst)) 2) = Some 6"
proof -
  have n: "[2..<NENV] = 2 # [3..<NENV]"
    by (subst upt_conv_Cons) (simp_all add: NENV_def numeral_3_eq_3)
  have "wf_kern_pgdir sys_kst [4, 3, 2, 1]"
    by (auto simp: wf_kern_pgdir_def wf_pgdir_def sys_kst_def alloc_pmem)
  from thread_create_shares [OF sys_kst_wf(1) [unfolded n] sys_kst_wf(2) this, of 0 6 "0x800020" "0xEEBFE000"]
  show ?thesis by (auto simp: NENV_def)
qed

end
