(* ===== verification/Trap.thy ===== *)
theory Trap
  imports Syscall
begin

text \<open>
  Traps (kern/trap.c): the names and the printing of trap frames, the interrupt descriptor table and
  the per-CPU task state, the dispatch of a trap, and the reflection of page faults to user mode.

  \<^item> \<open>tfref\<close> is a \<open>struct Trapframe *\<close>: the frame on the kernel stack, or \<open>env_tf\<close> of an environment.
    A store into a stack frame is not read again, so it has no effect.
  \<^item> \<open>trap_hw\<close> is what the handler reads from the processor: CR2, EFLAGS, and whether another CPU
    has panicked.
  \<^item> \<open>handler\<close> gives the addresses of the entry points of kern/trapentry.S.
\<close>

section \<open>Trap numbers (inc/trap.h)\<close>

definition T_DIVIDE :: u32 where [simp]: "T_DIVIDE = 0"
definition T_BRKPT :: u32 where [simp]: "T_BRKPT = 3"
definition T_PGFLT :: u32 where [simp]: "T_PGFLT = 14"
definition T_SYSCALL :: u32 where [simp]: "T_SYSCALL = 48"
definition IRQ_OFFSET :: u32 where [simp]: "IRQ_OFFSET = 32"
definition IRQ_TIMER :: u32 where [simp]: "IRQ_TIMER = 0"
definition IRQ_SPURIOUS :: u32 where [simp]: "IRQ_SPURIOUS = 7"
definition GD_KD :: u16 where [simp]: "GD_KD = 0x10"
definition GD_TSS0 :: u16 where [simp]: "GD_TSS0 = 0x28"

section \<open>Printing trap frames\<close>

definition excnames :: "string list" where
  "excnames = [''Divide error'', ''Debug'', ''Non-Maskable Interrupt'', ''Breakpoint'', ''Overflow'',
     ''BOUND Range Exceeded'', ''Invalid Opcode'', ''Device Not Available'', ''Double Fault'',
     ''Coprocessor Segment Overrun'', ''Invalid TSS'', ''Segment Not Present'', ''Stack Fault'',
     ''General Protection'', ''Page Fault'', ''(unknown trap)'', ''x87 FPU Floating-Point Error'',
     ''Alignment Check'', ''Machine-Check'', ''SIMD Floating-Point Exception'']"

text \<open>The first comparison is unsigned (with a sizeof), the last one is between ints.\<close>

definition trapname :: "u32 \<Rightarrow> string" where
  "trapname trapno =
     (if unat trapno < length excnames then excnames ! unat trapno
      else if trapno = T_SYSCALL then ''System call''
      else if IRQ_OFFSET \<le>s trapno \<and> trapno <s IRQ_OFFSET + 16 then ''Hardware Interrupt''
      else ''(unknown trap)'')"

definition print_regs :: "PushRegs \<Rightarrow> unit K" where
  "print_regs regs =
     thn (cprintf ''  edi  0x%08x\<newline>'' [reg_edi regs])
     (thn (cprintf ''  esi  0x%08x\<newline>'' [reg_esi regs])
     (thn (cprintf ''  ebp  0x%08x\<newline>'' [reg_ebp regs])
     (thn (cprintf ''  oesp 0x%08x\<newline>'' [reg_oesp regs])
     (thn (cprintf ''  ebx  0x%08x\<newline>'' [reg_ebx regs])
     (thn (cprintf ''  edx  0x%08x\<newline>'' [reg_edx regs])
     (thn (cprintf ''  ecx  0x%08x\<newline>'' [reg_ecx regs])
     (cprintf ''  eax  0x%08x\<newline>'' [reg_eax regs])))))))"

text \<open>
  \<open>is_last\<close> says that the frame is \<open>last_tf\<close>, the one of the trap being handled; \<open>cr2\<close> is read only
  then. The address of the frame, which is printed with %p, is left out.
\<close>

definition print_trapframe :: "bool \<Rightarrow> u32 \<Rightarrow> Trapframe \<Rightarrow> unit K" where
  "print_trapframe is_last cr2 tf = bnd (gets cpunum) (\<lambda>cpu.
     thn (cprintf ''TRAP frame at %p from CPU %d\<newline>'' [of_nat cpu])
     (thn (print_regs (tf_regs tf))
     (thn (cprintf ''  es   0x----%04x\<newline>'' [ucast (tf_es tf)])
     (thn (cprintf ''  ds   0x----%04x\<newline>'' [ucast (tf_ds tf)])
     (thn (cprintf (''  trap 0x%08x '' @ trapname (tf_trapno tf) @ ''\<newline>'') [tf_trapno tf])
     (thn (whenM (is_last \<and> tf_trapno tf = T_PGFLT) (cprintf ''  cr2  0x%08x\<newline>'' [cr2]))
     (thn (cprintf ''  err  0x%08x'' [tf_err tf])
     (thn (if tf_trapno tf = T_PGFLT
           then cprintf ('' ['' @ (if tf_err tf AND 4 \<noteq> 0 then ''user'' else ''kernel'') @ '', ''
                  @ (if tf_err tf AND 2 \<noteq> 0 then ''write'' else ''read'') @ '', ''
                  @ (if tf_err tf AND 1 \<noteq> 0 then ''protection'' else ''not-present'') @ '']\<newline>'') []
           else cprintf ''\<newline>'' [])
     (thn (cprintf ''  eip  0x%08x\<newline>'' [tf_eip tf])
     (thn (cprintf ''  cs   0x----%04x\<newline>'' [ucast (tf_cs tf)])
     (thn (cprintf ''  flag 0x%08x\<newline>'' [tf_eflags tf])
     (whenM (tf_cs tf AND 3 \<noteq> 0)
        (thn (cprintf ''  esp  0x%08x\<newline>'' [tf_esp tf])
             (cprintf ''  ss   0x----%04x\<newline>'' [ucast (tf_ss tf)]))))))))))))))"

section \<open>The interrupt descriptor table\<close>

record Gatedesc =
  gd_off_15_0 :: u16
  gd_sel :: u16
  gd_args :: u8
  gd_rsv1 :: u8
  gd_type :: u8
  gd_s :: bool
  gd_dpl :: u8
  gd_p :: bool
  gd_off_31_16 :: u16

definition STS_IG32 :: u8 where [simp]: "STS_IG32 = 0xE"
definition STS_TG32 :: u8 where [simp]: "STS_TG32 = 0xF"
definition STS_T32A :: u8 where [simp]: "STS_T32A = 0x9"

definition zero_gate :: Gatedesc where
  "zero_gate = \<lparr>gd_off_15_0 = 0, gd_sel = 0, gd_args = 0, gd_rsv1 = 0, gd_type = 0, gd_s = False,
     gd_dpl = 0, gd_p = False, gd_off_31_16 = 0\<rparr>"

definition SETGATE :: "bool \<Rightarrow> u16 \<Rightarrow> u32 \<Rightarrow> u8 \<Rightarrow> Gatedesc" where
  "SETGATE istrap sel off dpl = \<lparr>gd_off_15_0 = ucast (off AND 0xffff), gd_sel = sel, gd_args = 0, gd_rsv1 = 0,
     gd_type = (if istrap then STS_TG32 else STS_IG32), gd_s = False, gd_dpl = dpl, gd_p = True,
     gd_off_31_16 = ucast (drop_bit 16 off)\<rparr>"

text \<open>The vectors trap\_init sets, in its order, with the privilege that may raise them with \<open>int\<close>.\<close>

definition trap_gates :: "(nat \<times> u8) list" where
  "trap_gates = [(0, 0), (1, 0), (2, 0), (3, 3), (4, 0), (5, 0), (6, 0), (7, 0), (8, 0), (10, 0), (11, 0),
     (12, 0), (13, 0), (14, 0), (16, 0), (17, 0), (18, 0), (19, 0), (48, 3), (32, 0)]"

definition trap_init :: "(nat \<Rightarrow> u32) \<Rightarrow> (nat \<Rightarrow> Gatedesc) \<Rightarrow> nat \<Rightarrow> Gatedesc" where
  "trap_init handler idt = fold (\<lambda>(n, dpl) idt. idt(n := SETGATE False GD_KT (handler n) dpl)) trap_gates idt"

text \<open>The task state segment of a CPU (the fields the kernel sets) and its descriptor.\<close>

record Taskstate =
  ts_esp0 :: u32
  ts_ss0 :: u16
  ts_iomb :: u16

record Segdesc =
  sd_base :: u32
  sd_lim :: u32
  sd_type :: u8
  sd_s :: bool
  sd_dpl :: u8

definition SEG16 :: "u8 \<Rightarrow> u32 \<Rightarrow> u32 \<Rightarrow> u8 \<Rightarrow> Segdesc" where
  "SEG16 type base lim dpl = \<lparr>sd_base = base, sd_lim = lim AND 0xfffff, sd_type = type, sd_s = True, sd_dpl = dpl\<rparr>"

definition TSS_SIZE :: u32 where [simp]: "TSS_SIZE = 104"

definition percpu_tss :: "u8 \<Rightarrow> Taskstate" where
  "percpu_tss cpu_id = \<lparr>ts_esp0 = KSTACKTOP - ucast cpu_id * (KSTKGAP + KSTKSIZE), ts_ss0 = GD_KD, ts_iomb = ucast TSS_SIZE\<rparr>"

text \<open>The table entry, and the selector that ltr loads.\<close>

definition trap_init_percpu :: "u8 \<Rightarrow> u32 \<Rightarrow> (nat \<Rightarrow> Segdesc) \<Rightarrow> (nat \<Rightarrow> Segdesc) \<times> u16" where
  "trap_init_percpu cpu_id thists gdt =
     (gdt(unat (drop_bit 3 GD_TSS0) + unat cpu_id := (SEG16 STS_T32A thists (TSS_SIZE - 1) 0)\<lparr>sd_s := False\<rparr>),
      GD_TSS0 + push_bit 3 (ucast cpu_id))"

section \<open>Handling a trap\<close>

datatype tfref = StackFrame Trapframe | EnvFrame nat

definition frame_of :: "tfref \<Rightarrow> kst \<Rightarrow> Trapframe" where
  "frame_of r s = (case r of StackFrame tf \<Rightarrow> tf | EnvFrame e \<Rightarrow> env_tf (envs s e))"

definition upd_frame :: "tfref \<Rightarrow> (Trapframe \<Rightarrow> Trapframe) \<Rightarrow> unit K" where
  "upd_frame r f = (case r of StackFrame _ \<Rightarrow> ret ()
     | EnvFrame e \<Rightarrow> modify (upd_env e (\<lambda>v. v\<lparr>env_tf := f (env_tf v)\<rparr>)))"

record trap_hw =
  hw_cr2 :: u32
  hw_eflags :: u32
  hw_panicked :: bool

text \<open>The kernel monitor: its command loop never ends (theory Monitor).\<close>

definition monitor :: "trap_hw \<Rightarrow> Trapframe option \<Rightarrow> 'a K" where
  "monitor hw tf =
     thn (cprintf ''Welcome to the JOS kernel monitor!\<newline>'' [])
     (thn (cprintf ''Type 'help' for a list of commands.\<newline>'' [])
     (thn (case tf of None \<Rightarrow> ret () | Some f \<Rightarrow> print_trapframe True (hw_cr2 hw) f)
     (exit_with Monitor)))"

text \<open>
  A store of the kernel through a user address, in the address space of the current environment: it
  faults, in kernel mode, unless the pages of its first and last byte are mapped writable (CR0.WP is set).
\<close>

definition writable :: "kst \<Rightarrow> nat \<Rightarrow> u32 \<Rightarrow> bool" where
  "writable s d va \<longleftrightarrow> (let pde = pmem s d (PDX va) in
     pde AND PTE_P \<noteq> 0 \<and> pde AND PTE_W \<noteq> 0 \<and> upte s d va AND PTE_P \<noteq> 0 \<and> upte s d va AND PTE_W \<noteq> 0)"

definition user_store :: "nat \<Rightarrow> u32 \<Rightarrow> u32 \<Rightarrow> event \<Rightarrow> unit K" where
  "user_store e va len ev = bnd (bnd (gets (\<lambda>s. env_pgdir (envs s e))) deref) (\<lambda>d.
     bnd (gets (\<lambda>s. writable s d va \<and> writable s d (va + len - 1))) (\<lambda>ok.
     if ok then emit ev else panic ''page fault in kernel mode\<newline>''))"

definition UTF_SIZE :: u32 where [simp]: "UTF_SIZE = 52"

definition fault_frame :: "u32 \<Rightarrow> Trapframe \<Rightarrow> UTrapframe" where
  "fault_frame fault_va tf = \<lparr>utf_fault_va = fault_va, utf_err = tf_err tf, utf_regs = tf_regs tf,
     utf_eip = tf_eip tf, utf_eflags = tf_eflags tf, utf_esp = tf_esp tf\<rparr>"

definition EXSTK :: u32 where "EXSTK = UXSTACKTOP - PGSIZE"
definition EXSTK_TOP :: u32 where "EXSTK_TOP = UXSTACKTOP - 1"

text \<open>Whether the fault came from the exception stack itself, and where its frame goes.\<close>

definition on_exstk :: "u32 \<Rightarrow> bool" where
  "on_exstk esp \<longleftrightarrow> \<not> (esp < EXSTK \<or> esp > EXSTK_TOP)"

definition frame_addr :: "u32 \<Rightarrow> u32" where
  "frame_addr esp = (if on_exstk esp then esp - 4 - UTF_SIZE else EXSTK_TOP - UTF_SIZE)"

definition page_fault_handler :: "trap_hw \<Rightarrow> tfref \<Rightarrow> unit K" where
  "page_fault_handler hw r = bnd (gets (frame_of r)) (\<lambda>tf. let fault_va = hw_cr2 hw in
     if tf_cs tf AND 3 = 0 then panic ''page fault in kernel mode\<newline>''
     else bnd the_curenv (\<lambda>c. bnd (gets (\<lambda>s. env_pgfault_upcall (envs s c))) (\<lambda>upcall.
       if upcall \<noteq> 0 then
         thn (user_mem_assert c EXSTK PGSIZE (PTE_U OR PTE_W))
         (bnd (gets (frame_of r)) (\<lambda>tf.
          let utf = fault_frame fault_va tf; tmp = frame_addr (utf_esp utf) in
          thn (whenM (on_exstk (utf_esp utf)) (user_store c (utf_esp utf - 4) 4 (UserStore (utf_esp utf - 4) 0)))
          (thn (user_store c tmp UTF_SIZE (UserStoreFrame tmp utf))
          (if tmp < EXSTK \<or> tmp > EXSTK_TOP then panic ''page_fault_handler: exception stack overflow''
           else thn (upd_frame r (\<lambda>f. f\<lparr>tf_esp := tmp, tf_eip := upcall\<rparr>)) (env_run c)))))
       else bnd (gets (\<lambda>s. env_id (envs s c))) (\<lambda>cid.
         thn (cprintf ''[%08x] user fault va %08x ip %08x\<newline>'' [cid, fault_va, tf_eip tf])
         (thn (print_trapframe True (hw_cr2 hw) tf)
         (env_destroy c))))))"

definition timer_tick :: "unit K" where
  "timer_tick = thn (emit LapicEoi)
     (thn (modify (\<lambda>s. s\<lparr>ticks := ticks s + 1\<rparr>))
     (thn sched_wakeup_sleeping sched_yield))"

definition trap_dispatch :: "trap_hw \<Rightarrow> tfref \<Rightarrow> unit K" where
  "trap_dispatch hw r = bnd (gets (frame_of r)) (\<lambda>tf.
     if tf_trapno tf = T_BRKPT then monitor hw (Some tf)
     else if tf_trapno tf = T_PGFLT then page_fault_handler hw r
     else if tf_trapno tf = T_SYSCALL then
       let g = tf_regs tf in
       bnd (syscall (reg_eax g) (reg_edx g) (reg_ecx g) (reg_ebx g) (reg_edi g) (reg_esi g)) (\<lambda>v.
       upd_frame r (set_eax v))
     else if tf_trapno tf = IRQ_OFFSET + IRQ_SPURIOUS then
       thn (cprintf ''Spurious interrupt on irq 7\<newline>'' []) (print_trapframe True (hw_cr2 hw) tf)
     else if tf_trapno tf - IRQ_OFFSET = IRQ_TIMER then timer_tick
     else thn (print_trapframe True (hw_cr2 hw) tf)
         (if tf_cs tf = GD_KT then panic ''unhandled trap in kernel''
          else bnd the_curenv env_destroy))"

text \<open>The end of trap: back to the current environment if it is still running.\<close>

definition trap_return :: "'a K" where
  "trap_return = bnd (gets cur_running) (\<lambda>r. case r of Some c \<Rightarrow> env_run c | None \<Rightarrow> sched_yield)"

text \<open>A zombie, killed by another CPU while it ran here, is freed when it comes back.\<close>

definition reap :: "nat \<Rightarrow> unit K" where
  "reap c = bnd (gets (\<lambda>s. env_status (envs s c) = ENV_DYING)) (\<lambda>dying.
     whenM dying (thn (env_free c) (thn (modify (set_curenv None)) sched_yield)))"

definition enter_user_trap :: "Trapframe \<Rightarrow> tfref K" where
  "enter_user_trap tf = thn lock_kernel (bnd (gets curenv) (\<lambda>cur. case cur of
       None \<Rightarrow> panic ''assertion failed: curenv''
     | Some c \<Rightarrow> thn (reap c)
         (thn (modify (upd_env c (\<lambda>v. v\<lparr>env_tf := tf\<rparr>))) (ret (EnvFrame c)))))"

definition handle_trap :: "trap_hw \<Rightarrow> Trapframe \<Rightarrow> 'a K" where
  "handle_trap hw tf = bnd (if tf_cs tf AND 3 = 3 then enter_user_trap tf else ret (StackFrame tf)) (\<lambda>r.
     thn (trap_dispatch hw r) trap_return)"

definition trap :: "trap_hw \<Rightarrow> Trapframe \<Rightarrow> 'a K" where
  "trap hw tf =
     (if hw_panicked hw then exit_with Idle else
      bnd (gets (\<lambda>s. cpu_status (cpus s (cpunum s)))) (\<lambda>old.
      thn (modify (set_cpu_status CPU_STARTED))
      (thn (whenM (old = CPU_HALTED) lock_kernel)
      (if hw_eflags hw AND FL_IF \<noteq> 0 then panic ''assertion failed: !(read_eflags() & FL_IF)''
       else handle_trap hw tf))))"

section \<open>Properties\<close>

text \<open>Of the vectors trap\_init sets up, a user program can raise only the breakpoint and the system
  call itself; every gate is a present interrupt gate (interrupts are off in the handler) into the
  kernel's code segment, its two halves give back the handler's address, and no other vector is present.\<close>

theorem user_callable_gates:
  "let g = trap_init handler (\<lambda>_. zero_gate) n in
     gd_dpl g = (if n \<in> {3, 48} then 3 else 0)
     \<and> gd_p g = (n \<in> {0..19} - {9, 15} \<union> {32, 48})
     \<and> (if gd_p g then gd_sel g = GD_KT \<and> gd_type g = STS_IG32
          \<and> push_bit 16 (ucast (gd_off_31_16 g)) OR ucast (gd_off_15_0 g) = handler n
        else g = zero_gate)"
proof -
  have off: "push_bit 16 (ucast (ucast (drop_bit 16 w) :: u16)) OR ucast (ucast (w AND 0xffff) :: u16) = w" for w :: u32
  proof (rule bit_word_eqI)
    fix k assume k: "k < LENGTH(32)"
    have m: "(0xffff :: u32) = mask 16" by (simp add: mask_eq_exp_minus_1)
    show "bit (push_bit 16 (ucast (ucast (drop_bit 16 w) :: u16)) OR ucast (ucast (w AND 0xffff) :: u16) :: u32) k \<longleftrightarrow> bit w k"
      using k by (auto simp: m bit_simps)
  qed
  let ?vs = "map fst trap_gates"
  have get: "fold (\<lambda>(n, dpl) idt. idt(n := SETGATE False GD_KT (handler n) dpl)) gs idt n
      = (case map_of (rev gs) n of None \<Rightarrow> idt n | Some dpl \<Rightarrow> SETGATE False GD_KT (handler n) dpl)" for gs idt
    by (induction gs rule: rev_induct) (auto split: option.splits)
  have dom: "map_of (rev trap_gates) n = (if n \<in> {0..19} - {9, 15} \<union> {32, 48}
      then Some (if n \<in> {3, 48} then 3 else 0) else None)"
    by (auto simp: trap_gates_def) presburger
  show ?thesis
    unfolding trap_init_def get dom by (auto simp: SETGATE_def zero_gate_def off)
qed

text \<open>What the timer leaves: one more tick, the due sleepers ready.\<close>

definition woken :: "Trapframe \<Rightarrow> nat \<Rightarrow> kst \<Rightarrow> nat \<Rightarrow> Env" where
  "woken tf c s i = (let v = (if i = c then (envs s i)\<lparr>env_tf := tf\<rparr> else envs s i) in
     if i < NENV \<and> wakes (ticks s + 1) v then v\<lparr>env_sleep_until := 0, env_status := ENV_RUNNABLE\<rparr> else v)"

text \<open>C31: a timer interrupt that preempts the running environment always ends in user mode, in an
  environment that was ready, was woken by this very tick, or is the preempted one; the tick count
  has grown by one, the interrupt is acknowledged, the preempted registers are saved, every sleeper
  whose time has come is ready, and the kernel lock is free.\<close>

theorem timer_preempts:
  assumes hw: "\<not> hw_panicked hw" "hw_eflags hw AND FL_IF = 0"
    and tf: "tf_cs tf AND 3 = 3" "tf_trapno tf = IRQ_OFFSET + IRQ_TIMER"
    and cpu: "cpu_status (cpus s (cpunum s)) = CPU_STARTED" "lock_free s"
    and c: "curenv s = Some c" "env_status (envs s c) = ENV_RUNNING"
    and dirs: "\<And>e. env_status (envs s e) \<noteq> ENV_FREE \<Longrightarrow> \<exists>d. env_pgdir (envs s e) = Some d \<and> d < 2 ^ 20"
  shows "\<exists>e s1 s'. (trap hw tf :: unit K) s = (Inl (UserMode e), s') \<and> lock_free s' \<and> curenv s' = Some e
    \<and> (trap hw tf :: unit K) s = sched_yield s1 \<and> ticks s1 = ticks s + 1 \<and> hd (trace s1) = LapicEoi
    \<and> envs s1 = woken tf c s \<and> curenv s1 = Some c \<and> eligible s1 e"
proof -
  let ?s0 = "(set_cpu_status CPU_STARTED s)\<lparr>klock := \<lparr>locked = 1, lk_cpu = Some (cpunum s)\<rparr>\<rparr>"
  let ?s2 = "upd_env c (\<lambda>v. v\<lparr>env_tf := tf\<rparr>) ?s0"
  let ?s1 = "?s2\<lparr>trace := LapicEoi # trace ?s2, ticks := ticks ?s2 + 1, envs := woken tf c s\<rparr>"
  have f: "envs ?s0 = envs s" "curenv ?s0 = Some c" "lock_held ?s0" "ticks ?s0 = ticks s" "cpunum ?s0 = cpunum s"
    using c(1) by (simp_all add: set_cpu_status_def curenv_def holding_def)
  have lock: "lock_kernel (set_cpu_status CPU_STARTED s) = (Inr (), ?s0)"
    using lock_kernel_exec [of "set_cpu_status CPU_STARTED s"] cpu(2) by (simp add: set_cpu_status_def)
  have reap: "reap c ?s0 = (Inr (), ?s0)" using c(2) f(1) by (simp add: reap_def)
  have enter: "enter_user_trap tf (set_cpu_status CPU_STARTED s) = (Inr (EnvFrame c), ?s2)"
    using lock reap f(2) by (simp add: enter_user_trap_def thn_def bnd_def)
  have wake: "sched_wakeup_sleeping (?s2\<lparr>trace := LapicEoi # trace ?s2, ticks := ticks ?s2 + 1\<rparr>) = (Inr (), ?s1)"
    unfolding sched_wakeup_exec
    by (auto simp: woken_def f upd_env_def fun_eq_iff set_cpu_status_def intro!: kst.equality)
  have tick: "timer_tick ?s2 = (sched_yield :: unit K) ?s1"
    using wake by (simp add: timer_tick_def thn_def bnd_def)
  have c1: "curenv ?s1 = Some c" using f(2) by simp
  have st: "env_status (envs ?s1 x) \<noteq> ENV_FREE \<Longrightarrow> env_status (envs s x) \<noteq> ENV_FREE"
    "env_pgdir (envs ?s1 x) = env_pgdir (envs s x)" for x
    by (auto simp: woken_def wakes_def split: if_splits)
  have "cur_running ?s1 = Some c"
    using c1 c(2) by (simp add: cur_running_def) (simp add: woken_def wakes_def)
  then have elc: "eligible ?s1 c" by (simp add: eligible_def)
  have ok: "sched_ok ?s1"
  proof -
    have "env_status (envs ?s1 e) \<noteq> ENV_FREE" if "eligible ?s1 e" for e
      using that by (auto simp: eligible_def runnable_def cur_running_def split: option.splits if_splits)
    moreover have "lock_held ?s1" using f(3) by simp
    ultimately show ?thesis unfolding sched_ok_def st(2) using dirs st(1) by blast
  qed
  obtain e p where ch: "choice ?s1 = Some (e, p)" using choice_complete [OF elc] by (metis not_None_eq surj_pair)
  obtain s' where run: "(sched_yield :: unit K) ?s1 = (Inl (UserMode e), s')" "curenv s' = Some e" "lock_free s'"
    using sched_yield_runs [OF ch ok, where 'a = unit] by auto
  have t: "trap_dispatch hw (EnvFrame c) ?s2 = (Inl (UserMode e), s')"
    using tick run(1) tf(2) by (simp add: trap_dispatch_def frame_of_def f)
  have "(trap hw tf :: unit K) s = (Inl (UserMode e), s')"
    using hw cpu(1) tf(1) enter t by (simp add: trap_def handle_trap_def bnd_def thn_def)
  then show ?thesis
    using run c1 choice_eligible [OF ch] by (intro exI [of _ e] exI [of _ ?s1] exI [of _ s']) simp
qed

lemma sys_kst_free: "e \<noteq> 0 \<Longrightarrow> e \<noteq> 1 \<Longrightarrow> env_status (envs sys_kst e) = ENV_FREE"
  by (auto simp: sys_kst_def boot_kst_def env_init_def env_init_fold zero_env_def)

theorem timer_preempts_witness:
  "\<exists>e s'. (trap \<lparr>hw_cr2 = 0, hw_eflags = 0, hw_panicked = False\<rparr> (user_tf\<lparr>tf_trapno := 32\<rparr>) :: unit K)
     ((set_cpu_status CPU_STARTED sys_kst)\<lparr>klock := \<lparr>locked = 0, lk_cpu = None\<rparr>\<rparr>) = (Inl (UserMode e), s')
     \<and> curenv s' = Some e"
proof -
  let ?s = "(set_cpu_status CPU_STARTED sys_kst)\<lparr>klock := \<lparr>locked = 0, lk_cpu = None\<rparr>\<rparr>"
  have "\<exists>d. env_pgdir (envs ?s e) = Some d \<and> d < 2 ^ 20" if "env_status (envs ?s e) \<noteq> ENV_FREE" for e
    using that sys_kst_free [of e] by (cases "e = 0"; cases "e = 1") auto
  then show ?thesis
    using timer_preempts [of "\<lparr>hw_cr2 = 0, hw_eflags = 0, hw_panicked = False\<rparr>" "user_tf\<lparr>tf_trapno := 32\<rparr>" ?s 0]
    by (auto simp: user_tf_def) (auto simp: set_cpu_status_def)
qed

section \<open>Page faults\<close>

text \<open>The exception stack of an address space: its one page is mapped for the user to write.\<close>

definition exstk_ok :: "kst \<Rightarrow> nat \<Rightarrow> bool" where
  "exstk_ok s d \<longleftrightarrow> page_ok s d (PTE_U OR PTE_W) EXSTK \<and> writable s d EXSTK"

lemma writable_page: "PGNUM a = PGNUM b \<Longrightarrow> writable s d a = writable s d b"
  using upte_PGNUM [of a b s d] by (simp add: writable_def same_page_iff)

lemma exstk_page: "PGNUM va = PGNUM EXSTK \<longleftrightarrow> EXSTK \<le> va \<and> va \<le> EXSTK_TOP"
  by (simp add: PGNUM_div EXSTK_def EXSTK_TOP_def word_le_nat_alt) arith

lemma exstk_assert:
  assumes "wf_pgdir s fl d" "env_pgdir (envs s c) = Some d" "exstk_ok s d"
  shows "user_mem_assert c EXSTK PGSIZE (PTE_U OR PTE_W) s = (Inr (), s)"
proof -
  have n: "PGNUM EXSTK = 977919" "PGNUM (ROUNDUP (EXSTK + PGSIZE) PGSIZE) = Suc 977919"
    "\<not> ROUNDUP (EXSTK + PGSIZE) PGSIZE > UTOP" "of_nat 977919 * PGSIZE = EXSTK"
    by (simp_all add: EXSTK_def ROUNDUP_def ROUNDDOWN_def PGNUM_div)
  have l: "[k..<Suc k] = [k]" for k :: nat by simp
  have "user_mem_check (Some d) EXSTK PGSIZE ((PTE_U OR PTE_W) OR PTE_U) s = (Inr 0, s)"
    unfolding user_mem_check_def Let_def if_not_P [OF n(3)] n(1,2) l user_mem_scan_exec [OF assms(1)] find.simps n(4)
    using assms(3) by (simp add: exstk_ok_def)
  then show ?thesis using assms(2) by (simp add: user_mem_assert_def bnd_def)
qed

lemma exstk_ok_cong: "pmem s' = pmem s \<Longrightarrow> exstk_ok s' d = exstk_ok s d"
  by (simp add: exstk_ok_def page_ok_def writable_def upte_def)

lemma user_store_cases:
  assumes "env_pgdir (envs s c) = Some d"
  obtains "user_store c va len ev s = (Inr (), s\<lparr>trace := ev # trace s\<rparr>)"
    | "user_store c va len ev s = (Inl (Panic ''page fault in kernel mode\<newline>''), s)"
proof (cases "writable s d va \<and> writable s d (va + len - 1)")
  case True
  then show thesis using assms by (intro that(1)) (simp add: user_store_def bnd_def)
next
  case False
  then show thesis using assms by (intro that(2)) (auto simp: user_store_def bnd_def)
qed

lemma user_store_exec:
  assumes "env_pgdir (envs s c) = Some d" "exstk_ok s d"
    and "EXSTK \<le> va" "va \<le> EXSTK_TOP" "EXSTK \<le> va + len - 1" "va + len - 1 \<le> EXSTK_TOP"
  shows "user_store c va len ev s = (Inr (), s\<lparr>trace := ev # trace s\<rparr>)"
proof -
  have w: "writable s d a" if "EXSTK \<le> a" "a \<le> EXSTK_TOP" for a
    using writable_page [of a EXSTK s d] exstk_page [of a] that assms(2) unfolding exstk_ok_def by blast
  have "writable s d va" "writable s d (va + len - 1)" using w assms(3-6) by blast+
  then show ?thesis using assms(1) by (simp add: user_store_def bnd_def)
qed

lemma frame_addr_room:
  assumes "on_exstk esp \<longrightarrow> EXSTK + 56 \<le> esp"
  shows "EXSTK \<le> frame_addr esp" "frame_addr esp \<le> EXSTK_TOP" "frame_addr esp + UTF_SIZE - 1 \<le> EXSTK_TOP"
    "EXSTK \<le> frame_addr esp + UTF_SIZE - 1" "on_exstk esp \<Longrightarrow> frame_addr esp + 56 = esp"
    "on_exstk esp \<Longrightarrow> EXSTK \<le> esp - 4 \<and> esp - 4 \<le> EXSTK_TOP \<and> EXSTK \<le> esp - 4 + 4 - 1 \<and> esp - 4 + 4 - 1 \<le> EXSTK_TOP"
proof -
  have u: "unat (esp - 56) = unat esp - 56" "unat (esp - 4) = unat esp - 4" "unat (esp - 1) = unat esp - 1"
    "unat (esp - 5) = unat esp - 5"
    if "on_exstk esp"
    using that assms by (simp_all add: unat_sub on_exstk_def EXSTK_def EXSTK_TOP_def word_le_nat_alt)
  show "on_exstk esp \<Longrightarrow> frame_addr esp + 56 = esp" by (simp add: frame_addr_def)
  show "EXSTK \<le> frame_addr esp" "frame_addr esp \<le> EXSTK_TOP" "frame_addr esp + UTF_SIZE - 1 \<le> EXSTK_TOP"
    "EXSTK \<le> frame_addr esp + UTF_SIZE - 1"
    "on_exstk esp \<Longrightarrow> EXSTK \<le> esp - 4 \<and> esp - 4 \<le> EXSTK_TOP \<and> EXSTK \<le> esp - 4 + 4 - 1 \<and> esp - 4 + 4 - 1 \<le> EXSTK_TOP"
    using assms u
    by (auto simp: frame_addr_def on_exstk_def EXSTK_def EXSTK_TOP_def word_le_nat_alt not_less)
qed

text \<open>C32: a user page fault of an environment with an upcall, whose exception stack is a mapped writable page
  with room, is turned into a call of the upcall: the kernel stores the fault address and the
  trap-time registers on the exception stack, in the free part below an interrupted handler (leaving
  one scratch word) or at the top, and resumes the environment in its upcall on that stack; the
  other registers are as they were.\<close>

theorem page_fault_reflected:
  assumes c: "curenv s = Some c" "env_pgfault_upcall (envs s c) \<noteq> 0" "lock_held s"
    and tf: "env_tf (envs s c) = tf" "tf_cs tf AND 3 = 3"
    and d: "env_pgdir (envs s c) = Some d" "d < 2 ^ 20" "wf_pgdir s fl d" "exstk_ok s d"
    and room: "on_exstk (tf_esp tf) \<longrightarrow> EXSTK + 56 \<le> tf_esp tf"
  shows "\<exists>s'. page_fault_handler hw (EnvFrame c) s = (Inl (UserMode c), s')
    \<and> env_tf (envs s' c) = tf\<lparr>tf_esp := frame_addr (tf_esp tf), tf_eip := env_pgfault_upcall (envs s c)\<rparr>
    \<and> UserStoreFrame (frame_addr (tf_esp tf)) (fault_frame (hw_cr2 hw) tf) \<in> set (trace s')
    \<and> EXSTK \<le> frame_addr (tf_esp tf) \<and> frame_addr (tf_esp tf) + UTF_SIZE - 1 \<le> EXSTK_TOP
    \<and> (on_exstk (tf_esp tf) \<longrightarrow> frame_addr (tf_esp tf) + 56 = tf_esp tf
         \<and> UserStore (tf_esp tf - 4) 0 \<in> set (trace s'))"
proof -
  note fr = frame_addr_room [OF room]
  let ?esp = "tf_esp tf" let ?a = "frame_addr ?esp"
  let ?ev = "UserStoreFrame ?a (fault_frame (hw_cr2 hw) tf)"
  let ?s1 = "if on_exstk ?esp then s\<lparr>trace := UserStore (?esp - 4) 0 # trace s\<rparr> else s"
  let ?s2 = "?s1\<lparr>trace := ?ev # trace ?s1\<rparr>"
  let ?s3 = "upd_env c (\<lambda>v. v\<lparr>env_tf := (env_tf v)\<lparr>tf_esp := ?a, tf_eip := env_pgfault_upcall (envs s c)\<rparr>\<rparr>) ?s2"
  have a: "user_mem_assert c EXSTK PGSIZE (PTE_U OR PTE_W) s = (Inr (), s)" by (rule exstk_assert [OF d(3,1,4)])
  have w: "whenM (on_exstk ?esp) (user_store c (?esp - 4) 4 (UserStore (?esp - 4) 0)) s = (Inr (), ?s1)"
    using user_store_exec [OF d(1,4), of "?esp - 4" 4] fr(6) by (simp add: whenM_def)
  have ok1: "exstk_ok ?s1 d" using d(4) exstk_ok_cong [of ?s1 s d] by simp
  have f: "user_store c ?a UTF_SIZE ?ev ?s1 = (Inr (), ?s2)"
    by (rule user_store_exec [OF _ ok1]) (use d(1) fr in auto)
  have "(?a < EXSTK \<or> ?a > EXSTK_TOP) = False" using fr(1,2) by (simp add: not_less)
  moreover have "upd_frame (EnvFrame c) (\<lambda>f. f\<lparr>tf_esp := ?a, tf_eip := env_pgfault_upcall (envs s c)\<rparr>) ?s2 = (Inr (), ?s3)"
    by (simp add: upd_frame_def)
  moreover have "env_run c ?s3 = (Inl (UserMode c), run_post c d ?s3)"
    by (rule env_run_exec) (use d c(3) in auto)
  moreover have "tf_cs tf AND 3 \<noteq> 0" using tf(2) by simp
  ultimately have "page_fault_handler hw (EnvFrame c) s = (Inl (UserMode c), run_post c d ?s3)"
    using c(1,2) tf(1) a w f
    by (simp add: page_fault_handler_def frame_of_def fault_frame_def bnd_def thn_def cong: if_cong)
  then show ?thesis
    using tf(1) fr c(1) by (intro exI [of _ "run_post c d ?s3"]) (auto simp: run_post_def)
qed

text \<open>The running process of \<open>sys_kst\<close> with an upcall, an exception stack (frame 7) and a stack pointer.\<close>

definition fault_kst :: "u32 \<Rightarrow> kst" where
  "fault_kst esp = (upd_env 0 (\<lambda>v. v\<lparr>env_pgfault_upcall := 0x800100, env_tf := user_tf\<lparr>tf_esp := esp\<rparr>\<rparr>) sys_kst)
     \<lparr>pmem := (\<lambda>_ _. 0)(6 := (\<lambda>_. 0)(954 := 0x3007), 3 := (\<lambda>_. 0)(1023 := 0x7007))\<rparr>"

lemma fault_kst_simps:
  "curenv (fault_kst esp) = Some 0" "env_pgfault_upcall (envs (fault_kst esp) 0) = 0x800100"
  "env_tf (envs (fault_kst esp) 0) = user_tf\<lparr>tf_esp := esp\<rparr>" "env_pgdir (envs (fault_kst esp) 0) = Some 6"
  "lock_held (fault_kst esp)" "wf_pgdir (fault_kst esp) [] 6" "exstk_ok (fault_kst esp) 6"
  using sys_kst_wf(3)
  by (simp_all add: fault_kst_def wf_pgdir_def PGNUM_div exstk_ok_def page_ok_def writable_def upte_def
    EXSTK_def PDX_div PTX_mod)

theorem page_fault_reflected_witness:
  "\<exists>s'. page_fault_handler \<lparr>hw_cr2 = 0x1234, hw_eflags = 0, hw_panicked = False\<rparr> (EnvFrame 0) (fault_kst 0xEEBFFF00)
     = (Inl (UserMode 0), s') \<and> tf_esp (env_tf (envs s' 0)) = 0xEEBFFEC8"
  using page_fault_reflected [OF fault_kst_simps(1) _ fault_kst_simps(5,3) _ fault_kst_simps(4) _ fault_kst_simps(6,7),
      of "0xEEBFFF00" "\<lparr>hw_cr2 = 0x1234, hw_eflags = 0, hw_panicked = False\<rparr>"]
  by (auto simp: fault_kst_simps(2) user_tf_def EXSTK_def EXSTK_TOP_def on_exstk_def frame_addr_def)

text \<open>An exception stack that overflows does not destroy the environment: a fault taken with less than
  56 bytes left on it panics the whole kernel.\<close>

theorem exception_stack_overflow_panics:
  assumes c: "curenv s = Some c" "env_pgfault_upcall (envs s c) \<noteq> 0"
    and tf: "env_tf (envs s c) = tf" "tf_cs tf AND 3 = 3"
    and d: "env_pgdir (envs s c) = Some d" "wf_pgdir s fl d" "exstk_ok s d"
    and full: "EXSTK \<le> tf_esp tf" "tf_esp tf < EXSTK + 56"
  shows "\<exists>msg s'. page_fault_handler hw (EnvFrame c) s = (Inl (Panic msg), s')"
proof -
  let ?esp = "tf_esp tf" let ?a = "frame_addr ?esp"
  let ?ev = "UserStoreFrame ?a (fault_frame (hw_cr2 hw) tf)"
  let ?s1 = "s\<lparr>trace := UserStore (?esp - 4) 0 # trace s\<rparr>"
  have on: "on_exstk ?esp"
    using full by (simp add: on_exstk_def EXSTK_def EXSTK_TOP_def word_le_nat_alt word_less_nat_alt not_less)
  have "unat (?esp - 56) = unat ?esp - 56"
    using full(1) by (simp add: unat_sub EXSTK_def word_le_nat_alt)
  then have over: "?a < EXSTK"
    using on full by (simp add: frame_addr_def EXSTK_def word_le_nat_alt word_less_nat_alt)
  have a: "user_mem_assert c EXSTK PGSIZE (PTE_U OR PTE_W) s = (Inr (), s)" by (rule exstk_assert [OF d(2,1,3)])
  have u: "tf_cs tf AND 3 \<noteq> 0" using tf(2) by simp
  have ph: "page_fault_handler hw (EnvFrame c) s =
      thn (user_store c (?esp - 4) 4 (UserStore (?esp - 4) 0))
        (thn (user_store c ?a UTF_SIZE ?ev) (panic ''page_fault_handler: exception stack overflow'')) s"
    using c tf(1) a u on over
    by (simp add: page_fault_handler_def frame_of_def fault_frame_def bnd_def thn_def
      cong: sum.case_cong prod.case_cong)
  show ?thesis
  proof (cases rule: user_store_cases [OF d(1), of "?esp - 4" 4 "UserStore (?esp - 4) 0"])
    case 1
    have d1: "env_pgdir (envs ?s1 c) = Some d" using d(1) by simp
    show ?thesis
      by (cases rule: user_store_cases [OF d1, of ?a UTF_SIZE ?ev]) (simp_all add: ph 1 thn_Inr thn_Inl)
  next
    case 2
    then show ?thesis by (simp add: ph thn_Inl)
  qed
qed

theorem exception_stack_overflow_panics_witness:
  "\<exists>msg s'. page_fault_handler \<lparr>hw_cr2 = 0x1234, hw_eflags = 0, hw_panicked = False\<rparr> (EnvFrame 0) (fault_kst 0xEEBFF010)
     = (Inl (Panic msg), s')"
  using exception_stack_overflow_panics [OF fault_kst_simps(1) _ fault_kst_simps(3) _ fault_kst_simps(4,6,7),
      of "0xEEBFF010" "\<lparr>hw_cr2 = 0x1234, hw_eflags = 0, hw_panicked = False\<rparr>"]
  by (auto simp: fault_kst_simps(2) user_tf_def EXSTK_def)

end
