(* ===== verification/Security.thy ===== *)
theory Security
  imports Trap
begin

text \<open>
  An invariant of the whole kernel: whatever a user program does, the kernel returns to user mode only
  with a privilege-3 frame, and no priority ever exceeds the maximum. \<open>ring3 L\<close> is the invariant,
  with a set \<open>L\<close> of environments that are known to hold a privilege-3 frame in the middle of an
  operation; \<open>safe L m\<close> says that \<open>m\<close> keeps it and, if it enters user mode, enters it at privilege 3.
  One lemma per operation, composed up to \<open>trap\<close>.
\<close>

named_theorems safe_rules \<open>composition of the privilege invariant\<close>

definition user_frame :: "Trapframe \<Rightarrow> bool" where
  "user_frame tf \<longleftrightarrow> tf_cs tf AND 3 = 3"

definition ring3 :: "nat set \<Rightarrow> kst \<Rightarrow> bool" where
  "ring3 L s \<longleftrightarrow> (\<forall>e. e \<in> L \<or> env_status (envs s e) \<noteq> ENV_FREE \<or> (\<exists>i. cpu_env (cpus s i) = Some e)
       \<longrightarrow> user_frame (env_tf (envs s e)))
     \<and> (\<forall>e. env_priority (envs s e) \<le> ENV_PRIORITY_MAX)"

definition safe_exit :: "nat set \<Rightarrow> kexit \<Rightarrow> kst \<Rightarrow> bool" where
  "safe_exit L x s \<longleftrightarrow> ring3 L s \<and> (\<forall>e. x = UserMode e \<longrightarrow> user_frame (env_tf (envs s e)))"

definition safe_at :: "nat set \<Rightarrow> kst \<Rightarrow> 'a K \<Rightarrow> bool" where
  "safe_at L s m \<longleftrightarrow> (case m s of (Inl x, s') \<Rightarrow> safe_exit L x s' | (Inr _, s') \<Rightarrow> ring3 L s')"

definition safe :: "nat set \<Rightarrow> 'a K \<Rightarrow> bool" where
  "safe L m \<longleftrightarrow> (\<forall>s. ring3 L s \<longrightarrow> safe_at L s m)"

section \<open>Composition\<close>

lemma safeI: "(\<And>s. ring3 L s \<Longrightarrow> safe_at L s m) \<Longrightarrow> safe L m"
  by (simp add: safe_def)

lemma safeD: "safe L m \<Longrightarrow> ring3 L s \<Longrightarrow> safe_at L s m"
  by (simp add: safe_def)

lemma safe_at_bnd:
  "safe_at L s m \<Longrightarrow> (\<And>x s'. m s = (Inr x, s') \<Longrightarrow> ring3 L s' \<Longrightarrow> safe_at L s' (f x)) \<Longrightarrow> safe_at L s (bnd m f)"
  by (auto simp: safe_at_def bnd_def split: prod.splits sum.splits)

lemma safe_at_thn:
  "safe_at L s m \<Longrightarrow> (\<And>x s'. m s = (Inr x, s') \<Longrightarrow> ring3 L s' \<Longrightarrow> safe_at L s' n) \<Longrightarrow> safe_at L s (thn m n)"
  unfolding thn_def by (rule safe_at_bnd)

lemma safe_at_gets: "safe_at L s (f (g s)) \<Longrightarrow> safe_at L s (bnd (gets g) f)"
  by (simp add: safe_at_def)

lemma safe_at_modify: "safe_at L (f s) m \<Longrightarrow> safe_at L s (thn (modify f) m)"
  by (simp add: safe_at_def)

lemma safe_bnd [safe_rules]: "safe L m \<Longrightarrow> (\<And>x. safe L (f x)) \<Longrightarrow> safe L (bnd m f)"
  by (simp add: safe_def safe_at_bnd)

lemma safe_thn [safe_rules]: "safe L m \<Longrightarrow> safe L n \<Longrightarrow> safe L (thn m n)"
  by (simp add: safe_def safe_at_thn)

lemma safe_basic [safe_rules]:
  "safe L (ret x)" "safe L (gets f)" "safe L (panic msg)" "safe L (exit_with Idle)"
  "safe L (exit_with Monitor)" "safe L (exit_with Spin)"
  by (simp_all add: safe_def safe_at_def safe_exit_def panic_def)

lemma safe_modify_frame:
  "(\<And>s. envs (f s) = envs s) \<Longrightarrow> (\<And>s. cpus (f s) = cpus s) \<Longrightarrow> safe L (modify f)"
  by (simp add: safe_def safe_at_def ring3_def)

lemma safe_modify: "(\<And>s. ring3 L s \<Longrightarrow> ring3 L (f s)) \<Longrightarrow> safe L (modify f)"
  by (simp add: safe_def safe_at_def)

lemma safe_if [safe_rules]: "safe L m \<Longrightarrow> safe L n \<Longrightarrow> safe L (if b then m else n)"
  by simp

lemma safe_whenM [safe_rules]: "safe L m \<Longrightarrow> safe L (whenM b m)"
  by (simp add: whenM_def safe_basic)

lemma safe_case_option [safe_rules]:
  "safe L m \<Longrightarrow> (\<And>x. safe L (f x)) \<Longrightarrow> safe L (case p of None \<Rightarrow> m | Some x \<Rightarrow> f x)"
  by (cases p) simp_all

lemma safe_case_prod [safe_rules]: "(\<And>x y. safe L (f x y)) \<Longrightarrow> safe L (case p of (x, y) \<Rightarrow> f x y)"
  by (cases p) simp_all

lemma safe_case_sum [safe_rules]:
  "(\<And>x. safe L (f x)) \<Longrightarrow> (\<And>x. safe L (g x)) \<Longrightarrow> safe L (case p of Inl x \<Rightarrow> f x | Inr x \<Rightarrow> g x)"
  by (cases p) simp_all

lemma safe_for_each [safe_rules]: "(\<And>x. safe L (f x)) \<Longrightarrow> safe L (for_each xs f)"
  by (induction xs) (auto intro: safe_rules)

text \<open>An update of one environment that keeps its frame at privilege 3 and its priority in range.\<close>

lemma ring3_prio: "ring3 L s \<Longrightarrow> env_priority (envs s e) \<le> ENV_PRIORITY_MAX"
  unfolding ring3_def by blast

lemma ring3_upd_new:
  assumes "ring3 L s" "user_frame (env_tf (f (envs s e)))" "env_priority (f (envs s e)) \<le> ENV_PRIORITY_MAX"
  shows "ring3 L (upd_env e f s)"
  using assms by (simp add: ring3_def upd_env_def)

lemma ring3_upd_same:
  assumes r: "ring3 L s" and "user_frame (env_tf (envs s e)) \<Longrightarrow> user_frame (env_tf (f (envs s e)))"
    "env_priority (f (envs s e)) \<le> ENV_PRIORITY_MAX"
    and st: "env_status (f (envs s e)) \<noteq> ENV_FREE \<Longrightarrow> env_status (envs s e) \<noteq> ENV_FREE \<or> e \<in> L"
  shows "ring3 L (upd_env e f s)"
proof -
  have "user_frame (env_tf (envs s e))"
    if "e \<in> L \<or> env_status (f (envs s e)) \<noteq> ENV_FREE \<or> (\<exists>i. cpu_env (cpus s i) = Some e)"
    using that st r unfolding ring3_def by blast
  then show ?thesis using assms(1-3) by (simp add: ring3_def upd_env_def)
qed

lemma safe_modify_env:
  assumes "\<And>v. user_frame (env_tf v) \<Longrightarrow> user_frame (env_tf (f v))"
    "\<And>v. env_priority v \<le> ENV_PRIORITY_MAX \<Longrightarrow> env_priority (f v) \<le> ENV_PRIORITY_MAX"
    "\<And>v. env_status (f v) \<noteq> ENV_FREE \<Longrightarrow> env_status v \<noteq> ENV_FREE \<or> e \<in> L"
  shows "safe L (modify (upd_env e f))"
  by (rule safe_modify, rule ring3_upd_same) (use assms ring3_prio in simp_all)

lemma ring3_insert: "ring3 (insert e L) s \<longleftrightarrow> ring3 L s \<and> user_frame (env_tf (envs s e))"
  unfolding ring3_def by blast

lemma safe_weaken:
  assumes "safe (insert e L) m" "ring3 L s" "user_frame (env_tf (envs s e))"
  shows "safe_at L s m"
proof -
  have "safe_at (insert e L) s m" by (rule safeD [OF assms(1)]) (simp add: ring3_insert assms)
  then show ?thesis
    by (cases "m s"; cases "fst (m s)") (simp_all add: safe_at_def safe_exit_def ring3_insert)
qed

lemma ring3_cur: "ring3 L s \<Longrightarrow> curenv s = Some c \<Longrightarrow> user_frame (env_tf (envs s c))"
  by (auto simp: ring3_def curenv_def)

lemma ring3_used: "ring3 L s \<Longrightarrow> env_status (envs s e) \<noteq> ENV_FREE \<Longrightarrow> user_frame (env_tf (envs s e))"
  by (auto simp: ring3_def)

section \<open>Pages\<close>

lemma safe_prims [safe_rules]:
  "safe L (emit ev)" "safe L (cprintf fmt a)" "safe L (lcr3 d)" "safe L (deref x)" "safe L (load_word t i)"
  "safe L (KADDR pa)" "safe L (PADDR q)" "safe L (pa2page pa)" "safe L (page2kva n)"
proof -
  show e: "safe L (emit ev)" for ev unfolding emit_def by (rule safe_modify_frame) simp_all
  show "safe L (cprintf fmt a)" "safe L (lcr3 d)" unfolding cprintf_def lcr3_def by (rule e)+
  show k: "safe L (KADDR pa)" for pa unfolding KADDR_def by (intro safe_rules)
  show "safe L (page2kva n)" unfolding page2kva_def by (rule k)
qed (unfold deref_def load_word_def PADDR_def pa2page_def, (intro safe_rules)+)

lemma safe_stores [safe_rules]:
  "safe L (store_word t i w)" "safe L (zero_frame t)" "safe L (copy_frame t t')" "safe L (page_incref p)"
  unfolding store_word_def zero_frame_def copy_frame_def page_incref_def
  by (rule safe_modify_frame; simp add: upd_page_def)+

lemma safe_page_alloc [safe_rules]: "safe L (page_alloc fl)"
  unfolding page_alloc_def by (intro safe_rules safe_modify_frame) (simp_all add: page_pop_def upd_page_def)

lemma safe_page_free [safe_rules]: "safe L (page_free p)"
  unfolding page_free_def by (intro safe_rules safe_modify_frame) (simp_all add: page_push_def upd_page_def)

lemma safe_page_decref [safe_rules]: "safe L (page_decref p)"
  unfolding page_decref_def by (intro safe_rules safe_modify_frame) (simp_all add: upd_page_def)

lemma safe_pgdir_walk [safe_rules]: "safe L (pgdir_walk d va c)"
  unfolding pgdir_walk_def Let_def by (intro safe_rules)

lemma safe_page_lookup [safe_rules]: "safe L (page_lookup d va)"
  unfolding page_lookup_def by (intro safe_rules)

lemma safe_page_remove [safe_rules]: "safe L (page_remove d va)"
  unfolding page_remove_def tlb_invalidate_def Let_def by (intro safe_rules)

lemma safe_page_insert [safe_rules]: "safe L (page_insert d p va perm)"
  unfolding page_insert_def by (intro safe_rules)

lemma safe_user_mem_scan [safe_rules]: "safe L (user_mem_scan d va perm ns)"
proof (induction ns)
  case (Cons n ns)
  have "safe L (modify (\<lambda>s. s\<lparr>user_mem_check_addr := a\<rparr>))" for a by (rule safe_modify_frame) simp_all
  with Cons show ?case unfolding user_mem_scan.simps Let_def by (intro safe_rules)
qed (simp add: safe_rules del: ret_exec)

lemma safe_user_mem_check [safe_rules]: "safe L (user_mem_check d va len perm)"
  unfolding user_mem_check_def Let_def by (intro safe_rules safe_modify_frame) simp_all

lemma safe_locks [safe_rules]: "safe L lock_kernel" "safe L unlock_kernel"
proof -
  have m: "safe L (modify (\<lambda>s. s\<lparr>klock := lk\<rparr>))" for lk by (rule safe_modify_frame) simp_all
  show "safe L lock_kernel" "safe L unlock_kernel"
    unfolding lock_kernel_def unlock_kernel_def by (intro safe_rules m)+
qed

section \<open>The scheduler\<close>

lemma safe_env_run: "safe (insert e L) (env_run e)"
proof -
  have r: "ring3 (insert e L) s \<Longrightarrow> ring3 (insert e L) (upd_env c f s)"
    if "env_tf (f (envs s c)) = env_tf (envs s c)" "env_priority (f (envs s c)) = env_priority (envs s c)"
      "env_status (f (envs s c)) \<noteq> ENV_FREE \<Longrightarrow> env_status (envs s c) \<noteq> ENV_FREE \<or> c = e" for s c f
    by (rule ring3_upd_same) (use that ring3_prio in auto)
  have cur: "ring3 (insert e L) s \<Longrightarrow> ring3 (insert e L) (set_curenv (Some e) s)" for s
    by (auto simp: ring3_def set_curenv_def)
  have out: "safe (insert e L) (exit_with (UserMode e))"
    by (simp add: safe_def safe_at_def safe_exit_def ring3_insert)
  show ?thesis unfolding env_run_def env_load_pgdir_def
    by (intro safe_rules safe_modify out cur) (auto intro!: r)
qed

lemma safe_stats [safe_rules]:
  "safe L (modify (upd_stats f))" "safe L (modify (\<lambda>s. upd_stats (g s) s))"
  by (rule safe_modify_frame; simp)+

lemma safe_print [safe_rules]:
  "safe L (print_env_stat i)" "safe L (print_history i)" "safe L (print_prio_ticks n i)"
  unfolding print_env_stat_def print_history_def print_prio_ticks_def Let_def
  by (intro safe_rules)+

lemma safe_print_stats [safe_rules]: "safe L sched_print_stats"
proof -
  have "safe L (case pol of SCHED_ROUND_ROBIN \<Rightarrow> cprintf f [] | SCHED_PRIORITIES \<Rightarrow> cprintf g a)" for pol f g a
    by (cases pol) (simp_all add: safe_rules)
  then show ?thesis unfolding sched_print_stats_def sched_account_cputicks_def by (intro safe_rules)
qed

lemma safe_sched_run: "safe (insert e L) (sched_run e p)"
  unfolding sched_run_def sched_account_cputicks_def Let_def by (intro safe_rules safe_env_run)

lemma safe_cpu [safe_rules]: "safe L (modify (set_curenv None))" "safe L (modify (set_cpu_status st))"
  by (rule safe_modify; auto simp: ring3_def set_curenv_def set_cpu_status_def)+

lemma safe_sched_halt [safe_rules]: "safe L sched_halt"
  unfolding sched_halt_def by (intro safe_rules)

lemma safe_run_used: "ring3 L s \<Longrightarrow> env_status (envs s e) \<noteq> ENV_FREE \<Longrightarrow> safe_at L s (sched_run e p)"
  by (rule safe_weaken [OF safe_sched_run]) (auto dest: ring3_used)

lemma eligible_used: "eligible s e \<Longrightarrow> env_status (envs s e) \<noteq> ENV_FREE"
  by (auto simp: eligible_def runnable_def cur_running_def split: option.splits if_splits)

lemma safe_sched_yield [safe_rules]: "safe L sched_yield"
proof (rule safeI)
  fix s assume r: "ring3 L s"
  let ?s = "upd_stats (\<lambda>t. t\<lparr>sched_calls := sched_calls t + 1\<rparr>) s"
  have r1: "ring3 L ?s" using r by (simp add: ring3_def)
  have go: "safe_at L ?s (run_choice c prep)" if "\<And>e p. c = Some (e, p) \<Longrightarrow> eligible ?s e"
    "\<And>e. ring3 L (prep e ?s)" "\<And>e x. env_status (envs (prep e ?s) x) = env_status (envs ?s x)" for c prep
  proof (cases c)
    case None
    then show ?thesis using safeD [OF safe_sched_halt r1] by (simp add: run_choice_def)
  next
    case (Some ep)
    obtain e p where ep: "ep = (e, p)" by (cases ep)
    then have "eligible ?s e" by (intro that(1)) (simp add: Some)
    then have "env_status (envs (prep e ?s) e) \<noteq> ENV_FREE"
      unfolding that(3) by (rule eligible_used)
    with that(2) have "safe_at L (prep e ?s) (sched_run e p)" by (rule safe_run_used)
    then show ?thesis unfolding run_choice_def Some ep option.case prod.case by (rule safe_at_modify)
  qed
  have age: "ring3 L (age_waiting e ?s)" for e
    using r1 by (auto simp: ring3_def age_waiting_eq)
  have "safe_at L ?s (run_choice (rr_pick ?s) (\<lambda>_ s. s))" by (rule go) (use r1 rr.sound in auto)
  moreover have "safe_at L ?s (run_choice (pr_best ?s) age_waiting)"
    by (rule go) (use age pr.sound in \<open>auto simp: age_waiting_eq\<close>)
  ultimately show "safe_at L s sched_yield"
    unfolding safe_at_def sched_yield_exec Let_def by (cases "policy s") simp_all
qed

lemma safe_wakeup [safe_rules]: "safe L sched_wakeup_sleeping"
proof (rule safeI)
  fix s assume "ring3 L s"
  then show "safe_at L s sched_wakeup_sleeping"
    by (auto simp: safe_at_def sched_wakeup_exec ring3_def wakes_def)
qed

section \<open>Environments\<close>

lemma user_frame_simps [simp]:
  "user_frame (set_eax v tf) = user_frame tf" "user_frame user_tf"
  "user_frame (tf\<lparr>tf_eip := a\<rparr>) = user_frame tf" "user_frame (tf\<lparr>tf_esp := b\<rparr>) = user_frame tf"
  by (simp_all add: user_frame_def set_eax_def user_tf_def)

lemma ring3_live: "ring3 L s \<Longrightarrow> e \<in> L \<Longrightarrow> user_frame (env_tf (envs s e))"
  unfolding ring3_def by blast

lemma safe_at_deref: "(\<And>x. p = Some x \<Longrightarrow> safe_at L s (f x)) \<Longrightarrow> ring3 L s \<Longrightarrow> safe_at L s (bnd (deref p) f)"
  by (cases p) (auto simp: safe_at_def safe_exit_def panic_def)

lemma safe_the_curenv:
  assumes "\<And>c. safe (insert c L) (f c)"
  shows "safe L (bnd the_curenv f)"
proof (rule safeI)
  fix s assume r: "ring3 L s"
  have "safe_at L s (f c)" if "curenv s = Some c" for c
    by (rule safe_weaken [OF assms r]) (rule ring3_cur [OF r that])
  then show "safe_at L s (bnd the_curenv f)"
    unfolding the_curenv_def bnd_assoc by (intro safe_at_gets safe_at_deref r)
qed

lemma safe_cur [safe_rules]: "safe L the_curenv"
  unfolding the_curenv_def by (intro safe_rules)

lemma safe_envid2env [safe_rules]: "safe L (envid2env envid chk)"
  unfolding envid2env_def Let_def by (intro safe_rules)

lemma envid2env_live:
  assumes "envid2env envid chk s = (Inr (Inr (Some e)), s')" "ring3 L s"
  shows "user_frame (env_tf (envs s' e))"
proof (cases "envid = 0")
  case True
  then have "curenv s = Some e" "s' = s" using assms(1) by (auto simp: envid2env_zero)
  then show ?thesis using ring3_cur [OF assms(2)] by simp
next
  case False
  then have "e = ENVX envid" "s' = s" "env_status (envs s e) \<noteq> ENV_FREE"
    using assms(1) by (auto simp: envid2env_def bnd_def deref_def panic_def split: if_splits option.splits)
  then show ?thesis using ring3_used [OF assms(2)] by simp
qed

lemma safe_on_env:
  assumes "\<And>e. safe (insert e L) (f e)"
  shows "safe L (on_env envid chk f)"
  unfolding on_env_def
proof (intro safeI safe_at_bnd)
  fix s assume "ring3 L s"
  then show "safe_at L s (envid2env envid chk)" by (rule safeD [OF safe_envid2env])
next
  fix s r s' assume s: "ring3 L s" and run: "envid2env envid chk s = (Inr r, s')" and r: "ring3 L s'"
  show "safe_at L s' (case r of Inl e \<Rightarrow> ret e | Inr p \<Rightarrow> bnd (deref p) f)"
  proof (cases r)
    case (Inl e) then show ?thesis using safeD [OF safe_basic(1) r] by simp
  next
    case (Inr p)
    have "safe_at L s' (f e)" if "p = Some e" for e
      by (rule safe_weaken [OF assms r]) (use envid2env_live [OF _ s, of envid chk e s'] run Inr that in simp)
    then show ?thesis using Inr by (simp add: safe_at_deref r)
  qed
qed

lemma safe_env_setup_vm [safe_rules]: "safe L (env_setup_vm e)"
  unfolding env_setup_vm_def by (intro safe_rules safe_modify_env) simp_all

lemma safe_env_init: "safe L (modify (upd_env e (init_env e p)))" "safe L (modify (env_pop e))"
  by (rule safe_modify, rule ring3_upd_new; simp add: init_env_def)
     (rule safe_modify_frame; simp add: env_pop_def)

lemma safe_env_alloc:
  assumes "\<And>e. safe L (f (Inl e))" "\<And>n. safe (insert n L) (f (Inr n))"
  shows "safe L (bnd (env_alloc p) f)"
proof (intro safeI safe_at_bnd)
  have "safe L (env_alloc p)"
    unfolding env_alloc_def by (intro safe_rules safe_env_init)
  then show "ring3 L s \<Longrightarrow> safe_at L s (env_alloc p)" for s by (rule safeD)
next
  fix s r s' assume s: "ring3 L s" and run: "env_alloc p s = (Inr r, s')" and r: "ring3 L s'"
  show "safe_at L s' (f r)"
  proof (cases r)
    case (Inl e) then show ?thesis using safeD [OF assms(1) r] by simp
  next
    case (Inr n)
    then have "env_tf (envs s' n) = user_tf"
      using run by (auto simp: env_alloc_def env_pop_def init_env_def split: option.splits if_splits
        elim!: bnd_returns thn_returns)
    then show ?thesis using Inr safe_weaken [OF assms(2) r, of n] by simp
  qed
qed

lemma safe_release [safe_rules]: "safe L (release_pgdir e)" "safe L (release_slot e)"
proof -
  have "ring3 L s \<Longrightarrow> ring3 L (env_push e s)" for s
    by (auto simp: ring3_def env_push_def)
  then have "safe L (modify (env_push e))" by (rule safe_modify)
  then show "safe L (release_pgdir e)" "safe L (release_slot e)"
    unfolding release_pgdir_def release_slot_def by (intro safe_rules safe_modify_env; simp)+
qed

lemma safe_unmap_user [safe_rules]: "safe L (unmap_user e)"
  unfolding unmap_user_def unmap_table_def Let_def by (intro safe_rules)

lemma safe_env_free_with: "(\<And>t. safe L (d t)) \<Longrightarrow> safe L (env_free_with d e)"
  unfolding env_free_with_def destroy_threads_def by (intro safe_rules)

lemma safe_env_destroy_with:
  assumes "safe L (free e)"
  shows "safe L (env_destroy_with free e)"
proof (rule safeI)
  fix s assume r: "ring3 L s"
  have "safe_at L s (modify (upd_env e (\<lambda>v. v\<lparr>env_status := ENV_DYING\<rparr>)))" if "env_status (envs s e) = ENV_RUNNING"
    using ring3_upd_same [OF r, of e "\<lambda>v. v\<lparr>env_status := ENV_DYING\<rparr>"] ring3_prio [OF r] that
    by (simp add: safe_at_def)
  moreover have "safe_at L s (thn (free e) (bnd (gets (\<lambda>s. curenv s = Some e))
      (\<lambda>b. whenM b (thn (modify (set_curenv None)) sched_yield))))"
    by (rule safeD [OF _ r]) (intro safe_rules assms)
  ultimately show "safe_at L s (env_destroy_with free e)"
    unfolding env_destroy_with_def by (intro safe_at_gets) simp
qed

lemma safe_env_free [safe_rules]: "safe L (env_free e)" "safe L (env_destroy e)"
proof -
  have t: "safe L (thread_free e)" for e
    unfolding thread_free_def by (intro safe_env_free_with safe_rules)
  show f: "safe L (env_free e)" for e
    unfolding env_free_def by (intro safe_env_free_with safe_env_destroy_with t)
  show "safe L (env_destroy e)" unfolding env_destroy_def by (intro safe_env_destroy_with f)
qed

lemma safe_user_mem_assert [safe_rules]: "safe L (user_mem_assert e va len perm)"
  unfolding user_mem_assert_def by (intro safe_rules)

section \<open>System calls\<close>

lemma safe_pages_of_env [safe_rules]:
  "safe L (env_pgdir_of e)" "safe L (env_page_alloc e va perm)" "safe L (env_page_map e va e' va' perm)"
proof -
  show p: "safe L (env_pgdir_of e)" for e unfolding env_pgdir_of_def by (intro safe_rules)
  show "safe L (env_page_alloc e va perm)" "safe L (env_page_map e va e' va' perm)"
    unfolding env_page_alloc_def env_page_map_def Let_def by (intro safe_rules p)+
qed

lemma safe_ipc_deliver: "d \<in> L \<Longrightarrow> safe L (ipc_deliver d v)"
  unfolding ipc_deliver_def by (intro safe_rules safe_modify_env) simp_all

lemma safe_ipc_try_send: "safe L (sys_ipc_try_send envid val srcva perm)"
proof -
  have "safe (insert d L) (modify (upd_env d (\<lambda>v. v\<lparr>env_ipc_perm := p\<rparr>)))" for d p
    by (rule safe_modify_env) simp_all
  then show ?thesis
    unfolding sys_ipc_try_send_def Let_def
    by (intro safe_on_env safe_rules safe_ipc_deliver insertI1)
qed

lemma safe_exofork: "safe L sys_exofork"
proof -
  have copy: "safe (insert n (insert c L)) (modify (\<lambda>s. upd_env n (\<lambda>v. v\<lparr>env_tf := env_tf (envs s c)\<rparr>) s))"
    "safe (insert n (insert c L)) (modify (\<lambda>s. upd_env n (\<lambda>v. v\<lparr>env_priority := env_priority (envs s c)\<rparr>) s))" for n c
  proof -
    show "safe (insert n (insert c L)) (modify (\<lambda>s. upd_env n (\<lambda>v. v\<lparr>env_tf := env_tf (envs s c)\<rparr>) s))"
      by (rule safe_modify, rule ring3_upd_new) (use ring3_live [of "insert n (insert c L)" _ c] ring3_prio in auto)
    show "safe (insert n (insert c L)) (modify (\<lambda>s. upd_env n (\<lambda>v. v\<lparr>env_priority := env_priority (envs s c)\<rparr>) s))"
      by (rule safe_modify, rule ring3_upd_same) (use ring3_prio in auto)
  qed
  have set: "safe (insert n (insert c L)) (modify (upd_env n (\<lambda>v. v\<lparr>env_status := ENV_NOT_RUNNABLE\<rparr>)))"
    "safe (insert n (insert c L)) (modify (upd_env n (\<lambda>v. v\<lparr>env_tf := set_eax 0 (env_tf v)\<rparr>)))" for n c
    by (rule safe_modify_env; simp)+
  show ?thesis unfolding sys_exofork_def
    by (intro safe_the_curenv safe_bnd [OF safe_basic(2)] safe_env_alloc) (simp_all only: sum.case, (intro safe_rules copy set)+)
qed

lemma safe_thread_create: "safe L (sys_thread_create entry stack)"
proof -
  have p: "safe L' (modify (\<lambda>s. upd_env t (\<lambda>v. v\<lparr>env_pgdir := env_pgdir (envs s c)\<rparr>) s))" for L' t c
    by (rule safe_modify, rule ring3_upd_same) (use ring3_prio in auto)
  have q: "safe L' (modify (\<lambda>s. upd_env t (\<lambda>v. v\<lparr>env_type := ENV_TYPE_THREAD,
         env_priority := env_priority (envs s c), env_tf := (env_tf v)\<lparr>tf_eip := entry, tf_esp := stack\<rparr>\<rparr>) s))" for L' t c
    by (rule safe_modify, rule ring3_upd_same) (use ring3_prio in auto)
  have n: "safe L' (modify (upd_env t (\<lambda>v. v\<lparr>env_pgdir := None\<rparr>)))" for L' t
    by (rule safe_modify_env) simp_all
  show ?thesis unfolding sys_thread_create_def
    by (intro safe_if safe_the_curenv safe_bnd [OF safe_basic(2)] safe_env_alloc safe_basic)
       (simp_all only: sum.case, (intro safe_rules p q n)+)
qed

lemma safe_block: "safe (insert c L) (modify (\<lambda>s. upd_env c (f s) s))"
  if "\<And>s v. user_frame (env_tf (f s v)) = user_frame (env_tf v)" "\<And>s v. env_priority (f s v) = env_priority v"
  by (rule safe_modify, rule ring3_upd_same) (use that ring3_prio in auto)

lemma safe_setpriority: "safe L (sys_setpriority envid prio)"
proof (cases "prio > ENV_PRIORITY_MAX")
  case True
  then show ?thesis unfolding sys_setpriority_def by (simp only: if_True) (rule safe_basic)
next
  case False
  then have "safe L' (modify (upd_env e (\<lambda>v. v\<lparr>env_priority := prio\<rparr>)))" for L' e
    by (intro safe_modify_env) simp_all
  then show ?thesis
    unfolding sys_setpriority_def using False by (simp only: if_False) (intro safe_on_env safe_rules)
qed

lemma safe_syscall [safe_rules]: "safe L (syscall no a1 a2 a3 a4 a5)"
proof -
  have con: "safe L (modify (\<lambda>s. s\<lparr>con := k\<rparr>))" for k by (rule safe_modify_frame) simp_all
  have upd: "safe (insert e L) (modify (upd_env e (\<lambda>v. v\<lparr>env_status := st\<rparr>)))"
    "safe (insert e L) (modify (upd_env e (\<lambda>v. v\<lparr>env_pgfault_upcall := a2\<rparr>)))" for e st
    by (rule safe_modify_env; simp)+
  have recv: "safe (insert c L) (modify (upd_env c (\<lambda>v. v\<lparr>env_ipc_recving := True\<rparr>)))"
    "safe (insert c L) (modify (upd_env c (\<lambda>v. v\<lparr>env_ipc_dstva := a1, env_status := ENV_NOT_RUNNABLE\<rparr>)))" for c
    by (rule safe_modify_env; simp)+
  have calls: "safe L (sys_cputs a1 a2)" "safe L sys_getenvid" "safe L (sys_env_destroy a1)"
    "safe L (sys_env_set_status a1 a2)" "safe L (sys_page_alloc a1 a2 a3)" "safe L (sys_page_map a1 a2 a3 a4 a5)"
    "safe L (sys_page_unmap a1 a2)" "safe L (sys_env_set_pgfault_upcall a1 a2)" "safe L (sys_getpriority a1)"
    unfolding sys_cputs_def sys_getenvid_def sys_env_destroy_def sys_env_set_status_def sys_page_alloc_def
      sys_page_map_def sys_page_unmap_def sys_env_set_pgfault_upcall_def sys_getpriority_def
    by (intro safe_on_env safe_rules upd)+
  have "safe L sys_cgetc" unfolding sys_cgetc_def by (intro safe_rules con)
  moreover have "safe L (sys_sleep a1)"
    unfolding sys_sleep_def by (intro safe_if safe_rules(3) safe_the_curenv safe_rules safe_block) simp_all
  moreover have "safe L (sys_ipc_recv a1)"
    unfolding sys_ipc_recv_def sys_yield_def by (intro safe_the_curenv safe_rules recv)
  moreover have "safe L (sys_yield :: u32 K)" unfolding sys_yield_def by (intro safe_rules)
  ultimately show ?thesis
    using calls safe_exofork safe_thread_create safe_setpriority safe_ipc_try_send
    by (auto simp: syscall_def intro: safe_rules split: option.split syscallno.split)
qed

section \<open>Traps\<close>

lemma safe_print_trapframe [safe_rules]: "safe L (print_trapframe b cr2 tf)" "safe L (monitor hw otf)"
proof -
  show p: "safe L (print_trapframe b cr2 tf)" for b cr2 tf
    unfolding print_trapframe_def print_regs_def by (intro safe_rules)
  show "safe L (monitor hw otf)" unfolding monitor_def by (intro safe_rules p)
qed

lemma safe_upd_frame:
  assumes "\<And>tf. user_frame tf \<Longrightarrow> user_frame (g tf)"
  shows "safe L (upd_frame r g)"
proof (cases r)
  case (EnvFrame e)
  then show ?thesis unfolding upd_frame_def tfref.case by (simp only: tfref.case) (rule safe_modify_env; simp add: assms)
qed (simp add: upd_frame_def safe_rules del: ret_exec)

lemma safe_user_store [safe_rules]: "safe L (user_store e va len ev)"
  unfolding user_store_def by (intro safe_rules)

lemma safe_page_fault [safe_rules]: "safe L (page_fault_handler hw r)"
proof -
  have f: "safe L' (upd_frame r (\<lambda>f. f\<lparr>tf_esp := a, tf_eip := b\<rparr>))" for L' a b
    by (rule safe_upd_frame) simp
  show ?thesis unfolding page_fault_handler_def Let_def
    by (intro safe_bnd [OF safe_basic(2)] safe_if safe_basic safe_the_curenv safe_rules f safe_env_run)
qed

lemma safe_timer [safe_rules]: "safe L timer_tick"
  unfolding timer_tick_def by (intro safe_rules safe_modify_frame) simp_all

lemma safe_dispatch [safe_rules]: "safe L (trap_dispatch hw r)"
  unfolding trap_dispatch_def Let_def by (intro safe_rules safe_upd_frame) simp

lemma safe_return [safe_rules]: "safe L trap_return"
  unfolding trap_return_def
proof (intro safeI safe_at_gets)
  fix s assume r: "ring3 L s"
  show "safe_at L s (case cur_running s of Some c \<Rightarrow> env_run c | None \<Rightarrow> sched_yield)"
  proof (cases "cur_running s")
    case None then show ?thesis using safeD [OF safe_sched_yield r] by simp
  next
    case (Some c)
    then have "eligible s c" by (simp add: eligible_def)
    then show ?thesis
      using Some safe_weaken [OF safe_env_run r] ring3_used [OF r] eligible_used by auto
  qed
qed

lemma safe_enter:
  assumes "user_frame tf"
  shows "safe L (enter_user_trap tf)"
proof -
  have "safe L (modify (upd_env c (\<lambda>v. v\<lparr>env_tf := tf\<rparr>)))" for c
    by (rule safe_modify, rule ring3_upd_new) (use assms ring3_prio in auto)
  then show ?thesis unfolding enter_user_trap_def reap_def by (intro safe_rules)
qed

lemma safe_handle [safe_rules]: "safe L (handle_trap hw tf)"
proof -
  have "safe L (if tf_cs tf AND 3 = 3 then enter_user_trap tf else ret (StackFrame tf))"
    by (cases "tf_cs tf AND 3 = 3") (simp_all add: user_frame_def safe_enter safe_basic del: ret_exec)
  then show ?thesis unfolding handle_trap_def by (rule safe_bnd) (intro safe_rules)
qed

lemma safe_trap: "safe L (trap hw tf)"
  unfolding trap_def by (intro safe_rules)

section \<open>Reachable kernel states\<close>

text \<open>
  The kernel between two traps: it starts with a table of free environments, creates environments
  from images, enters the scheduler (i386\_init, mp\_main), and takes traps on any CPU, while user
  programs write memory (any memory: nothing is assumed about what they can reach).
\<close>

inductive kernel_reach :: "kst \<Rightarrow> bool" where
  start: "\<lbrakk>\<And>e. env_status (envs s e) = ENV_FREE \<and> env_priority (envs s e) = 0; \<And>i. cpu_env (cpus s i) = None\<rbrakk>
    \<Longrightarrow> kernel_reach s"
| create: "kernel_reach s \<Longrightarrow> env_create b ty s = (Inr (), s') \<Longrightarrow> kernel_reach s'"
| enter: "kernel_reach s \<Longrightarrow> (sched_yield :: unit K) s = (Inl x, s') \<Longrightarrow> kernel_reach s'"
| user: "kernel_reach s \<Longrightarrow> kernel_reach (s\<lparr>pmem := m\<rparr>)"
| cpu: "kernel_reach s \<Longrightarrow> kernel_reach (s\<lparr>cpunum := i\<rparr>)"
| trap: "kernel_reach s \<Longrightarrow> (trap hw tf :: unit K) s = (Inl x, s') \<Longrightarrow> kernel_reach s'"

lemma safe_load_icode [safe_rules]: "safe L (load_icode e b)"
proof -
  have r: "safe L (region_alloc e va len)" for va len
    unfolding region_alloc_def region_page_def Let_def by (intro safe_rules)
  have "safe L (load_segment e ph)" for ph unfolding load_segment_def by (intro safe_rules r)
  moreover have "safe L (modify (upd_env e (\<lambda>v. v\<lparr>env_tf := (env_tf v)\<lparr>tf_eip := a\<rparr>\<rparr>)))" for a
    by (rule safe_modify_env) simp_all
  ultimately show ?thesis unfolding load_icode_def Let_def by (intro safe_rules r)
qed

lemma safe_env_create: "safe L (env_create b ty)"
  unfolding env_create_def
  by (intro safe_env_alloc) (simp_all only: sum.case, (intro safe_rules safe_modify_env; simp)+)

lemma safe_result: "safe L m \<Longrightarrow> ring3 L s \<Longrightarrow> m s = (r, s') \<Longrightarrow> ring3 L s'"
  by (drule (1) safeD) (auto simp: safe_at_def safe_exit_def split: sum.splits)

lemma kernel_reach_ring3: "kernel_reach s \<Longrightarrow> ring3 {} s"
proof (induction rule: kernel_reach.induct)
  case (start s) then show ?case by (simp add: ring3_def)
next
  case (create s b ty s') then show ?case by (blast intro: safe_result [OF safe_env_create])
next
  case (enter s x s') then show ?case by (blast intro: safe_result [OF safe_sched_yield])
next
  case (user s m) then show ?case by (simp add: ring3_def)
next
  case (cpu s i) then show ?case by (simp add: ring3_def)
next
  case (trap s hw tf x s') then show ?case by (blast intro: safe_result [OF safe_trap])
qed

section \<open>Properties\<close>

text \<open>C2: whatever trap is taken in a reachable state, with whatever frame, the environment the kernel
  then enters user mode in has a frame of privilege level 3: no system call, fault, creation of a
  thread or corrupted register file leads to kernel-privileged user code.\<close>

theorem trap_returns_to_ring3:
  assumes "kernel_reach s" "(trap hw tf :: unit K) s = (Inl (UserMode e), s')"
  shows "tf_cs (env_tf (envs s' e)) AND 3 = 3"
  using safeD [OF safe_trap kernel_reach_ring3 [OF assms(1)], of hw tf, where ?'a = unit] assms(2)
  by (simp add: safe_at_def safe_exit_def user_frame_def)

text \<open>A kernel with one environment, loaded from the smallest image (no segments), in the halted CPU 0's
  hands; and a timer interrupt that finds the CPU in the kernel.\<close>

definition tiny_image :: image where
  "tiny_image k = (if k = 0 then 0x7F else if k = 1 then 0x45 else if k = 2 then 0x4C else if k = 3 then 0x46 else 0)"

definition held_kst :: kst where
  "held_kst = boot_kst\<lparr>klock := \<lparr>locked = 1, lk_cpu = Some 0\<rparr>\<rparr>"

definition idle_timer :: Trapframe where
  "idle_timer = zero_tf\<lparr>tf_cs := GD_KT, tf_trapno := 32\<rparr>"

lemma held_kst_reach: "kernel_reach held_kst"
proof -
  have "cpu_env (cpus held_kst i) = None" "env_status (envs held_kst e) = ENV_FREE \<and> env_priority (envs held_kst e) = 0" for i e
    by (auto simp: held_kst_def boot_kst_def env_init_def env_init_fold upd_env_def pages_kst_def zero_kst_def zero_env_def)
  then show ?thesis by (intro kernel_reach.start)
qed

lemma tiny_header: "elf_header tiny_image = \<lparr>e_magic = ELF_MAGIC, e_entry = 0, e_phoff = 0, e_phnum = 0\<rparr>"
  by (simp add: elf_header_def rd32_def rd16_def tiny_image_def ELF_MAGIC_def push_bit_eq_mult)

lemma tiny_create:
  "\<exists>s'. env_create tiny_image ENV_TYPE_USER held_kst = (Inr (), s') \<and> lock_held s' \<and> curenv s' = None
    \<and> cpu_status (cpus s' (cpunum s')) = CPU_UNUSED \<and> env_status (envs s' 0) = ENV_RUNNABLE \<and> env_pgdir (envs s' 0) = Some 6
    \<and> (\<forall>e. e \<noteq> 0 \<longrightarrow> env_status (envs s' e) = ENV_FREE)"
proof -
  let ?a = "alloc_post 0 6 0 held_kst"
  let ?s = "?a\<lparr>trace := Lcr3 6 # trace ?a\<rparr>"
  let ?t = "page_alloc_post 0 5 ?s"
  have fp: "free_pages held_kst [6, 5, 4, 3, 2, 1]"
    using boot_kst_wf(2) by (simp add: held_kst_def)
  have "env_table held_kst (0 # [1..<NENV])"
    using boot_kst_wf(1) by (simp only: held_kst_def env_table_frame NENV_Cons)
  then have al: "env_alloc 0 held_kst = (Inr (Inr 0), ?a)"
    by (rule env_alloc_exec [OF _ fp]) (simp add: held_kst_def)
  have fps: "free_pages ?s [5, 4, 3, 2, 1]" using free_pages_alloc [OF fp] by simp
  then have fpt: "free_pages ?t [4, 3, 2, 1]" by (rule free_pages_alloc_post)
  have pm: "pmem ?t 6 = (\<lambda>i. if i = 957 then page2pa 6 OR PTE_P OR PTE_U else 0)" "npages ?t = 8"
    by (auto simp: alloc_pmem held_kst_def)
  have wf: "wf_pgdir ?t [4, 3, 2, 1] 6" "data_page ?t [4, 3, 2, 1] 6 5"
    unfolding wf_pgdir_def data_page_def pm by (simp_all add: page2pa_def PGNUM_div)
  let ?va = "0xEEBFD000 :: u32"
  have va: "PDX ?va < 955" by (simp add: PDX_div PGNUM_div)
  have wm: "wf_mapped ?t [4, 3, 2, 1] 6 ?va" using va by (simp add: wf_mapped_def upte_def pm(1) PDX_div PGNUM_div del: page_alloc_post_simps)
  obtain s0 fl0 where b: "insert_base [4, 3, 2, 1] 6 ?va ?t = (s0, fl0)" by fastforce
  let ?u = "insert_post 6 5 ?va 6 s0"
  have ins: "page_insert (Some 6) 5 ?va 6 ?t = (Inr 0, ?u)"
    by (rule page_insert_exec(1) [OF fpt wf(1) wm va wf(2) _ b]) simp
  have fields: "envs ?u = envs ?t" "klock ?u = klock ?t" "curenv ?u = curenv ?t" "cpunum ?u = cpunum ?t"
    "cpus ?u = cpus ?t" "kern_pgdir ?u = kern_pgdir ?t"
    using b by (auto simp: insert_base_def insert_post_def split: if_splits)
  have region: "region_alloc 0 (USTACKTOP - PGSIZE) PGSIZE ?s = (Inr (), ?u)"
  proof -
    have n: "PGNUM (ROUNDDOWN (USTACKTOP - PGSIZE) PGSIZE) = 977917"
      "PGNUM (ROUNDUP (USTACKTOP - PGSIZE + PGSIZE) PGSIZE) = Suc 977917"
      "\<not> ROUNDUP (USTACKTOP - PGSIZE + PGSIZE) PGSIZE > UTOP"
      by (simp_all add: ROUNDDOWN_def ROUNDUP_def PGNUM_div)
    have l: "[k..<Suc k] = [k]" for k :: nat by simp
    have "region_page 0 977917 ?s = (Inr (), ?u)"
      using page_alloc_exec [OF fps, of 0] ins by (simp add: region_page_def bnd_def init_env_def)
    then show ?thesis unfolding region_alloc_def Let_def using n(3)
      by (simp only: n l for_each.simps if_False thn_Inr ret_exec)
  qed
  let ?v = "upd_env 0 (\<lambda>v. v\<lparr>env_type := ENV_TYPE_USER\<rparr>) ((upd_env 0 (\<lambda>v. v\<lparr>env_tf := (env_tf v)\<lparr>tf_eip := 0\<rparr>\<rparr>) ?u)
     \<lparr>trace := Lcr3 (kern_pgdir ?u) # trace ?u\<rparr>)"
  have "load_icode 0 tiny_image ?a = (Inr (), (upd_env 0 (\<lambda>v. v\<lparr>env_tf := (env_tf v)\<lparr>tf_eip := 0\<rparr>\<rparr>) ?u)
     \<lparr>trace := Lcr3 (kern_pgdir ?u) # trace ?u\<rparr>)"
    using region by (simp add: load_icode_def tiny_header bnd_def thn_def init_env_def)
  then have "env_create tiny_image ENV_TYPE_USER held_kst = (Inr (), ?v)"
    using al by (simp add: env_create_def bnd_def thn_def)
  moreover have "cpus held_kst = (\<lambda>_. \<lparr>cpu_status = CPU_UNUSED, cpu_env = None\<rparr>)"
    by (simp add: held_kst_def boot_kst_def env_init_def env_init_fold upd_env_def pages_kst_def zero_kst_def)
  then have "cpu_status (cpus ?v (cpunum ?v)) = CPU_UNUSED" by (simp add: fields)
  moreover have "lock_held ?v" "curenv ?v = None" "env_status (envs ?v 0) = ENV_RUNNABLE"
    "env_pgdir (envs ?v 0) = Some 6"
    by (simp_all add: fields init_env_def held_kst_def holding_def)
  moreover have "env_status (envs ?v e) = ENV_FREE" if "e \<noteq> 0" for e
    using that by (simp add: fields)
       (auto simp: held_kst_def boot_kst_def env_init_def env_init_fold zero_env_def)
  ultimately show ?thesis by blast
qed

theorem trap_returns_to_ring3_witness:
  "\<exists>s e s'. (trap \<lparr>hw_cr2 = 0, hw_eflags = 0, hw_panicked = False\<rparr> idle_timer :: unit K) s = (Inl (UserMode e), s')
     \<and> tf_cs (env_tf (envs s' e)) AND 3 = 3"
proof -
  let ?hw = "\<lparr>hw_cr2 = 0, hw_eflags = 0, hw_panicked = False\<rparr>"
  obtain s where create: "env_create tiny_image ENV_TYPE_USER held_kst = (Inr (), s)"
    and s: "lock_held s" "curenv s = None" "cpu_status (cpus s (cpunum s)) = CPU_UNUSED" "env_status (envs s 0) = ENV_RUNNABLE" "env_pgdir (envs s 0) = Some 6"
      "\<forall>e. e \<noteq> 0 \<longrightarrow> env_status (envs s e) = ENV_FREE"
    using tiny_create by blast
  have reach: "kernel_reach s" by (rule kernel_reach.create [OF held_kst_reach create])
  let ?s0 = "set_cpu_status CPU_STARTED s"
  let ?s1 = "?s0\<lparr>trace := LapicEoi # trace ?s0, ticks := ticks ?s0 + 1\<rparr>"
  have frame: "envs ?s0 = envs s" "curenv ?s0 = None" "lock_held ?s0"
    using s by (simp_all add: set_cpu_status_def curenv_def)
  have "\<not> wakes n (envs s i)" for n i using s(4,6) by (cases "i = 0") (auto simp: wakes_def)
  then have "sched_wakeup_sleeping ?s1 = (Inr (), ?s1)"
    by (simp add: sched_wakeup_exec frame cong: if_cong)
  then have tick: "timer_tick ?s0 = sched_yield ?s1" by (simp add: timer_tick_def thn_Inr)
  have el: "eligible ?s1 e \<longleftrightarrow> e = 0" for e
    using s frame by (auto simp: eligible_def runnable_def cur_running_def NENV_def)
  have "sched_ok ?s1" using frame s(5) el by (simp add: sched_ok_def)
  moreover obtain e p where "choice ?s1 = Some (e, p)" using choice_complete el by (metis not_None_eq surj_pair)
  ultimately obtain s' where "(sched_yield :: unit K) ?s1 = (Inl (UserMode e), s')" using sched_yield_runs by blast
  then have "(trap ?hw idle_timer :: unit K) s = (Inl (UserMode e), s')"
    using tick s(3) by (simp add: trap_def handle_trap_def trap_dispatch_def frame_of_def idle_timer_def thn_Inl)
  from trap_returns_to_ring3 [OF reach this] this show ?thesis by blast
qed

text \<open>C34: in every reachable state the priority of every environment is within the range of the statistics
  tables, 0 to 15, and every live environment has a user-mode frame.\<close>

theorem reachable_priorities:
  assumes "kernel_reach s"
  shows "env_priority (envs s e) \<le> ENV_PRIORITY_MAX
    \<and> (env_status (envs s e) = ENV_FREE \<or> user_frame (env_tf (envs s e)))"
  using kernel_reach_ring3 [OF assms] ring3_prio ring3_used by blast

theorem reachable_priorities_witness: "env_priority (envs held_kst 3) \<le> ENV_PRIORITY_MAX"
  using reachable_priorities [OF held_kst_reach] by blast

end
