(* ===== verification/CString.thy ===== *)
theory CString
  imports Machine "HOL-Library.Monad_Syntax"
begin

text \<open>
  The string routines of lib/string.c, which the kernel and the user library share, on a byte memory
  of 32-bit addresses.

  \<^item> A loop that stops at a terminator it may never find is a \<open>partial_function\<close>: \<open>None\<close> is a loop
    that does not end. A loop counted by a \<open>size_t\<close> recurses on the count.
  \<^item> memset and memmove are the versions of \<open>#if ASM\<close>; the string instructions of the processor are
    \<open>rep_stos\<close> and \<open>rep_movs\<close>, with the direction and the width of their step.
  \<^item> A pointer result is an address; the null pointer is 0.
\<close>

type_synonym bytes = "u32 \<Rightarrow> u8"

section \<open>Strings\<close>

partial_function (option) strlen_loop :: "bytes \<Rightarrow> u32 \<Rightarrow> u32 \<Rightarrow> u32 option" where
  "strlen_loop m s n = (if m s = 0 then Some n else strlen_loop m (s + 1) (n + 1))"

definition strlen :: "bytes \<Rightarrow> u32 \<Rightarrow> u32 option" where
  "strlen m s = strlen_loop m s 0"

primrec strnlen_loop :: "bytes \<Rightarrow> u32 \<Rightarrow> u32 \<Rightarrow> nat \<Rightarrow> u32" where
  "strnlen_loop m s n 0 = n"
| "strnlen_loop m s n (Suc k) = (if m s \<noteq> 0 then strnlen_loop m (s + 1) (n + 1) k else n)"

definition strnlen :: "bytes \<Rightarrow> u32 \<Rightarrow> u32 \<Rightarrow> u32" where
  "strnlen m s n = strnlen_loop m s 0 (unat n)"

partial_function (option) strcpy :: "u32 \<Rightarrow> u32 \<Rightarrow> bytes \<Rightarrow> bytes option" where
  "strcpy dst src m = (let m' = m(dst := m src) in
     if m src = 0 then Some m' else strcpy (dst + 1) (src + 1) m')"

definition strcat :: "u32 \<Rightarrow> u32 \<Rightarrow> bytes \<Rightarrow> bytes option" where
  "strcat dst src m = do { len \<leftarrow> strlen m dst; strcpy (dst + len) src m }"

primrec strncpy_loop :: "u32 \<Rightarrow> u32 \<Rightarrow> nat \<Rightarrow> bytes \<Rightarrow> bytes" where
  "strncpy_loop dst src 0 m = m"
| "strncpy_loop dst src (Suc k) m = (let m' = m(dst := m src) in
     strncpy_loop (dst + 1) (if m' src \<noteq> 0 then src + 1 else src) k m')"

definition strncpy :: "u32 \<Rightarrow> u32 \<Rightarrow> u32 \<Rightarrow> bytes \<Rightarrow> bytes" where
  "strncpy dst src n m = strncpy_loop dst src (unat n) m"

text \<open>The loop gives the memory and where it stopped; \<open>k\<close> is the size after its first decrement.\<close>

primrec strlcpy_loop :: "u32 \<Rightarrow> u32 \<Rightarrow> nat \<Rightarrow> bytes \<Rightarrow> bytes \<times> u32" where
  "strlcpy_loop dst src 0 m = (m, dst)"
| "strlcpy_loop dst src (Suc k) m =
     (if m src \<noteq> 0 then strlcpy_loop (dst + 1) (src + 1) k (m(dst := m src)) else (m, dst))"

definition strlcpy :: "u32 \<Rightarrow> u32 \<Rightarrow> u32 \<Rightarrow> bytes \<Rightarrow> bytes \<times> u32" where
  "strlcpy dst_in src n m = (if n = 0 then (m, 0) else
     case strlcpy_loop dst_in src (unat n - 1) m of (m', dst) \<Rightarrow> (m'(dst := 0), dst - dst_in))"

definition byte_diff :: "u8 \<Rightarrow> u8 \<Rightarrow> u32" where
  "byte_diff a b = ucast a - ucast b"

partial_function (option) strcmp :: "bytes \<Rightarrow> u32 \<Rightarrow> u32 \<Rightarrow> u32 option" where
  "strcmp m p q = (if m p \<noteq> 0 \<and> m p = m q then strcmp m (p + 1) (q + 1) else Some (byte_diff (m p) (m q)))"

primrec strncmp_loop :: "bytes \<Rightarrow> u32 \<Rightarrow> u32 \<Rightarrow> nat \<Rightarrow> u32" where
  "strncmp_loop m p q 0 = 0"
| "strncmp_loop m p q (Suc n) = (if m p \<noteq> 0 \<and> m p = m q then strncmp_loop m (p + 1) (q + 1) n
     else byte_diff (m p) (m q))"

definition strncmp :: "bytes \<Rightarrow> u32 \<Rightarrow> u32 \<Rightarrow> u32 \<Rightarrow> u32" where
  "strncmp m p q n = strncmp_loop m p q (unat n)"

partial_function (option) strchr :: "bytes \<Rightarrow> u32 \<Rightarrow> u8 \<Rightarrow> u32 option" where
  "strchr m s c = (if m s = 0 then Some 0 else if m s = c then Some s else strchr m (s + 1) c)"

partial_function (option) strfind :: "bytes \<Rightarrow> u32 \<Rightarrow> u8 \<Rightarrow> u32 option" where
  "strfind m s c = (if m s = 0 \<or> m s = c then Some s else strfind m (s + 1) c)"

section \<open>Blocks of memory\<close>

text \<open>\<open>rep stosb\<close> and \<open>rep stosl\<close>: \<open>w\<close> is the width, the bytes of \<open>eax\<close> are stored from the lowest.\<close>

definition eax_byte :: "u32 \<Rightarrow> u32 \<Rightarrow> u8" where
  "eax_byte eax i = ucast (drop_bit (8 * unat i) eax)"

primrec rep_stos :: "u32 \<Rightarrow> u32 \<Rightarrow> u32 \<Rightarrow> nat \<Rightarrow> bytes \<Rightarrow> bytes" where
  "rep_stos w eax d 0 m = m"
| "rep_stos w eax d (Suc k) m =
     rep_stos w eax (d + w) k (\<lambda>a. if a - d < w then eax_byte eax (a - d) else m a)"

definition memset :: "u32 \<Rightarrow> u32 \<Rightarrow> u32 \<Rightarrow> bytes \<Rightarrow> bytes" where
  "memset v c n m = (if n = 0 then m
     else if v mod 4 = 0 \<and> n mod 4 = 0 then
       let c1 = c AND 0xFF; c2 = push_bit 24 c1 OR push_bit 16 c1 OR push_bit 8 c1 OR c1
       in rep_stos 4 c2 v (unat (n div 4)) m
     else rep_stos 1 c v (unat n) m)"

text \<open>\<open>rep movsb\<close> and \<open>rep movsl\<close>: a step reads \<open>w\<close> bytes at once, then writes them; \<open>\<delta>\<close> is \<open>w\<close> or \<open>- w\<close>.\<close>

primrec rep_movs :: "u32 \<Rightarrow> u32 \<Rightarrow> u32 \<Rightarrow> u32 \<Rightarrow> nat \<Rightarrow> bytes \<Rightarrow> bytes" where
  "rep_movs w \<delta> d s 0 m = m"
| "rep_movs w \<delta> d s (Suc k) m =
     rep_movs w \<delta> (d + \<delta>) (s + \<delta>) k (\<lambda>a. if a - d < w then m (s + (a - d)) else m a)"

definition dwords :: "u32 \<Rightarrow> u32 \<Rightarrow> u32 \<Rightarrow> bool" where
  "dwords s d n \<longleftrightarrow> s mod 4 = 0 \<and> d mod 4 = 0 \<and> n mod 4 = 0"

definition memmove :: "u32 \<Rightarrow> u32 \<Rightarrow> u32 \<Rightarrow> bytes \<Rightarrow> bytes" where
  "memmove dst src n m =
     (if src < dst \<and> src + n > dst then
        let s = src + n; d = dst + n in
        if dwords s d n then rep_movs 4 (- 4) (d - 4) (s - 4) (unat (n div 4)) m
        else rep_movs 1 (- 1) (d - 1) (s - 1) (unat n) m
      else if dwords src dst n then rep_movs 4 4 dst src (unat (n div 4)) m
      else rep_movs 1 1 dst src (unat n) m)"

definition memcpy :: "u32 \<Rightarrow> u32 \<Rightarrow> u32 \<Rightarrow> bytes \<Rightarrow> bytes" where
  "memcpy dst src n m = memmove dst src n m"

primrec memcmp_loop :: "bytes \<Rightarrow> u32 \<Rightarrow> u32 \<Rightarrow> nat \<Rightarrow> u32" where
  "memcmp_loop m p q 0 = 0"
| "memcmp_loop m p q (Suc n) = (if m p \<noteq> m q then byte_diff (m p) (m q) else memcmp_loop m (p + 1) (q + 1) n)"

definition memcmp :: "bytes \<Rightarrow> u32 \<Rightarrow> u32 \<Rightarrow> u32 \<Rightarrow> u32" where
  "memcmp m p q n = memcmp_loop m p q (unat n)"

text \<open>The end \<open>s + n\<close> may wrap around, and then the loop does not run at all.\<close>

primrec memfind_loop :: "bytes \<Rightarrow> u32 \<Rightarrow> u8 \<Rightarrow> nat \<Rightarrow> u32" where
  "memfind_loop m s c 0 = s"
| "memfind_loop m s c (Suc k) = (if m s = c then s else memfind_loop m (s + 1) c k)"

definition memfind :: "bytes \<Rightarrow> u32 \<Rightarrow> u32 \<Rightarrow> u32 \<Rightarrow> u32" where
  "memfind m s c n = memfind_loop m s (ucast c) (unat (s + n) - unat s)"

section \<open>Numbers\<close>

partial_function (option) skip_blanks :: "bytes \<Rightarrow> u32 \<Rightarrow> u32 option" where
  "skip_blanks m s = (if m s = 0x20 \<or> m s = 0x09 then skip_blanks m (s + 1) else Some s)"

definition digit_of :: "u8 \<Rightarrow> u32 option" where
  "digit_of c = (if 0x30 \<le> c \<and> c \<le> 0x39 then Some (ucast c - 0x30)
     else if 0x61 \<le> c \<and> c \<le> 0x7A then Some (ucast c - 0x61 + 10)
     else if 0x41 \<le> c \<and> c \<le> 0x5A then Some (ucast c - 0x41 + 10)
     else None)"

partial_function (option) strtol_digits :: "bytes \<Rightarrow> u32 \<Rightarrow> u32 \<Rightarrow> u32 \<Rightarrow> (u32 \<times> u32) option" where
  "strtol_digits m s base val = (case digit_of (m s) of
       None \<Rightarrow> Some (val, s)
     | Some dig \<Rightarrow> if base \<le>s dig then Some (val, s)
         else strtol_digits m (s + 1) base (val * base + dig))"

definition strtol_base :: "bytes \<Rightarrow> u32 \<Rightarrow> u32 \<Rightarrow> u32 \<times> u32" where
  "strtol_base m s base =
     (if (base = 0 \<or> base = 16) \<and> m s = 0x30 \<and> m (s + 1) = 0x78 then (s + 2, 16)
      else if base = 0 \<and> m s = 0x30 then (s + 1, 8)
      else if base = 0 then (s, 10) else (s, base))"

text \<open>The result is the value and the end pointer.\<close>

definition strtol :: "bytes \<Rightarrow> u32 \<Rightarrow> u32 \<Rightarrow> (u32 \<times> u32) option" where
  "strtol m s base = do {
     s1 \<leftarrow> skip_blanks m s;
     let neg = (m s1 = 0x2D);
     let s2 = (if m s1 = 0x2B \<or> neg then s1 + 1 else s1);
     let (s3, b) = strtol_base m s2 base;
     (val, e) \<leftarrow> strtol_digits m s3 b 0;
     Some (if neg then - val else val, e) }"

section \<open>Lemmas\<close>

text \<open>The bytes of a C string lie at \<open>p\<close>, with its terminator behind them.\<close>

fun str_at :: "bytes \<Rightarrow> u32 \<Rightarrow> u8 list \<Rightarrow> bool" where
  "str_at m p [] = (m p = 0)"
| "str_at m p (c # cs) = (m p = c \<and> c \<noteq> 0 \<and> str_at m (p + 1) cs)"

lemma strlen_loop_at: "str_at m p cs \<Longrightarrow> strlen_loop m p n = Some (n + of_nat (length cs))"
  by (induction cs arbitrary: p n) (auto simp: strlen_loop.simps)

lemma strcmp_at:
  "str_at m p xs \<Longrightarrow> str_at m q ys \<Longrightarrow>
   \<exists>r. strcmp m p q = Some r \<and> (r = 0 \<longleftrightarrow> xs = ys) \<and> (r <s 0 \<longleftrightarrow> ord_class.lexordp xs ys)"
proof (induction xs arbitrary: p q ys)
  have neg: "(byte_diff a b = 0 \<longleftrightarrow> a = b) \<and> (byte_diff a b <s 0 \<longleftrightarrow> a < b)" for a b :: u8
  proof -
    have bd: "unat a < 256" "unat b < 256" using unsigned_less [of a] unsigned_less [of b] by simp_all
    have "unat (byte_diff a b) = (if b \<le> a then unat a - unat b else unat a + 4294967296 - unat b)"
      using bd by (simp add: byte_diff_def unat_sub_if' unsigned_ucast_eq take_bit_eq_mod word_le_nat_alt)
    then show ?thesis using bd
      by (auto simp: sless_0 word_le_nat_alt word_less_nat_alt simp flip: word_unat_eq_iff unat_eq_zero split: if_splits)
  qed
  {
    case Nil
    then show ?case using neg [of 0 "m q"]
      by (cases ys) (auto simp: strcmp.simps [of m p q] word_neq_0_conv)
  next
    case (Cons x xs)
    show ?case
    proof (cases ys)
      case Nil
      then show ?thesis using Cons.prems neg [of x 0] by (auto simp: strcmp.simps [of m p q])
    next
      case (Cons y ys')
      then show ?thesis
        using Cons.IH [of "p + 1" "q + 1" ys'] Cons.prems neg [of x y]
        by (auto simp: strcmp.simps [of m p q])
    qed
  }
qed

text \<open>A copy of the bytes at the given offsets, all read before any is written.\<close>

definition copy_at :: "u32 \<Rightarrow> u32 \<Rightarrow> u32 set \<Rightarrow> bytes \<Rightarrow> bytes" where
  "copy_at d s I m = (\<lambda>a. if a - d \<in> I then m (s + (a - d)) else m a)"

lemma copy_at_seq:
  assumes "\<And>i j. i \<in> I \<Longrightarrow> j \<in> J \<Longrightarrow> d + i \<noteq> s + j"
  shows "copy_at d s J (copy_at d s I m) = copy_at d s (I \<union> J) m"
proof
  fix a
  have "s + (a - d) - d \<notin> I" if "a - d \<in> J"
    using assms [of "s + (a - d) - d" "a - d"] that by auto
  then show "copy_at d s J (copy_at d s I m) a = copy_at d s (I \<union> J) m a"
    by (auto simp: copy_at_def)
qed

definition offsets :: "nat \<Rightarrow> nat \<Rightarrow> u32 set" where
  "offsets i j = of_nat ` {i..<j}"

lemma offsets_Un: "i \<le> j \<Longrightarrow> j \<le> k \<Longrightarrow> offsets i j \<union> offsets j k = offsets i k"
  by (simp add: offsets_def image_Un [symmetric] ivl_disj_un)

lemma offset_less_iff:
  assumes "j + w < 4294967296"
  shows "x - of_nat j < of_nat w \<longleftrightarrow> x \<in> offsets j (j + w)"
proof
  assume "x - of_nat j < of_nat w"
  then have "unat (x - of_nat j) < w" using assms by (simp add: word_less_nat_alt unat_of_nat)
  moreover have "x = of_nat (j + unat (x - of_nat j))" by simp
  ultimately show "x \<in> offsets j (j + w)" unfolding offsets_def
    by (intro image_eqI [of _ _ "j + unat (x - of_nat j)"]) auto
next
  assume "x \<in> offsets j (j + w)"
  then obtain t where t: "x = of_nat t" "j \<le> t" "t < j + w" by (auto simp: offsets_def)
  then have e: "x - of_nat j = of_nat (t - j)" by (simp only: of_nat_diff)
  have "t - j < w" using t(2,3) by simp
  then show "x - of_nat j < of_nat w" unfolding e using assms
    by (simp only: word_less_nat_alt unat_of_nat) simp
qed

lemma movs_step:
  assumes "j + w < 4294967296"
  shows "(\<lambda>a. if a - (d + of_nat j) < of_nat w then m (s + of_nat j + (a - (d + of_nat j))) else m a)
    = copy_at d s (offsets j (j + w)) m"
  using offset_less_iff [OF assms] by (auto simp: copy_at_def fun_eq_iff diff_diff_add [symmetric])

definition apart :: "u32 \<Rightarrow> u32 \<Rightarrow> nat \<Rightarrow> (nat \<Rightarrow> nat \<Rightarrow> bool) \<Rightarrow> bool" where
  "apart d s n before \<longleftrightarrow> (\<forall>a b. a < n \<longrightarrow> b < n \<longrightarrow> before a b \<longrightarrow> d + of_nat a \<noteq> s + of_nat b)"

lemma movs_up:
  assumes "w * (i + k) < 4294967296" "apart d s (w * (i + k)) (<)"
  shows "rep_movs (of_nat w) (of_nat w) (d + of_nat (w * i)) (s + of_nat (w * i)) k m
    = copy_at d s (offsets (w * i) (w * (i + k))) m"
  using assms
proof (induction k arbitrary: i m)
  case 0
  then show ?case by (simp add: offsets_def copy_at_def)
next
  case (Suc k)
  have n: "w * i + w < 4294967296" "w * (Suc i + k) = w * (i + Suc k)"
    using Suc.prems(1) by (simp_all add: algebra_simps)
  have seq: "copy_at d s (offsets (w * i + w) (w * (i + Suc k))) (copy_at d s (offsets (w * i) (w * i + w)) m)
      = copy_at d s (offsets (w * i) (w * i + w) \<union> offsets (w * i + w) (w * (i + Suc k))) m"
  proof (rule copy_at_seq)
    fix x y assume "x \<in> offsets (w * i) (w * i + w)" "y \<in> offsets (w * i + w) (w * (i + Suc k))"
    then show "d + x \<noteq> s + y" using Suc.prems(2)
      by (auto simp: offsets_def apart_def algebra_simps)
  qed
  have IH: "rep_movs (of_nat w) (of_nat w) (d + of_nat (w * Suc i)) (s + of_nat (w * Suc i)) k m'
      = copy_at d s (offsets (w * i + w) (w * (i + Suc k))) m'" for m'
    using Suc.IH [of "Suc i" m'] Suc.prems n(2) by (simp add: algebra_simps)
  show ?case
    using IH seq by (simp only: rep_movs.simps movs_step [OF n(1)]) (simp add: algebra_simps offsets_Un)
qed

lemma movs_down:
  assumes "w * k < 4294967296" "apart d s (w * k) (\<lambda>a b. b < a)"
  shows "rep_movs (of_nat w) (- of_nat w) (d + of_nat (w * k) - of_nat w) (s + of_nat (w * k) - of_nat w) k m
    = copy_at d s (offsets 0 (w * k)) m"
  using assms
proof (induction k arbitrary: m)
  case 0
  then show ?case by (simp add: offsets_def copy_at_def)
next
  case (Suc k)
  have n: "w * k + w < 4294967296" using Suc.prems(1) by (simp add: algebra_simps)
  have seq: "copy_at d s (offsets 0 (w * k)) (copy_at d s (offsets (w * k) (w * k + w)) m)
      = copy_at d s (offsets (w * k) (w * k + w) \<union> offsets 0 (w * k)) m"
  proof (rule copy_at_seq)
    fix x y assume "x \<in> offsets (w * k) (w * k + w)" "y \<in> offsets 0 (w * k)"
    then show "d + x \<noteq> s + y" using Suc.prems(2)
      by (auto simp: offsets_def apart_def algebra_simps)
  qed
  have ap: "apart d s (w * k) (\<lambda>a b. b < a)" using Suc.prems(2) by (auto simp: apart_def)
  have IH: "rep_movs (of_nat w) (- of_nat w) (d + of_nat (w * k) - of_nat w) (s + of_nat (w * k) - of_nat w) k m'
      = copy_at d s (offsets 0 (w * k)) m'" for m'
    using Suc.IH [of m'] Suc.prems(1) ap by simp
  have p: "p + of_nat (w * Suc k) - of_nat w = p + of_nat (w * k)" for p :: u32 by (simp add: algebra_simps)
  show ?case
    using IH seq by (simp only: rep_movs.simps p movs_step [OF n]) (simp add: Un_commute offsets_Un algebra_simps)
qed

lemma apart_nowrap:
  assumes "unat d + n \<le> 4294967296" "unat s + n \<le> 4294967296"
    "\<And>a b. a < n \<Longrightarrow> b < n \<Longrightarrow> before a b \<Longrightarrow> unat d + a \<noteq> unat s + b"
  shows "apart d s n before"
  unfolding apart_def
proof (intro allI impI)
  fix a b assume ab: "a < n" "b < n" "before a b"
  have "unat (d + of_nat a) = unat d + a" "unat (s + of_nat b) = unat s + b"
    using assms(1,2) ab(1,2) by (simp_all add: unat_word_ariths unat_of_nat)
  then show "d + of_nat a \<noteq> s + of_nat b" using assms(3) [OF ab] by metis
qed

lemma four_blocks:
  fixes n :: u32
  assumes "n mod 4 = 0"
  shows "4 * unat (n div 4) = unat n" "4 * (n div 4) = n"
proof -
  show "4 * unat (n div 4) = unat n"
    using assms by (simp add: unat_div unat_mod word_unat_eq_iff) presburger
  show "4 * (n div 4) = n" using assms mult_div_mod_eq [of 4 n] by simp
qed

lemma memmove_copy_at:
  assumes "unat dst + unat n \<le> 4294967296" "unat src + unat n < 4294967296"
  shows "memmove dst src n m = copy_at dst src (offsets 0 (unat n)) m"
proof -
  have sum: "unat (src + n) = unat src + unat n" using assms(2) by (simp add: unat_word_ariths)
  have n: "unat n < 4294967296" using unsigned_less [of n] by simp
  note blk = four_blocks [of n]
  show ?thesis
  proof (cases "src < dst \<and> src + n > dst")
    case True
    have ap: "apart dst src (unat n) (\<lambda>a b. b < a)"
      using True assms by (intro apart_nowrap) (auto simp: word_less_nat_alt)
    show ?thesis
    proof (cases "dwords (src + n) (dst + n) n")
      case dw: True
      then have n4: "n mod 4 = 0" by (simp add: dwords_def)
      show ?thesis
        using True dw movs_down [of 4 "unat (n div 4)" dst src m] ap n
        by (simp add: memmove_def blk [OF n4])
    next
      case False
      then show ?thesis
        using True movs_down [of 1 "unat n" dst src m] ap n by (simp add: memmove_def)
    qed
  next
    case up: False
    have ap: "apart dst src (unat n) (<)"
      using up assms sum by (intro apart_nowrap) (auto simp: word_less_nat_alt)
    show ?thesis
    proof (cases "dwords src dst n")
      case dw: True
      then have n4: "n mod 4 = 0" by (simp add: dwords_def)
      show ?thesis
        using up dw movs_up [of 4 0 "unat (n div 4)" dst src m] ap n
        by (auto simp: memmove_def blk [OF n4])
    next
      case False
      then show ?thesis
        using up movs_up [of 1 0 "unat n" dst src m] ap n by (auto simp: memmove_def)
    qed
  qed
qed

lemma str_at_shift: "str_at (\<lambda>a. m (a + k)) p cs = str_at m (p + k) cs"
  by (induction cs arbitrary: p) (auto simp: algebra_simps)

lemma strcpy_at:
  assumes "str_at m src cs" "\<And>i j. i < j \<Longrightarrow> j \<le> length cs \<Longrightarrow> dst + of_nat i \<noteq> src + of_nat j"
    "length cs < 4294967296"
  shows "strcpy dst src m = Some (copy_at dst src (offsets 0 (Suc (length cs))) m)"
  using assms
proof (induction cs arbitrary: dst src m)
  case Nil
  have "offsets 0 (Suc 0) = {0}" by (simp add: offsets_def)
  then show ?case using Nil by (subst strcpy.simps) (auto simp: copy_at_def fun_eq_iff)
next
  case (Cons c cs)
  let ?m = "m(dst := m src)"
  have fr: "dst \<noteq> src + of_nat j" if "0 < j" "j \<le> Suc (length cs)" for j
    using Cons.prems(2) [of 0 j] that by simp
  have "str_at ?m (src + of_nat (Suc k)) xs"
    if "str_at m (src + of_nat (Suc k)) xs" "k + length xs \<le> length cs" for k xs
    using that
  proof (induction xs arbitrary: k)
    case Nil
    then show ?case using fr [of "Suc k"] by auto
  next
    case (Cons x xs)
    then show ?case using fr [of "Suc k"] Cons.IH [of "Suc k"] by (auto simp: algebra_simps)
  qed
  from this [of 0 cs] have sa: "str_at ?m (src + 1) cs" using Cons.prems(1) by simp
  have ne: "dst + 1 + of_nat i \<noteq> src + 1 + of_nat j" if "i < j" "j \<le> length cs" for i j
    using Cons.prems(2) [of "Suc i" "Suc j"] that by (simp add: algebra_simps)
  have IH: "strcpy (dst + 1) (src + 1) ?m = Some (copy_at (dst + 1) (src + 1) (offsets 0 (Suc (length cs))) ?m)"
    using Cons.IH [OF sa ne] Cons.prems(3) by (simp del: fun_upd_apply)
  have e1: "copy_at (dst + 1) (src + 1) (offsets 0 (Suc (length cs))) = copy_at dst src (offsets 1 (Suc (Suc (length cs))))"
  proof -
    have "a - (dst + 1) \<in> offsets 0 (Suc (length cs)) \<longleftrightarrow> a - dst \<in> offsets 1 (Suc (Suc (length cs)))" for a
    proof
      assume "a - (dst + 1) \<in> offsets 0 (Suc (length cs))"
      then obtain i where "a - (dst + 1) = of_nat i" "i < Suc (length cs)" by (auto simp: offsets_def)
      then have "a - dst = of_nat (Suc i)" by (simp add: algebra_simps)
      then show "a - dst \<in> offsets 1 (Suc (Suc (length cs)))"
        unfolding offsets_def using \<open>i < _\<close> by (intro image_eqI [of _ _ "Suc i"]) auto
    next
      assume "a - dst \<in> offsets 1 (Suc (Suc (length cs)))"
      then obtain i where i: "a - dst = of_nat i" "1 \<le> i" "i < Suc (Suc (length cs))" by (auto simp: offsets_def)
      then have "a - (dst + 1) = of_nat (i - 1)" by (simp add: of_nat_diff algebra_simps)
      then show "a - (dst + 1) \<in> offsets 0 (Suc (length cs))"
        unfolding offsets_def using i by (intro image_eqI [of _ _ "i - 1"]) auto
    qed
    then show ?thesis by (auto simp: copy_at_def fun_eq_iff algebra_simps)
  qed
  have e2: "?m = copy_at dst src (offsets 0 1) m" by (auto simp: copy_at_def offsets_def fun_eq_iff)
  have seq: "copy_at dst src (offsets 1 (Suc (Suc (length cs)))) (copy_at dst src (offsets 0 1) m)
      = copy_at dst src (offsets 0 1 \<union> offsets 1 (Suc (Suc (length cs)))) m"
  proof (rule copy_at_seq)
    fix i j assume i: "i \<in> offsets 0 1" and j: "j \<in> offsets 1 (Suc (Suc (length cs)))"
    from j obtain t where "j = of_nat t" "1 \<le> t" "t < Suc (Suc (length cs))" by (auto simp: offsets_def)
    then show "dst + i \<noteq> src + j" using fr [of t] i by (simp add: offsets_def)
  qed
  have un: "offsets 0 1 \<union> offsets 1 (Suc (Suc (length cs))) = offsets 0 (Suc (Suc (length cs)))"
    by (intro offsets_Un) simp_all
  have "m src \<noteq> 0" using Cons.prems(1) by auto
  then have "strcpy dst src m = strcpy (dst + 1) (src + 1) ?m"
    by (subst strcpy.simps) (simp del: fun_upd_apply)
  also have "\<dots> = Some (copy_at dst src (offsets 0 (Suc (Suc (length cs)))) m)"
    by (simp only: IH e1) (simp only: e2 seq un)
  finally show ?case by simp
qed

lemma strlcpy_loop_bound:
  "strlcpy_loop d src k m = (m', d') \<Longrightarrow> unat d + k < 4294967296 \<Longrightarrow>
   unat d \<le> unat d' \<and> unat d' \<le> unat d + k \<and> (\<forall>a. \<not> (d \<le> a \<and> a < d') \<longrightarrow> m' a = m a)"
proof (induction k arbitrary: d src m)
  case (Suc k)
  have s: "unat (d + 1) = unat d + 1" using Suc.prems(2) by (simp add: unat_word_ariths)
  show ?case
  proof (cases "m src = 0")
    case False
    then have "unat (d + 1) \<le> unat d' \<and> unat d' \<le> unat (d + 1) + k
        \<and> (\<forall>a. \<not> (d + 1 \<le> a \<and> a < d') \<longrightarrow> m' a = (m(d := m src)) a)"
      using Suc.prems s by (intro Suc.IH [of "d + 1" "src + 1"]) (auto simp del: fun_upd_apply)
    then show ?thesis using s by (auto simp: word_le_nat_alt word_less_nat_alt)
  qed (use Suc.prems in auto)
qed auto

section \<open>Properties\<close>

text \<open>Memmove copies as if it read the whole source before it wrote anything: for ranges that do not
  wrap around, overlapping or not, with either direction and either width of its string instruction,
  each destination byte gets the old source byte, and no other byte of memory changes.\<close>

theorem memmove_overlap:
  assumes "unat dst + unat n \<le> 2 ^ 32" "unat src + unat n < 2 ^ 32"
  shows "memmove dst src n m a = (if a - dst < n then m (src + (a - dst)) else m a)"
proof -
  have "unat n < 4294967296" using unsigned_less [of n] by simp
  then have "x \<in> offsets 0 (unat n) \<longleftrightarrow> x < n" for x using offset_less_iff [of 0 "unat n" x] by simp
  then show ?thesis using memmove_copy_at [of dst n src m] assms by (simp add: copy_at_def)
qed

theorem memmove_overlap_witness: "memmove 2 0 4 (\<lambda>a. ucast a) 5 = 3 \<and> memmove 0 4 8 (\<lambda>a. ucast a) 7 = 11"
  using memmove_overlap [of 2 4 0 "\<lambda>a. ucast a" 5] memmove_overlap [of 0 8 4 "\<lambda>a. ucast a" 7] by simp

text \<open>Strcmp ends on every pair of strings, with 0 exactly when they are equal and a negative
  result exactly when the first one comes before the second in the order of unsigned characters.\<close>

theorem strcmp_order:
  assumes "str_at m p xs" "str_at m q ys"
  shows "\<exists>r. strcmp m p q = Some r \<and> (r = 0 \<longleftrightarrow> xs = ys) \<and> (r <s 0 \<longleftrightarrow> ord_class.lexordp xs ys)"
  using strcmp_at [OF assms] .

theorem strcmp_order_witness:
  "\<exists>r. strcmp (\<lambda>a. if a = 16 then 0x61 else if a = 32 then 0xE1 else 0) 16 32 = Some r \<and> r \<noteq> 0 \<and> r <s 0"
  using strcmp_order [of "\<lambda>a. if a = 16 then 0x61 else if a = 32 then 0xE1 else 0" 16 "[0x61]" 32 "[0xE1]"]
  by (auto simp: lexordp_simps)

text \<open>Strlcpy never writes outside of the size it is given, and what it leaves there is terminated.\<close>

theorem strlcpy_bounded:
  assumes "n \<noteq> 0" "unat dst + unat n \<le> 2 ^ 32" "strlcpy dst src n m = (m', len)"
  shows "len < n \<and> m' (dst + len) = 0 \<and> (\<forall>a. \<not> a - dst < n \<longrightarrow> m' a = m a)"
proof -
  obtain m1 d1 where l: "strlcpy_loop dst src (unat n - 1) m = (m1, d1)" by fastforce
  have n: "0 < unat n" using assms(1) by (simp add: unat_gt_0)
  have b: "unat dst \<le> unat d1" "unat d1 \<le> unat dst + (unat n - 1)"
    "\<And>a. \<not> (dst \<le> a \<and> a < d1) \<Longrightarrow> m1 a = m a"
    using strlcpy_loop_bound [OF l] assms(2) n by auto
  have r: "m' = m1(d1 := 0)" "len = d1 - dst" using assms(1,3) l by (auto simp: strlcpy_def)
  have d: "unat (d1 - dst) = unat d1 - unat dst" using b(1) by (simp add: unat_sub word_le_nat_alt)
  have "m' a = m a" if a: "\<not> a - dst < n" for a
  proof -
    have "\<not> (dst \<le> a \<and> a \<le> d1)"
    proof
      assume "dst \<le> a \<and> a \<le> d1"
      then have "unat (a - dst) = unat a - unat dst" "unat a \<le> unat d1"
        by (simp_all add: unat_sub word_le_nat_alt)
      then show False using a b(2) n by (simp add: word_less_nat_alt)
    qed
    then show ?thesis using b(3) [of a] b(1) by (auto simp: r(1) word_le_nat_alt word_less_nat_alt)
  qed
  then show ?thesis using b(2) n d by (auto simp: r word_less_nat_alt)
qed

theorem strlcpy_bounded_witness:
  "\<exists>m' len. strlcpy 16 32 3 (\<lambda>_. 0x41) = (m', len) \<and> len < 3 \<and> m' (16 + len) = 0 \<and> m' 19 = 0x41"
proof -
  obtain m' len where r: "strlcpy 16 32 3 (\<lambda>_. 0x41) = (m', len)" by fastforce
  then show ?thesis using strlcpy_bounded [of 3 16 32 "\<lambda>_. 0x41" m' len] by auto
qed

end
