(* ===== verification/Printf.thy ===== *)
theory Printf
  imports CString Console
begin

text \<open>
  Formatted output: lib/printfmt.c, and what the kernel (kern/printf.c) and a user program
  (lib/printf.c) do with the characters.

  \<^item> The output of a formatting routine is the list of the \<open>int\<close>s it hands to \<open>putch\<close>, in order.
  \<^item> The variable arguments are a list of \<open>va\<close>; \<open>None\<close> is the undefined behaviour of taking an
    argument that is missing or has another type. A string argument is given by its characters.
  \<^item> Field widths are integers: one that overflows an \<open>int\<close> is undefined behaviour as well.
\<close>

section \<open>Numbers\<close>

definition hexdigits :: "u8 list" where
  "hexdigits = lit ''0123456789abcdef''"

text \<open>The base is 8, 10 or 16 at every call.\<close>

function printnum :: "u64 \<Rightarrow> u64 \<Rightarrow> int \<Rightarrow> u32 \<Rightarrow> u32 list" where
  "printnum num base width padc =
     (if num \<ge> base \<and> 1 < base then printnum (num div base) base (width - 1) padc
      else replicate (nat (width - 1)) padc) @ [ucast (hexdigits ! unat (num mod base))]"
  by auto
termination
  by (relation "measure (\<lambda>(num, _). unat num)")
     (auto simp: word_less_nat_alt word_le_nat_alt unat_div intro!: div_less_dividend)

declare printnum.simps [simp del]

section \<open>Conversions (vprintfmt)\<close>

datatype va = VInt u32 | VLong u64 | VStr "u8 list option"

record conv =
  padc :: u32
  width :: int
  precision :: int
  lflag :: nat
  altflag :: bool

definition conv0 :: conv where
  "conv0 = \<lparr>padc = 0x20, width = - 1, precision = - 1, lflag = 0, altflag = False\<rparr>"

fun getuint :: "nat \<Rightarrow> va list \<Rightarrow> (u64 \<times> va list) option" where
  "getuint lf (VLong w # args) = (if 2 \<le> lf then Some (w, args) else None)"
| "getuint lf (VInt w # args) = (if 2 \<le> lf then None else Some (ucast w, args))"
| "getuint lf _ = None"

fun getint :: "nat \<Rightarrow> va list \<Rightarrow> (u64 \<times> va list) option" where
  "getint lf (VLong w # args) = (if 2 \<le> lf then Some (w, args) else None)"
| "getint lf (VInt w # args) = (if 2 \<le> lf then None else Some (scast w, args))"
| "getint lf _ = None"

fun width_digits :: "int \<Rightarrow> u8 \<Rightarrow> u8 list \<Rightarrow> int \<times> u8 list" where
  "width_digits n ch fmt = (let n' = n * 10 + (uint ch - 0x30) in
     case fmt of [] \<Rightarrow> (n', [])
     | d # rest \<Rightarrow> if 0x30 \<le> d \<and> d \<le> 0x39 then width_digits n' d rest else (n', fmt))"

declare width_digits.simps [simp del]

lemma width_digits_length: "length (snd (width_digits n ch fmt)) \<le> length fmt"
proof (induction fmt arbitrary: n ch)
  case Nil
  show ?case by (simp add: width_digits.simps [of n ch "[]"])
next
  case (Cons d rest)
  then show ?case using Cons.IH [of "n * 10 + (uint ch - 0x30)" d]
    by (subst width_digits.simps) (auto simp: le_SucI)
qed

definition process_precision :: "int \<Rightarrow> conv \<Rightarrow> conv" where
  "process_precision p c = (if width c < 0 then c\<lparr>width := p, precision := - 1\<rparr> else c\<lparr>precision := p\<rparr>)"

text \<open>The flags after a percent sign: the result is the conversion character (0 is the end of the
  format), with the state, the rest of the format and the arguments that are left.\<close>

function scan_conv :: "conv \<Rightarrow> u8 list \<Rightarrow> va list \<Rightarrow> (conv \<times> u8 \<times> u8 list \<times> va list) option" where
  "scan_conv c fmt args = (case fmt of [] \<Rightarrow> Some (c, 0, [], args)
     | ch # rest \<Rightarrow>
       if ch = 0x2D then scan_conv (c\<lparr>padc := 0x2D\<rparr>) rest args
       else if ch = 0x30 then scan_conv (c\<lparr>padc := 0x30\<rparr>) rest args
       else if 0x31 \<le> ch \<and> ch \<le> 0x39 then
         scan_conv (process_precision (fst (width_digits 0 ch rest)) c) (snd (width_digits 0 ch rest)) args
       else if ch = 0x2A then (case args of VInt p # args' \<Rightarrow> scan_conv (process_precision (sint p) c) rest args'
                               | _ \<Rightarrow> None)
       else if ch = 0x2E then scan_conv (if width c < 0 then c\<lparr>width := 0\<rparr> else c) rest args
       else if ch = 0x23 then scan_conv (c\<lparr>altflag := True\<rparr>) rest args
       else if ch = 0x6C then scan_conv (c\<lparr>lflag := lflag c + 1\<rparr>) rest args
       else Some (c, ch, rest, args))"
  by auto
termination
  using width_digits_length
  by (relation "measure (\<lambda>(_, fmt, _). length fmt)") (auto simp: less_Suc_eq_le)

declare scan_conv.simps [simp del]

lemma scan_conv_length: "scan_conv c fmt args = Some (c', ch, rest, args') \<Longrightarrow> length rest \<le> length fmt"
proof (induction "length fmt" arbitrary: c fmt args rule: less_induct)
  case less
  show ?case
  proof (cases fmt)
    case Nil
    then show ?thesis using less.prems by (simp add: scan_conv.simps [of c "[]"])
  next
    case (Cons a fmt')
    have w: "length (snd (width_digits 0 a fmt')) \<le> length fmt'" by (rule width_digits_length)
    have IH: "length rest \<le> Suc (length fmt')"
      if "scan_conv c x args = Some (c', ch, rest, args')" "length x \<le> length fmt'" for c x args
      using less.hyps [OF _ that(1)] that(2) Cons by simp
    show ?thesis
      using less.prems w unfolding Cons
      by (subst (asm) scan_conv.simps) (auto split: if_splits list.splits va.splits dest: IH)
  qed
qed

definition error_string :: "u32 \<Rightarrow> u8 list option" where
  "error_string e = map_option lit (map_of
     [(1, ''unspecified error''), (2, ''bad environment''), (3, ''invalid parameter''), (4, ''out of memory''),
      (5, ''out of environments''), (6, ''segmentation fault''), (7, ''env is not recving''),
      (8, ''unexpected end of file'')] (unat e))"

text \<open>A character of a string is a (signed) \<open>char\<close>.\<close>

definition put_string_char :: "bool \<Rightarrow> u8 \<Rightarrow> u32" where
  "put_string_char alt ch = (if alt \<and> (ch <s 0x20 \<or> 0x7E <s ch) then 0x3F else scast ch)"

definition conv_string :: "conv \<Rightarrow> u8 list \<Rightarrow> u32 list" where
  "conv_string c p =
     (let left = 0 < width c \<and> padc c \<noteq> 0x2D;
          n = (if precision c < 0 then length p else min (length p) (nat (precision c)));
          pad = (if left then replicate (nat (width c - int n)) (padc c) else []);
          w = (if left then min (width c - int n) 0 else width c) - int n
      in pad @ map (put_string_char (altflag c)) (take n p) @ replicate (nat w) 0x20)"

definition conv_decimal :: "conv \<Rightarrow> u64 \<Rightarrow> u32 list" where
  "conv_decimal c num = (if num <s 0 then 0x2D # printnum (- num) 10 (width c) (padc c)
     else printnum num 10 (width c) (padc c))"

text \<open>
  Negating the most negative \<open>int\<close> leaves it negative, and \<open>error_string\<close> is read out of bounds. The
  nested printfmt calls format \<open>"error %d"\<close> and \<open>"%s"\<close>, whose states are \<open>conv0\<close>.
\<close>

definition conv_error :: "u32 \<Rightarrow> u32 list option" where
  "conv_error e = (let err = (if e <s 0 then - e else e) in
     if err <s 0 then None
     else case (if MAXERROR \<le>s err then None else error_string err) of
       None \<Rightarrow> Some (map ucast (lit ''error '') @ conv_decimal conv0 (scast err))
     | Some p \<Rightarrow> Some (conv_string conv0 p))"

definition conversions :: "u8 set" where
  "conversions = set (lit ''cesduopx%'')"

text \<open>The conversions; \<open>ch\<close> is one of \<open>conversions\<close>.\<close>

definition convert :: "conv \<Rightarrow> u8 \<Rightarrow> va list \<Rightarrow> (u32 list \<times> va list) option" where
  "convert c ch args =
     (if ch = 0x63 then (case args of VInt w # args' \<Rightarrow> Some ([w], args') | _ \<Rightarrow> None)
      else if ch = 0x65 then (case args of VInt e # args' \<Rightarrow> map_option (\<lambda>out. (out, args')) (conv_error e) | _ \<Rightarrow> None)
      else if ch = 0x73 then (case args of
          VStr s # args' \<Rightarrow> Some (conv_string c (case s of None \<Rightarrow> lit ''(null)'' | Some p \<Rightarrow> p), args')
        | _ \<Rightarrow> None)
      else if ch = 0x64 then map_option (\<lambda>(num, args'). (conv_decimal c num, args')) (getint (lflag c) args)
      else if ch = 0x75 then map_option (\<lambda>(num, args'). (printnum num 10 (width c) (padc c), args')) (getuint (lflag c) args)
      else if ch = 0x6F then map_option (\<lambda>(num, args'). (printnum num 8 (width c) (padc c), args')) (getuint (lflag c) args)
      else if ch = 0x70 then (case args of
          VInt w # args' \<Rightarrow> Some (0x30 # 0x78 # printnum (ucast w) 16 (width c) (padc c), args') | _ \<Rightarrow> None)
      else if ch = 0x78 then map_option (\<lambda>(num, args'). (printnum num 16 (width c) (padc c), args')) (getuint (lflag c) args)
      else Some ([ucast ch], args))"

text \<open>
  An unknown conversion prints the percent sign and goes back to just behind it.
\<close>

function vprintfmt :: "u8 list \<Rightarrow> va list \<Rightarrow> u32 list option" where
  "vprintfmt fmt args = (case fmt of [] \<Rightarrow> Some []
     | ch # rest \<Rightarrow>
       if ch \<noteq> 0x25 then map_option ((#) (ucast ch)) (vprintfmt rest args)
       else (case scan_conv conv0 rest args of None \<Rightarrow> None
         | Some (c, ch', rest', args') \<Rightarrow>
             if ch' \<in> conversions then
               (case convert c ch' args' of None \<Rightarrow> None
                | Some (out, args'') \<Rightarrow> map_option ((@) out) (vprintfmt rest' args''))
             else map_option ((#) 0x25) (vprintfmt rest args')))"
  by auto
termination
  using scan_conv_length
  by (relation "measure (\<lambda>(fmt, _). length fmt)") (fastforce simp: less_Suc_eq_le)+

declare vprintfmt.simps [simp del]

section \<open>Printing to a buffer\<close>

text \<open>\<open>struct sprintbuf\<close>: where the next character goes, the last byte of the buffer, and a count.\<close>

record sprintbuf =
  sb_buf :: u32
  sb_ebuf :: u32
  sb_cnt :: u32

definition sprintputch :: "u32 \<Rightarrow> sprintbuf \<times> bytes \<Rightarrow> sprintbuf \<times> bytes" where
  "sprintputch ch = (\<lambda>(b, m).
     if sb_buf b < sb_ebuf b
     then (b\<lparr>sb_cnt := sb_cnt b + 1, sb_buf := sb_buf b + 1\<rparr>, m(sb_buf b := ucast ch))
     else (b\<lparr>sb_cnt := sb_cnt b + 1\<rparr>, m))"

definition vsnprintf :: "u32 \<Rightarrow> u32 \<Rightarrow> u8 list \<Rightarrow> va list \<Rightarrow> bytes \<Rightarrow> (u32 \<times> bytes) option" where
  "vsnprintf buf n fmt args m =
     (if buf = 0 \<or> n <s 1 then Some (err E_INVAL, m)
      else map_option (\<lambda>out.
        let (b, m') = fold sprintputch out (\<lparr>sb_buf = buf, sb_ebuf = buf + n - 1, sb_cnt = 0\<rparr>, m)
        in (sb_cnt b, m'(sb_buf b := 0))) (vprintfmt fmt args))"

section \<open>Printing to the console (kern/printf.c)\<close>

definition putch :: "u32 \<Rightarrow> console \<times> u32 \<Rightarrow> console \<times> u32" where
  "putch ch = (\<lambda>(con, cnt). (cputchar ch con, cnt + 1))"

definition vcprintf :: "u8 list \<Rightarrow> va list \<Rightarrow> console \<Rightarrow> (console \<times> u32) option" where
  "vcprintf fmt args con = map_option (\<lambda>out. fold putch out (con, 0)) (vprintfmt fmt args)"

section \<open>Printing from a user program (lib/printf.c)\<close>

text \<open>\<open>struct printbuf\<close>, with the characters so far, and the strings handed to sys\_cputs.\<close>

record printbuf =
  pb_buf :: "u8 list"
  pb_cnt :: u32

definition user_putch :: "u32 \<Rightarrow> printbuf \<times> u8 list list \<Rightarrow> printbuf \<times> u8 list list" where
  "user_putch ch = (\<lambda>(b, puts).
     let buf = pb_buf b @ [ucast ch] in
     if length buf = 256 - 1 then (b\<lparr>pb_buf := [], pb_cnt := pb_cnt b + 1\<rparr>, puts @ [buf])
     else (b\<lparr>pb_buf := buf, pb_cnt := pb_cnt b + 1\<rparr>, puts))"

definition user_vcprintf :: "u8 list \<Rightarrow> va list \<Rightarrow> (u8 list list \<times> u32) option" where
  "user_vcprintf fmt args = map_option (\<lambda>out.
     let (b, puts) = fold user_putch out (\<lparr>pb_buf = [], pb_cnt = 0\<rparr>, [])
     in (puts @ [pb_buf b], pb_cnt b)) (vprintfmt fmt args)"

section \<open>Lemmas\<close>

lemma hexdigits_eq:
  "hexdigits = [0x30, 0x31, 0x32, 0x33, 0x34, 0x35, 0x36, 0x37, 0x38, 0x39, 0x61, 0x62, 0x63, 0x64, 0x65, 0x66]"
  by (simp add: hexdigits_def lit_def)
lemma hexdigit:
  assumes "d < 16"
  shows "digit_of (hexdigits ! d) = Some (of_nat d) \<and> hexdigits ! d \<noteq> 0 \<and> hexdigits ! d \<noteq> 0x78
    \<and> hexdigits ! d \<notin> {0x20, 0x09, 0x2B, 0x2D}"
proof -
  have "list_all (\<lambda>d. digit_of (hexdigits ! d) = Some (of_nat d) \<and> hexdigits ! d \<noteq> 0 \<and> hexdigits ! d \<noteq> 0x78
    \<and> hexdigits ! d \<notin> {0x20, 0x09, 0x2B, 0x2D}) [0..<16]"
    unfolding hexdigits_eq by code_simp
  then show ?thesis using assms by (simp add: list_all_iff)
qed

lemma sint_small:
  assumes "unat (w :: u32) < 2147483648"
  shows "sint w = int (unat w)"
proof -
  have u: "uint w = int (unat w)" by simp
  have "uint w < 2 ^ 31" unfolding u using assms by (simp del: of_nat_unat)
  then have "signed_take_bit 31 (uint w) = uint w" using uint_ge_0 [of w] by (intro signed_take_bit_int_eq_self) linarith+
  then show ?thesis by (simp add: sint_uint)
qed
lemma sle_unat: "unat (a :: u32) < 2147483648 \<Longrightarrow> unat b < 2147483648 \<Longrightarrow> a \<le>s b \<longleftrightarrow> unat a \<le> unat b"
  by (simp only: word_sle_eq sint_small of_nat_le_iff)
lemma digit_base:
  fixes b :: u64
  assumes "d < 16" "unat b \<le> 16"
  shows "(ucast b :: u32) \<le>s of_nat d \<longleftrightarrow> unat b \<le> d"
proof -
  have "unat (ucast b :: u32) = unat b" "unat (of_nat d :: u32) = d"
    using assms by (simp_all add: unsigned_ucast_eq take_bit_eq_mod unat_of_nat)
  then show ?thesis using assms sle_unat [of "ucast b" "of_nat d"] by simp
qed
lemma printnum_width: "w \<le> 1 \<Longrightarrow> w' \<le> 1 \<Longrightarrow> printnum num base w pc = printnum num base w' pc'"
proof (induction num base w pc arbitrary: w' pc' rule: printnum.induct)
  case (1 num base w pc)
  show ?case
  proof (cases "num \<ge> base \<and> 1 < base")
    case True
    have "printnum (num div base) base (w - 1) pc = printnum (num div base) base (w' - 1) pc'"
      using "1.prems" by (intro "1.IH" [OF True]) simp_all
    then show ?thesis using True
      by (subst (1 2) printnum.simps) simp
  next
    case False
    then show ?thesis using "1.prems"
      by (subst (1 2) printnum.simps) auto
  qed
qed
lemma str_at_drop: "str_at m s (xs @ ys) \<Longrightarrow> str_at m (s + of_nat (length xs)) ys"
proof (induction xs arbitrary: s)
  case (Cons x xs)
  then show ?case using Cons.IH [of "s + 1"] by (simp add: algebra_simps)
qed simp

lemma unat_less_8 [simp]: "unat (w :: u8) < 256" using unsigned_less [of w] by simp

lemma ucast_ucast_8: "(ucast (ucast (c :: u8) :: u32) :: u8) = c"
  by (rule bit_word_eqI) (auto simp: bit_simps)

lemma ucast_unat: "(ucast (x :: u64) :: u32) = of_nat (unat x)"
  by simp

lemma ucast_divmod:
  fixes num base :: u64
  shows "(ucast (num div base) :: u32) * ucast base + ucast (num mod base) = ucast num"
proof -
  have "unat num = unat (num div base) * unat base + unat (num mod base)"
    by (simp add: unat_div unat_mod)
  then show ?thesis
    by (simp only: ucast_unat) (simp only: of_nat_add of_nat_mult)
qed

lemma strtol_digits_printnum:
  assumes "str_at m s (map ucast (printnum num base w pc) @ cs)" "w \<le> 1" "1 < base" "base \<le> 16"
  shows "strtol_digits m s (ucast base) v = strtol_digits m (s + of_nat (length (printnum num base w pc)))
     (ucast base) (v * ucast base ^ length (printnum num base w pc) + ucast num)"
  using assms
proof (induction num base w pc arbitrary: cs v rule: printnum.induct)
  case (1 num base w pc)
  let ?d = "unat (num mod base)" and ?b = "ucast base :: u32"
  have b: "1 < unat base" "unat base \<le> 16" using "1.prems"(3,4) by (simp_all add: word_less_nat_alt word_le_nat_alt)
  have d2: "?d < unat base" using b by (simp add: unat_mod)
  then have d: "?d < 16" using b by simp
  have dw: "(of_nat ?d :: u32) = ucast (num mod base)" by simp
  have last: "strtol_digits m p ?b u = strtol_digits m (p + 1) ?b (u * ?b + ucast (num mod base))"
    if "m p = hexdigits ! ?d" for p u
    using hexdigit [OF d] that digit_base [OF d b(2)] d2
    by (subst strtol_digits.simps) (simp add: dw)
  have uc: "(ucast (ucast (hexdigits ! ?d) :: u32) :: u8) = hexdigits ! ?d" by (rule ucast_ucast_8)
  show ?case
  proof (cases "num \<ge> base \<and> 1 < base")
    case True
    let ?pre = "printnum (num div base) base (w - 1) pc"
    have split: "printnum num base w pc = ?pre @ [ucast (hexdigits ! ?d)]"
      using True by (subst printnum.simps) simp
    have at: "str_at m s (map ucast ?pre @ (hexdigits ! ?d) # cs)" using "1.prems"(1) by (simp add: split uc)
    have "strtol_digits m s ?b v = strtol_digits m (s + of_nat (length ?pre)) ?b
        (v * ?b ^ length ?pre + ucast (num div base))"
      using "1.IH" [OF True at] "1.prems"(2-4) by simp
    also have "\<dots> = strtol_digits m (s + of_nat (length ?pre) + 1) ?b
        ((v * ?b ^ length ?pre + ucast (num div base)) * ?b + ucast (num mod base))"
      using str_at_drop [OF at] by (intro last) simp
    also have "(v * ?b ^ length ?pre + ucast (num div base)) * ?b + ucast (num mod base)
        = v * ?b ^ Suc (length ?pre) + (ucast (num div base) * ?b + ucast (num mod base))"
      by (simp add: algebra_simps)
    also have "ucast (num div base) * ?b + ucast (num mod base) = ucast num" by (rule ucast_divmod)
    finally show ?thesis by (simp add: split algebra_simps)
  next
    case False
    then have e: "printnum num base w pc = [ucast (hexdigits ! ?d)]" using "1.prems"(2)
      by (subst printnum.simps) auto
    have "num mod base = num" using False b
      by (auto simp: word_arith_nat_mod word_le_nat_alt word_less_nat_alt)
    then show ?thesis using "1.prems"(1) last [of s v] by (simp add: e ucast_ucast_8)
  qed
qed

lemma printnum_chars:
  assumes "w \<le> 1" "1 < base" "base \<le> 16"
  shows "printnum num base w pc \<noteq> [] \<and> (\<forall>c \<in> set (printnum num base w pc). \<exists>d < 16. ucast c = hexdigits ! d)"
  using assms
proof (induction num base w pc rule: printnum.induct)
  case (1 num base w pc)
  have b: "unat (num mod base) < 16" using "1.prems"(2,3)
    by (simp add: unat_mod word_less_nat_alt word_le_nat_alt) (metis le_less_trans less_le_trans mod_less_divisor not_less_zero not_gr_zero)
  then have l: "\<exists>d < 16. (ucast (ucast (hexdigits ! unat (num mod base)) :: u32) :: u8) = hexdigits ! d"
    using ucast_ucast_8 by blast
  show ?case
    using "1.IH" "1.prems" l by (subst (1 2) printnum.simps) auto
qed

lemma str_at_next:
  assumes "str_at m s (c # cs)"
  shows "m s = c" "c \<noteq> 0" "m (s + 1) = 0 \<or> m (s + 1) \<in> set cs"
  using assms by (cases cs; simp)+

lemma digits_end: "str_at m p [] \<Longrightarrow> strtol_digits m p b v = Some (v, p)"
  by (subst strtol_digits.simps) (simp add: digit_of_def)

lemma strtol_printnum:
  assumes at: "str_at m s ((if neg then [0x2D] else []) @ map ucast (printnum num base w pc))"
    and b: "w \<le> 1" "base \<in> {8, 10, 16}"
  shows "strtol m s (ucast base) = Some ((if neg then - ucast num else ucast num),
     s + of_nat (length (printnum num base w pc) + (if neg then 1 else 0)))"
proof -
  let ?ds = "map ucast (printnum num base w pc) :: u8 list" and ?s = "if neg then s + 1 else s"
  have base: "1 < base" "base \<le> 16" "(ucast base :: u32) \<noteq> 0" using b(2) by auto
  have at2: "str_at m ?s ?ds" using at by (auto split: if_splits)
  have ds: "?ds \<noteq> []" "\<And>c. c \<in> set ?ds \<Longrightarrow> \<exists>d < 16. c = hexdigits ! d"
    using printnum_chars [OF b(1) base(1,2), of num pc] by auto
  then obtain c cs where cs: "?ds = c # cs" by (cases ?ds) auto
  have c: "c \<notin> {0x20, 0x09, 0x2B, 0x2D}" using ds(2) [of c] hexdigit cs by fastforce
  have nx: "m (?s + 1) \<noteq> 0x78"
    using str_at_next(3) [OF at2 [unfolded cs]] ds(2) [of "m (?s + 1)"] hexdigit cs by fastforce
  have m: "m ?s = c" using at2 by (simp add: cs)
  have sk: "skip_blanks m s = Some s" using at c m by (subst skip_blanks.simps) (auto split: if_splits)
  have bs: "strtol_base m ?s (ucast base) = (?s, ucast base)"
    using base(3) nx by (simp add: strtol_base_def)
  have rd: "strtol_digits m ?s (ucast base) 0 = Some (ucast num, ?s + of_nat (length ?ds))"
    using strtol_digits_printnum [of m ?s num base w pc "[]" 0] at2 b(1) base(1,2)
      str_at_drop [of m ?s ?ds "[]"] by (simp add: digits_end)
  have sgn: "m s = 0x2D \<longleftrightarrow> neg" "m s \<noteq> 0x2B" using at c m by (auto split: if_splits)
  show ?thesis using sk sgn bs rd by (cases neg) (simp_all add: strtol_def algebra_simps)
qed

lemma scan_plain: "ch \<in> {0x64, 0x75, 0x6F, 0x78} \<Longrightarrow> scan_conv c [ch] args = Some (c, ch, [], args)"
  by (subst scan_conv.simps) auto

lemma ucast_scast_64: "(ucast (scast (n :: u32) :: u64) :: u32) = n"
  by (rule bit_word_eqI) (auto simp: bit_simps)

lemma ucast_ucast_64: "(ucast (ucast (n :: u32) :: u64) :: u32) = n"
  by (rule bit_word_eqI) (auto simp: bit_simps)

lemma ucast_uminus: "(ucast (- (x :: u64)) :: u32) = - ucast x"
proof -
  have tb: "(word_of_int (take_bit 64 k) :: u32) = word_of_int k" for k
    by (simp add: word_of_int_eq_iff take_bit_take_bit)
  have uc: "(word_of_int (uint y) :: u32) = ucast y" for y :: u64
    by (rule bit_word_eqI) (simp add: bit_simps)
  have "uint (- x) = take_bit 64 (- uint x)" by (simp add: uint_word_ariths take_bit_eq_mod)
  then have "(ucast (- x) :: u32) = word_of_int (- uint x)"
    using tb [of "- uint x"] uc [of "- x"] by simp
  then show ?thesis by simp
qed

lemma vprintfmt_plain:
  assumes "ch \<in> {0x64, 0x75, 0x6F, 0x78}"
  shows "vprintfmt [0x25, ch] [VInt n] = map_option fst (convert conv0 ch [VInt n])"
proof -
  have "ch \<in> conversions" using assms by (auto simp: conversions_def lit_def)
  then show ?thesis
    using scan_plain [OF assms, of conv0 "[VInt n]"]
    by (subst vprintfmt.simps) (auto split: option.splits simp: vprintfmt.simps [of "[]"])
qed

lemma convert_plain:
  "convert conv0 0x75 [VInt n] = Some (printnum (ucast n) 10 (- 1) 0x20, [])"
  "convert conv0 0x6F [VInt n] = Some (printnum (ucast n) 8 (- 1) 0x20, [])"
  "convert conv0 0x78 [VInt n] = Some (printnum (ucast n) 16 (- 1) 0x20, [])"
  "convert conv0 0x64 [VInt n] = Some (if scast n <s (0 :: u64) then 0x2D # printnum (- scast n) 10 (- 1) 0x20
     else printnum (scast n) 10 (- 1) 0x20, [])"
  unfolding convert_def conv_decimal_def conv0_def by simp_all

text \<open>The base of the numbers an integer conversion prints.\<close>

definition number_base :: "u8 \<Rightarrow> u64 option" where
  "number_base ch = map_of [(0x64, 10), (0x75, 10), (0x6F, 8), (0x78, 16)] ch"

lemma sprintputch_fold:
  assumes "unat buf + n \<le> 4294967296" "0 < n"
  shows "fold sprintputch out (\<lparr>sb_buf = buf, sb_ebuf = buf + of_nat n - 1, sb_cnt = 0\<rparr>, m)
    = (\<lparr>sb_buf = buf + of_nat (min (length out) (n - 1)), sb_ebuf = buf + of_nat n - 1, sb_cnt = of_nat (length out)\<rparr>,
       \<lambda>a. if unat (a - buf) < min (length out) (n - 1) then ucast (out ! unat (a - buf)) else m a)"
proof (induction out rule: rev_induct)
  case (snoc c out)
  let ?k = "min (length out) (n - 1)"
  have step: "fold sprintputch (out @ [c]) st = sprintputch c (fold sprintputch out st)" for st by simp
  note step = step [of "(\<lparr>sb_buf = buf, sb_ebuf = buf + of_nat n - 1, sb_cnt = 0\<rparr>, m)", unfolded snoc.IH]
  have n1: "of_nat n - 1 = (of_nat (n - 1) :: u32)" using assms(2) by (simp add: of_nat_diff)
  have lt: "buf + of_nat ?k < buf + of_nat n - 1 \<longleftrightarrow> length out < n - 1"
  proof -
    have "unat (buf + of_nat j) = unat buf + j" if "j \<le> n - 1" for j
      using assms that by (simp add: unat_word_ariths unat_of_nat)
    from this [of ?k] this [of "n - 1"] have "buf + of_nat ?k < buf + of_nat n - 1 \<longleftrightarrow> ?k < n - 1"
      by (simp add: add_diff_eq [symmetric] n1 word_less_nat_alt del: add_diff_eq)
    then show ?thesis by (auto simp: min_def split: if_splits)
  qed
  have off: "unat ((of_nat j :: u32)) = j" if "j \<le> n - 1" for j using assms that by (simp add: unat_of_nat)
  show ?case
  proof (cases "length out < n - 1")
    case True
    have at: "unat (a - buf) = length out \<longleftrightarrow> a = buf + of_nat (length out)" for a
    proof
      assume h: "unat (a - buf) = length out"
      have "a - buf = of_nat (length out)" unfolding h [symmetric] by simp
      then show "a = buf + of_nat (length out)" by (simp add: diff_eq_eq add.commute)
    next
      assume "a = buf + of_nat (length out)"
      then show "unat (a - buf) = length out" using off [of "length out"] True by simp
    qed
    have "(if unat (a - buf) < Suc (length out) then (ucast ((out @ [c]) ! unat (a - buf)) :: u8) else m a)
        = (if a = buf + of_nat (length out) then ucast c
           else if unat (a - buf) < length out then ucast (out ! unat (a - buf)) else m a)" for a
      using at [of a] by (auto simp: nth_append less_Suc_eq)
    moreover have k: "min (length (out @ [c])) (n - 1) = Suc (length out)" "?k = length out" using True by simp_all
    ultimately show ?thesis
      using True lt by (simp only: step k) (simp add: sprintputch_def fun_eq_iff add.commute)
  next
    case False
    then have k: "min (length (out @ [c])) (n - 1) = n - 1" "?k = n - 1" by simp_all
    have "(out @ [c]) ! unat (a - buf) = out ! unat (a - buf)" if "unat (a - buf) < n - 1" for a
      using that False by (simp add: nth_append)
    then show ?thesis using False lt
      by (simp only: step k) (simp add: sprintputch_def fun_eq_iff)
  qed
qed (simp add: fun_eq_iff)

lemma user_putch_fold:
  "\<exists>b puts. fold user_putch out (\<lparr>pb_buf = [], pb_cnt = 0\<rparr>, []) = (b, puts)
    \<and> concat puts @ pb_buf b = map ucast out \<and> length (pb_buf b) < 255
    \<and> (\<forall>p \<in> set puts. length p = 255) \<and> pb_cnt b = of_nat (length out)"
proof (induction out rule: rev_induct)
  case (snoc c out)
  then show ?case by (auto simp: user_putch_def append_assoc [symmetric] simp del: append_assoc)
qed simp

section \<open>Properties\<close>

text \<open>C37: What a plain integer conversion (%d, %u, %o, %x) prints for a 32-bit argument, strtol reads back
  as the same 32 bits, up to the end of the text: negative numbers and the most negative one included.\<close>

theorem number_roundtrip:
  assumes "number_base ch = Some base"
  shows "\<exists>out. vprintfmt [0x25, ch] [VInt n] = Some out
    \<and> (\<forall>m s. str_at m s (map ucast out) \<longrightarrow> strtol m s (ucast base) = Some (n, s + of_nat (length out)))"
proof -
  have cb: "ch = 0x64 \<and> base = 10 \<or> ch = 0x75 \<and> base = 10 \<or> ch = 0x6F \<and> base = 8 \<or> ch = 0x78 \<and> base = 16"
    using assms by (auto simp: number_base_def split: if_splits)
  then have ch: "ch \<in> {0x64, 0x75, 0x6F, 0x78}" and b: "base \<in> {8, 10, 16}" by auto
  show ?thesis
  proof (cases "ch = 0x64 \<and> (scast n :: u64) <s 0")
    case True
    let ?out = "0x2D # printnum (- scast n) 10 (- 1) 0x20"
    have "vprintfmt [0x25, ch] [VInt n] = Some ?out"
      using True by (simp add: vprintfmt_plain convert_plain)
    moreover have "strtol m s 10 = Some (n, s + of_nat (length ?out))" if "str_at m s (map ucast ?out)" for m s
      using strtol_printnum [of m s True "- scast n" 10 "- 1" "0x20"] that
      by (simp add: ucast_uminus ucast_scast_64)
    moreover have "base = 10" using True assms by (simp add: number_base_def)
    ultimately show ?thesis by auto
  next
    case False
    let ?num = "if ch = 0x64 then scast n else ucast n"
    let ?out = "printnum ?num base (- 1) 0x20"
    have "vprintfmt [0x25, ch] [VInt n] = Some ?out"
      using cb False by (elim disjE) (simp_all add: vprintfmt_plain convert_plain)
    moreover have "strtol m s (ucast base) = Some (n, s + of_nat (length ?out))" if "str_at m s (map ucast ?out)" for m s
      using strtol_printnum [of m s False ?num base "- 1" "0x20"] that b
      by (auto simp: ucast_ucast_64 ucast_scast_64 split: if_splits)
    ultimately show ?thesis by blast
  qed
qed

theorem number_roundtrip_witness:
  "strtol (\<lambda>a. if a = 0 then 0x2D else if a = 1 then 0x34 else if a = 2 then 0x32 else 0) 0 10 = Some (- 42, 3)"
proof -
  obtain out where r: "vprintfmt [0x25, 0x64] [VInt (- 42)] = Some out"
    "\<And>m s. str_at m s (map ucast out) \<Longrightarrow> strtol m s (ucast (10 :: u64)) = Some (- 42, s + of_nat (length out))"
    using number_roundtrip [of "0x64" 10 "- 42"] by (auto simp: number_base_def)
  have "vprintfmt [0x25, 0x64] [VInt (- 42)] = Some [0x2D, 0x34, 0x32]" by code_simp
  then have "out = [0x2D, 0x34, 0x32]" using r(1) by simp
  then show ?thesis using r(2) [of "\<lambda>a. if a = 0 then 0x2D else if a = 1 then 0x34 else if a = 2 then 0x32 else 0" 0]
    by simp
qed

text \<open>C38: Vsnprintf returns the length of the whole text, however long it is, and writes only inside the
  buffer: the first \<open>n - 1\<close> characters at most, and a terminator behind them.\<close>

theorem vsnprintf_bounded:
  assumes "buf \<noteq> 0" "\<not> n <s 1" "unat buf + unat n \<le> 2 ^ 32" "vprintfmt fmt args = Some out"
  shows "\<exists>m'. vsnprintf buf n fmt args m = Some (of_nat (length out), m')
    \<and> (\<forall>a. unat n \<le> unat (a - buf) \<longrightarrow> m' a = m a)
    \<and> (let k = min (length out) (unat n - 1) in
        (\<forall>i < k. m' (buf + of_nat i) = ucast (out ! i)) \<and> m' (buf + of_nat k) = 0)"
proof -
  let ?k = "min (length out) (unat n - 1)"
  have "n \<noteq> 0" using assms(2) by (auto simp: word_sless_alt)
  then have n: "0 < unat n" by (simp add: unat_gt_0)
  let ?m' = "(\<lambda>a. if unat (a - buf) < ?k then ucast (out ! unat (a - buf)) else m a)(buf + of_nat ?k := 0)"
  have "vsnprintf buf n fmt args m = Some (of_nat (length out), ?m')"
    using sprintputch_fold [of buf "unat n" out m] assms n by (simp add: vsnprintf_def)
  moreover have off: "unat (of_nat i :: u32) = i" if "i < unat n" for i
    using that less_trans [OF that unat_less_32] by (simp add: unat_of_nat)
  have "?m' a = m a" if "unat n \<le> unat (a - buf)" for a
    using that n off [of ?k] by auto
  moreover have "?m' (buf + of_nat i) = ucast (out ! i)" if "i < ?k" for i
  proof -
    have oi: "unat (of_nat i :: u32) = i" "unat (of_nat ?k :: u32) = ?k"
      using that n by (auto intro!: off)
    have "(of_nat i :: u32) \<noteq> of_nat ?k"
    proof
      assume "(of_nat i :: u32) = of_nat ?k"
      then have "i = ?k" using oi by metis
      then show False using that by simp
    qed
    moreover have "unat (buf + of_nat i - buf) < ?k" using oi(1) that by simp
    ultimately show ?thesis using oi(1) by (simp del: min_less_iff_conj)
  qed
  ultimately show ?thesis by (intro exI [of _ ?m']) simp
qed

theorem vsnprintf_bounded_witness:
  "\<exists>m'. vsnprintf 64 3 (lit ''hello'') [] (\<lambda>_. 0xFF) = Some (5, m') \<and> m' 67 = 0xFF \<and> m' 65 = 0x65 \<and> m' 66 = 0"
proof -
  have f: "vprintfmt (lit ''hello'') [] = Some [0x68, 0x65, 0x6C, 0x6C, 0x6F]" by code_simp
  obtain m' where m: "vsnprintf 64 3 (lit ''hello'') [] (\<lambda>_. 0xFF) = Some (5, m')"
    "\<And>a. 3 \<le> unat (a - 64) \<Longrightarrow> m' a = 0xFF"
    "\<And>i. i < 2 \<Longrightarrow> m' (64 + of_nat i) = ucast ([0x68, 0x65, 0x6C, 0x6C, 0x6F :: u32] ! i)" "m' 66 = 0"
    using vsnprintf_bounded [OF _ _ _ f, of 64 3 "\<lambda>_. 0xFF"] by (auto simp: min_def word_sless_alt)
  then show ?thesis using m(2) [of 67] m(3) [of 1] by simp
qed

text \<open>A user program's cprintf loses nothing: the strings it hands to sys\_cputs, none longer than the
  255 characters its buffer takes, are the formatted text when put together, and the count is its length.\<close>

theorem user_printf_chunks:
  assumes "vprintfmt fmt args = Some out"
  shows "\<exists>puts. user_vcprintf fmt args = Some (puts, of_nat (length out))
    \<and> concat puts = map ucast out \<and> (\<forall>p \<in> set puts. length p \<le> 255)"
  using user_putch_fold [of out] assms by (force simp: user_vcprintf_def)

theorem user_printf_chunks_witness:
  "\<exists>puts. user_vcprintf (lit ''%5d'') [VInt 7] = Some (puts, 5) \<and> concat puts = lit ''    7''"
proof -
  have f: "vprintfmt (lit ''%5d'') [VInt 7] = Some [0x20, 0x20, 0x20, 0x20, 0x37]" by code_simp
  then show ?thesis using user_printf_chunks [OF f] by (auto simp: lit_def)
qed

end
