(* ===== verification/Monitor.thy ===== *)
theory Monitor
  imports Printf
begin

text \<open>
  The kernel monitor (kern/monitor.c): the command interpreter and its loop.

  \<^item> The line is a C string in memory, which runcmd cuts into arguments in place; \<open>argv\<close> is the list of
    the pointers stored so far.
  \<^item> \<open>names\<close> gives the addresses of the command names among the kernel's constants, and \<open>ksyms\<close> the
    addresses the linker gives to its symbols.
  \<^item> A command gives its result and the calls of cprintf it makes, as formats with their arguments.
\<close>

type_synonym print_call = "u8 list \<times> va list"

section \<open>Commands\<close>

record ksyms =
  k_start :: u32
  k_entry :: u32
  k_etext :: u32
  k_edata :: u32
  k_end :: u32

record Command =
  cmd_name :: "u8 list"
  cmd_desc :: "u8 list"

definition commands :: "Command list" where
  "commands = [\<lparr>cmd_name = lit ''help'', cmd_desc = lit ''Display this list of commands''\<rparr>,
     \<lparr>cmd_name = lit ''kerninfo'', cmd_desc = lit ''Display information about the kernel''\<rparr>]"

definition mon_help :: "u32 \<times> print_call list" where
  "mon_help = (0, map (\<lambda>c. (lit ''%s - %s\<newline>'', [VStr (Some (cmd_name c)), VStr (Some (cmd_desc c))])) commands)"

text \<open>The size is that of the kernel image, so the signed division is one of a small positive number.\<close>

definition mon_kerninfo :: "ksyms \<Rightarrow> u32 \<times> print_call list" where
  "mon_kerninfo k = (0,
     [(lit ''Special kernel symbols:\<newline>'', []),
      (lit ''  _start                  %08x (phys)\<newline>'', [VInt (k_start k)]),
      (lit ''  entry  %08x (virt)  %08x (phys)\<newline>'', [VInt (k_entry k), VInt (k_entry k - KERNBASE)]),
      (lit ''  etext  %08x (virt)  %08x (phys)\<newline>'', [VInt (k_etext k), VInt (k_etext k - KERNBASE)]),
      (lit ''  edata  %08x (virt)  %08x (phys)\<newline>'', [VInt (k_edata k), VInt (k_edata k - KERNBASE)]),
      (lit ''  end    %08x (virt)  %08x (phys)\<newline>'', [VInt (k_end k), VInt (k_end k - KERNBASE)]),
      (lit ''Kernel executable memory footprint: %dKB\<newline>'', [VInt (ROUNDUP (k_end k - k_entry k) 1024 div 1024)])])"

definition mon_backtrace :: "u32 \<times> print_call list" where
  "mon_backtrace = (0, [])"

section \<open>The interpreter\<close>

definition MAXARGS :: nat where [simp]: "MAXARGS = 16"

definition is_blank :: "u8 \<Rightarrow> bool" where
  "is_blank c \<longleftrightarrow> c \<in> {0x09, 0x0D, 0x0A, 0x20}"

partial_function (option) gobble :: "u32 \<Rightarrow> bytes \<Rightarrow> (u32 \<times> bytes) option" where
  "gobble buf m = (if m buf \<noteq> 0 \<and> is_blank (m buf) then gobble (buf + 1) (m(buf := 0)) else Some (buf, m))"

partial_function (option) skip_arg :: "bytes \<Rightarrow> u32 \<Rightarrow> u32 option" where
  "skip_arg m buf = (if m buf \<noteq> 0 \<and> \<not> is_blank (m buf) then skip_arg m (buf + 1) else Some buf)"

text \<open>The result is \<open>None\<close> instead of the arguments when there are too many.\<close>

partial_function (option) parse_args :: "u32 \<Rightarrow> bytes \<Rightarrow> u32 list \<Rightarrow> (u32 list option \<times> bytes) option" where
  "parse_args buf m argv = do {
     (buf, m) \<leftarrow> gobble buf m;
     if m buf = 0 then Some (Some argv, m)
     else if length argv = MAXARGS - 1 then Some (None, m)
     else do { buf' \<leftarrow> skip_arg m buf; parse_args buf' m (argv @ [buf]) } }"

partial_function (option) read_str :: "bytes \<Rightarrow> u32 \<Rightarrow> u8 list option" where
  "read_str m p = (if m p = 0 then Some [] else do { cs \<leftarrow> read_str m (p + 1); Some (m p # cs) })"

definition run_named :: "ksyms \<Rightarrow> (nat \<Rightarrow> u32) \<Rightarrow> bytes \<Rightarrow> u32 \<Rightarrow> (u32 \<times> print_call list) option" where
  "run_named k names m arg0 = do {
     r0 \<leftarrow> strcmp m arg0 (names 0);
     if r0 = 0 then Some mon_help
     else do {
       r1 \<leftarrow> strcmp m arg0 (names 1);
       if r1 = 0 then Some (mon_kerninfo k)
       else do {
         s \<leftarrow> read_str m arg0;
         Some (0, [(lit ''Unknown command '%s'\<newline>'', [VStr (Some s)])]) } } }"

definition runcmd :: "ksyms \<Rightarrow> (nat \<Rightarrow> u32) \<Rightarrow> u32 \<Rightarrow> bytes \<Rightarrow> ((u32 \<times> print_call list) \<times> bytes) option" where
  "runcmd k names buf m = do {
     (argv, m) \<leftarrow> parse_args buf m [];
     r \<leftarrow> (case argv of
         None \<Rightarrow> Some (0, [(lit ''Too many arguments (max %d)\<newline>'', [VInt (of_nat MAXARGS)])])
       | Some [] \<Rightarrow> Some (0, [])
       | Some (arg0 # _) \<Rightarrow> run_named k names m arg0);
     Some (r, m) }"

section \<open>The loop\<close>

fun say :: "print_call list \<Rightarrow> console \<Rightarrow> console option" where
  "say [] con = Some con"
| "say ((fmt, args) # calls) con = do { (con', _) \<leftarrow> vcprintf fmt args con; say calls con' }"

text \<open>readline leaves its line in a static buffer at \<open>buf\<close>.\<close>

definition store_line :: "u32 \<Rightarrow> u8 list \<Rightarrow> bytes \<Rightarrow> bytes" where
  "store_line p line m = (\<lambda>a. if unat (a - p) < length line then line ! unat (a - p)
     else if unat (a - p) = length line then 0 else m a)"

partial_function (option) monitor_loop ::
  "ksyms \<Rightarrow> (nat \<Rightarrow> u32) \<Rightarrow> u32 \<Rightarrow> bytes \<Rightarrow> console \<Rightarrow> console option" where
  "monitor_loop k names buf m con = do {
     (line, con) \<leftarrow> readline (map ucast (lit ''K> '')) con;
     ((r, out), m) \<leftarrow> runcmd k names buf (store_line buf line m);
     con \<leftarrow> say out con;
     if r <s 0 then Some con else monitor_loop k names buf m con }"

section \<open>Lemmas\<close>

text \<open>What the interpreter should see in a line: its maximal runs of non-blank characters.\<close>

function tokens :: "u8 list \<Rightarrow> u8 list list" where
  "tokens line = (case dropWhile is_blank line of [] \<Rightarrow> []
     | c # cs \<Rightarrow> (c # takeWhile (\<lambda>c. \<not> is_blank c) cs) # tokens (dropWhile (\<lambda>c. \<not> is_blank c) cs))"
  by auto
termination
proof (relation "measure length", simp)
  fix line c cs assume "dropWhile is_blank line = c # cs"
  then have "length (c # cs) \<le> length line" by (metis length_dropWhile_le)
  then show "(dropWhile (\<lambda>c. \<not> is_blank c) cs, line) \<in> measure length"
    using length_dropWhile_le [of "\<lambda>c. \<not> is_blank c" cs] by simp
qed

declare tokens.simps [simp del]

text \<open>The line with its blanks overwritten.\<close>

definition blanked :: "u32 \<Rightarrow> u8 list \<Rightarrow> bytes \<Rightarrow> bytes" where
  "blanked p line m = (\<lambda>a. if unat (a - p) < length line \<and> is_blank (line ! unat (a - p)) then 0 else m a)"

lemma unat_offset: "n < 4294967296 \<Longrightarrow> unat (p + of_nat n - p) = n" for p :: u32
  by (simp add: unat_of_nat)

lemma blanked_Nil [simp]: "blanked p [] m = m"
  by (simp add: blanked_def)

lemma blanked_Cons:
  assumes "length cs < 4294967295"
  shows "blanked p (c # cs) m = blanked (p + 1) cs (if is_blank c then m(p := 0) else m)"
proof
  fix a
  show "blanked p (c # cs) m a = blanked (p + 1) cs (if is_blank c then m(p := 0) else m) a"
  proof (cases "a = p")
    case True
    have "unat (- 1 :: u32) = 4294967295" by (simp add: unsigned_minus_1_eq_mask mask_eq_exp_minus_1)
    then show ?thesis using True assms by (auto simp: blanked_def)
  next
    case False
    then have "unat (a - p) = Suc (unat (a - (p + 1)))"
      using unat_minus_one [of "a - p"] unat_gt_0 [of "a - p"] by (simp add: diff_diff_add)
    then show ?thesis using False by (simp add: blanked_def)
  qed
qed

lemma str_at_cong:
  assumes "\<And>i. i \<le> length cs \<Longrightarrow> m' (p + of_nat i) = m (p + of_nat i)"
  shows "str_at m' p cs = str_at m p cs"
  using assms
proof (induction cs arbitrary: p)
  case (Cons c cs)
  have "m' p = m p" using Cons.prems [of 0] by simp
  moreover have "str_at m' (p + 1) cs = str_at m (p + 1) cs"
    using Cons.prems [of "Suc i" for i] by (intro Cons.IH) (simp add: algebra_simps)
  ultimately show ?case by simp
qed simp

lemma blanked_append:
  "length xs + length ys < 4294967295 \<Longrightarrow>
   blanked p (xs @ ys) m = blanked (p + of_nat (length xs)) ys (blanked p xs m)"
proof (induction xs arbitrary: p m)
  case (Cons x xs)
  then show ?case by (simp add: blanked_Cons add.assoc del: fun_upd_apply)
qed simp

lemma blanked_none: "\<forall>c \<in> set xs. \<not> is_blank c \<Longrightarrow> blanked p xs m = m"
  by (auto simp: blanked_def fun_eq_iff dest: nth_mem)

lemma blanked_outside: "length line \<le> i \<Longrightarrow> i < 4294967296 \<Longrightarrow> blanked p line m (p + of_nat i) = m (p + of_nat i)"
  by (simp add: blanked_def unat_of_nat)

lemma blanked_before:
  assumes "0 < n" "n + length line < 4294967296"
  shows "blanked (p + of_nat n) line m p = m p"
proof -
  have "(of_nat (4294967296 - n) :: u32) = of_nat 4294967296 - of_nat n"
    using assms by (intro of_nat_diff) simp
  then have "p - (p + of_nat n) = of_nat (4294967296 - n)" by simp
  then have "unat (p - (p + of_nat n)) = 4294967296 - n"
    using assms by (simp only: unat_of_nat) simp
  then show ?thesis using assms(2) by (auto simp: blanked_def)
qed

lemma str_at_cut:
  assumes "str_at m p (t @ r)" "r = [] \<or> is_blank (hd r)" "length t + length r < 4294967295"
  shows "str_at (blanked (p + of_nat (length t)) r m) p t"
  using assms
proof (induction t arbitrary: p)
  case Nil
  then show ?case by (cases r) (auto simp: blanked_def)
next
  case (Cons c cs)
  have "blanked (p + of_nat (length (c # cs))) r m p = m p"
    using Cons.prems(3) by (intro blanked_before) simp_all
  moreover have "str_at (blanked (p + 1 + of_nat (length cs)) r m) (p + 1) cs"
    using Cons.prems by (intro Cons.IH) simp_all
  ultimately show ?case using Cons.prems(1) by (simp add: add.assoc)
qed

lemma gobble_at:
  assumes "str_at m p line" "length line < 4294967295"
  shows "gobble p m = Some (p + of_nat (length (takeWhile is_blank line)), blanked p (takeWhile is_blank line) m)"
  using assms
proof (induction line arbitrary: p m)
  case Nil
  then show ?case by (subst gobble.simps) simp
next
  case (Cons c cs)
  show ?case
  proof (cases "is_blank c")
    case True
    let ?m = "m(p := 0)"
    have "str_at ?m (p + 1) cs = str_at m (p + 1) cs"
    proof (rule str_at_cong)
      fix i assume "i \<le> length cs"
      then have "unat (p + 1 + of_nat i - p) = Suc i"
        using Cons.prems(2) unat_offset [of "Suc i" p] by (simp add: algebra_simps)
      then show "?m (p + 1 + of_nat i) = m (p + 1 + of_nat i)" by auto
    qed
    then have IH: "gobble (p + 1) ?m = Some (p + 1 + of_nat (length (takeWhile is_blank cs)),
        blanked (p + 1) (takeWhile is_blank cs) ?m)"
      using Cons.IH [of ?m "p + 1"] Cons.prems by (simp del: fun_upd_apply)
    have "gobble p m = gobble (p + 1) ?m" using True Cons.prems(1) by (subst gobble.simps) (auto simp del: fun_upd_apply)
    moreover have "length (takeWhile is_blank cs) < 4294967295"
      using length_takeWhile_le [of is_blank cs] Cons.prems(2) by simp
    ultimately show ?thesis using True IH by (simp add: blanked_Cons add.assoc del: fun_upd_apply)
  next
    case False
    then show ?thesis using Cons.prems(1) by (subst gobble.simps) simp
  qed
qed

lemma skip_arg_at: "str_at m p line \<Longrightarrow>
  skip_arg m p = Some (p + of_nat (length (takeWhile (\<lambda>c. \<not> is_blank c) line)))"
proof (induction line arbitrary: p)
  case Nil
  then show ?case by (subst skip_arg.simps) simp
next
  case (Cons c cs)
  then show ?case by (subst skip_arg.simps) (simp add: add.assoc)
qed

lemma parse_args_at:
  assumes "str_at m p line" "length line < 4294967295" "length argv \<le> 15"
  shows "if length argv + length (tokens line) \<le> 15
    then \<exists>ptrs. parse_args p m argv = Some (Some (argv @ ptrs), blanked p line m)
      \<and> list_all2 (str_at (blanked p line m)) ptrs (tokens line)
    else \<exists>m'. parse_args p m argv = Some (None, m')"
  using assms
proof (induction "length line" arbitrary: line p m argv rule: less_induct)
  case less
  let ?b = "takeWhile is_blank line" and ?l1 = "dropWhile is_blank line"
  let ?p1 = "p + of_nat (length ?b)" and ?m1 = "blanked p ?b m"
  have len: "length line = length ?b + length ?l1" by (metis length_append takeWhile_dropWhile_id)
  have g: "gobble p m = Some (?p1, ?m1)" using gobble_at less.prems by simp
  have at1: "str_at ?m1 ?p1 ?l1"
  proof -
    have "str_at m ?p1 ?l1" using str_at_drop [of m p ?b ?l1] less.prems(1) by simp
    moreover have "str_at ?m1 ?p1 ?l1 = str_at m ?p1 ?l1"
    proof (rule str_at_cong)
      fix i assume "i \<le> length ?l1"
      then show "?m1 (?p1 + of_nat i) = m (?p1 + of_nat i)"
        using blanked_outside [of ?b "length ?b + i" p m] len less.prems(2) by (simp add: add.assoc)
    qed
    ultimately show ?thesis by simp
  qed
  show ?case
  proof (cases ?l1)
    case Nil
    have all: "?b = line" using Nil len by (metis append_Nil2 takeWhile_dropWhile_id)
    have "tokens line = []" by (simp only: tokens.simps [of line] Nil list.case)
    moreover have "?m1 ?p1 = 0" using at1 by (simp add: Nil)
    ultimately show ?thesis using g less.prems(3) all by (subst parse_args.simps) simp
  next
    case (Cons c cs)
    let ?t = "takeWhile (\<lambda>c. \<not> is_blank c) ?l1" and ?r = "dropWhile (\<lambda>c. \<not> is_blank c) ?l1"
    let ?p2 = "?p1 + of_nat (length ?t)"
    have cb: "\<not> is_blank c" using Cons by (metis hd_dropWhile list.distinct(1) list.sel(1))
    have tok: "tokens line = ?t # tokens ?r" using Cons cb by (simp add: tokens.simps [of line])
    have c0: "?m1 ?p1 \<noteq> 0" using at1 by (auto simp: Cons)
    have sk: "skip_arg ?m1 ?p1 = Some ?p2" by (rule skip_arg_at [OF at1])
    have l1: "length ?l1 = length ?t + length ?r" by (metis length_append takeWhile_dropWhile_id)
    have t1: "0 < length ?t" using Cons cb by simp
    have at2: "str_at ?m1 ?p2 ?r" using str_at_drop [of ?m1 ?p1 ?t ?r] at1 by simp
    have bl: "blanked p line m = blanked ?p2 ?r ?m1"
    proof -
      have "blanked p (?b @ ?t @ ?r) m = blanked ?p1 (?t @ ?r) ?m1"
        using len l1 less.prems(2) by (intro blanked_append) simp
      also have "\<dots> = blanked ?p2 ?r (blanked ?p1 ?t ?m1)"
        using len l1 less.prems(2) by (intro blanked_append) simp
      also have "blanked ?p1 ?t ?m1 = ?m1" by (intro blanked_none) (auto dest: set_takeWhileD)
      finally show ?thesis by simp
    qed
    show ?thesis
    proof (cases "length argv = 15")
      case True
      then show ?thesis using g c0 tok by (subst parse_args.simps) simp
    next
      case False
      have step: "parse_args p m argv = parse_args ?p2 ?m1 (argv @ [?p1])"
        using g c0 sk False by (subst parse_args.simps) simp
      have IH: "if length (argv @ [?p1]) + length (tokens ?r) \<le> 15
        then \<exists>ptrs. parse_args ?p2 ?m1 (argv @ [?p1]) = Some (Some ((argv @ [?p1]) @ ptrs), blanked ?p2 ?r ?m1)
          \<and> list_all2 (str_at (blanked ?p2 ?r ?m1)) ptrs (tokens ?r)
        else \<exists>m'. parse_args ?p2 ?m1 (argv @ [?p1]) = Some (None, m')"
        using len l1 t1 less.prems(2,3) False by (intro less.hyps at2) simp_all
      have "?r = [] \<or> is_blank (hd ?r)" using hd_dropWhile [of "\<lambda>c. \<not> is_blank c" ?l1] by blast
      then have tk: "str_at (blanked p line m) ?p1 ?t"
        using str_at_cut [of ?m1 ?p1 ?t ?r] at1 len l1 less.prems(2) by (simp add: bl)
      show ?thesis
        using IH tk unfolding step tok bl by (auto split: if_splits)
    qed
  qed
qed

lemma read_str_at: "str_at m p cs \<Longrightarrow> read_str m p = Some cs"
proof (induction cs arbitrary: p)
  case Nil
  then show ?case by (subst read_str.simps) simp
next
  case (Cons c cs)
  then show ?case by (subst read_str.simps) simp
qed

text \<open>The names of the commands are in memory, away from the line.\<close>

definition names_ok :: "(nat \<Rightarrow> u32) \<Rightarrow> u32 \<Rightarrow> u8 list \<Rightarrow> bytes \<Rightarrow> bool" where
  "names_ok names buf line m \<longleftrightarrow> (\<forall>j < 2. str_at m (names j) (cmd_name (commands ! j))
     \<and> (\<forall>i \<le> 8. length line < unat (names j + of_nat i - buf)))"

lemma names_ok_blanked:
  assumes "names_ok names buf line m" "j < 2"
  shows "str_at (blanked buf line m) (names j) (cmd_name (commands ! j))"
proof -
  have l: "length (cmd_name (commands ! j)) \<le> 8" using assms(2)
    by (auto simp: commands_def less_2_cases_iff lit_def)
  have "str_at (blanked buf line m) (names j) (cmd_name (commands ! j)) = str_at m (names j) (cmd_name (commands ! j))"
  proof (rule str_at_cong)
    fix i assume "i \<le> length (cmd_name (commands ! j))"
    then have "length line < unat (names j + of_nat i - buf)" using assms l by (auto simp: names_ok_def)
    then show "blanked buf line m (names j + of_nat i) = m (names j + of_nat i)" by (simp add: blanked_def)
  qed
  then show ?thesis using assms by (simp add: names_ok_def)
qed

lemma strcmp_zero: "str_at m p xs \<Longrightarrow> str_at m q ys \<Longrightarrow> \<exists>r. strcmp m p q = Some r \<and> (r = 0 \<longleftrightarrow> xs = ys)"
  using strcmp_at by blast

lemma run_named_at:
  assumes "str_at m arg0 t" "str_at m (names 0) (lit ''help'')" "str_at m (names 1) (lit ''kerninfo'')"
  shows "run_named k names m arg0 = Some (if t = lit ''help'' then mon_help
    else if t = lit ''kerninfo'' then mon_kerninfo k
    else (0, [(lit ''Unknown command '%s'\<newline>'', [VStr (Some t)])]))"
proof -
  obtain r0 r1 where "strcmp m arg0 (names 0) = Some r0" "r0 = 0 \<longleftrightarrow> t = lit ''help''"
    "strcmp m arg0 (names 1) = Some r1" "r1 = 0 \<longleftrightarrow> t = lit ''kerninfo''"
    using strcmp_zero [OF assms(1,2)] strcmp_zero [OF assms(1,3)] by auto
  then show ?thesis using read_str_at [OF assms(1)] by (simp add: run_named_def)
qed

text \<open>What the monitor should answer to the words of a line.\<close>

definition reply :: "ksyms \<Rightarrow> u8 list list \<Rightarrow> print_call list" where
  "reply k toks = (if 15 < length toks then [(lit ''Too many arguments (max %d)\<newline>'', [VInt 16])]
     else case toks of [] \<Rightarrow> []
       | t # _ \<Rightarrow> if t = lit ''help'' then snd mon_help else if t = lit ''kerninfo'' then snd (mon_kerninfo k)
           else [(lit ''Unknown command '%s'\<newline>'', [VStr (Some t)])])"

lemma runcmd_zero: "runcmd k names buf m = Some ((r, out), m') \<Longrightarrow> r = 0"
  by (auto simp: runcmd_def run_named_def mon_help_def mon_kerninfo_def
      split: Option.bind_splits option.splits list.splits if_splits)

section \<open>Properties\<close>

text \<open>C39: Runcmd sees a line the way it is meant to: in-place cutting and all, it answers according to the
  words of the line (its maximal runs of non-blanks), the first of which names the command, refuses
  more than 15 of them, and always ends with result 0.\<close>

theorem runcmd_dispatch:
  assumes "str_at m buf line" "length line < 1024" "names_ok names buf line m"
  shows "\<exists>m'. runcmd k names buf m = Some ((0, reply k (tokens line)), m')"
proof -
  have p: "if length (tokens line) \<le> 15
    then \<exists>ptrs. parse_args buf m [] = Some (Some ptrs, blanked buf line m)
      \<and> list_all2 (str_at (blanked buf line m)) ptrs (tokens line)
    else \<exists>m'. parse_args buf m [] = Some (None, m')"
    using parse_args_at [OF assms(1), of "[]"] assms(2) by (simp split: if_splits)
  have n: "str_at (blanked buf line m) (names 0) (lit ''help'')" "str_at (blanked buf line m) (names 1) (lit ''kerninfo'')"
    using names_ok_blanked [OF assms(3), of 0] names_ok_blanked [OF assms(3), of 1] by (simp_all add: commands_def)
  show ?thesis
  proof (cases "length (tokens line) \<le> 15")
    case True
    then obtain ptrs where pa: "parse_args buf m [] = Some (Some ptrs, blanked buf line m)"
      "list_all2 (str_at (blanked buf line m)) ptrs (tokens line)" using p by auto
    show ?thesis
    proof (cases "tokens line")
      case Nil
      then show ?thesis using pa by (simp add: runcmd_def reply_def)
    next
      case (Cons t ts)
      then obtain q qs where q: "ptrs = q # qs" "str_at (blanked buf line m) q t"
        using pa(2) by (auto simp: list_all2_Cons2)
      show ?thesis using pa(1) q(1) run_named_at [OF q(2) n, of k] Cons True
        by (simp add: runcmd_def reply_def mon_help_def mon_kerninfo_def)
    qed
  next
    case False
    then show ?thesis using p by (auto simp: runcmd_def reply_def)
  qed
qed

definition example_names :: "nat \<Rightarrow> u32" where
  "example_names j = (if j = 0 then 0x2000 else 0x3000)"

definition example_memory :: bytes where
  "example_memory = store_line 0x1000 (lit '' help me'')
     (store_line 0x2000 (lit ''help'') (store_line 0x3000 (lit ''kerninfo'') (\<lambda>_. 0xFF)))"

theorem runcmd_dispatch_witness:
  "\<exists>m'. runcmd \<lparr>k_start = 0x10000c, k_entry = 0xF010000c, k_etext = 0xF0110000, k_edata = 0xF0120000,
      k_end = 0xF0130000\<rparr> example_names 0x1000 example_memory = Some ((0, snd mon_help), m')"
proof -
  let ?k = "\<lparr>k_start = 0x10000c, k_entry = 0xF010000c, k_etext = 0xF0110000, k_edata = 0xF0120000,
    k_end = 0xF0130000\<rparr>"
  have at: "str_at example_memory 0x1000 (lit '' help me'')" "str_at example_memory 0x2000 (lit ''help'')"
    "str_at example_memory 0x3000 (lit ''kerninfo'')"
    by (simp_all add: example_memory_def store_line_def lit_def)
  have far: "\<forall>i \<in> {..8}. 8 < unat (example_names j + of_nat i - 0x1000)" if "j < 2" for j
    using that by (auto simp: less_2_cases_iff example_names_def atMost_nat_numeral le_Suc_eq)
  then have away: "length (lit '' help me'') < unat (example_names j + of_nat i - 0x1000)" if "j < 2" "i \<le> 8" for i j
  proof -
    have "length (lit '' help me'') = 8" by (simp add: lit_def)
    then show ?thesis using far [OF that(1)] that(2) by simp
  qed
  have "str_at example_memory (example_names j) (cmd_name (commands ! j))" if "j < 2" for j
    using that at(2,3) by (auto simp: less_2_cases_iff commands_def example_names_def simp del: str_at.simps)
  with away have "names_ok example_names 0x1000 (lit '' help me'') example_memory"
    unfolding names_ok_def by blast
  moreover have "reply ?k (tokens (lit '' help me'')) = snd mon_help"
    by (simp add: reply_def tokens.simps lit_def is_blank_def)
  ultimately show ?thesis
    using runcmd_dispatch [OF at(1), of example_names ?k] by (simp add: lit_def)
qed

text \<open>The monitor never returns, whatever is typed and whatever is in memory: no command asks it to.\<close>

theorem monitor_never_returns: "monitor_loop k names buf m con = None"
proof -
  have "False" if "monitor_loop k names buf m con = Some con'" for con'
  proof (rule monitor_loop.raw_induct [where P = "\<lambda>_ _ _ _ _ _. False", OF _ that])
    fix loop k names buf m con con'
    assume IH: "\<And>k names buf m con con'. loop k names buf m con = Some con' \<Longrightarrow> False"
      and body: "do { (line, con) \<leftarrow> readline (map ucast (lit ''K> '')) con;
        ((r, out), m) \<leftarrow> runcmd k names buf (store_line buf line m); con \<leftarrow> say out con;
        if r <s 0 then Some con else loop k names buf m con } = Some con'"
    then show False
      by (auto split: Option.bind_splits if_splits dest!: runcmd_zero dest: IH)
  qed
  then show ?thesis by (cases "monitor_loop k names buf m con") auto
qed

end
