(* ===== verification/Kdebug.thy ===== *)
theory Kdebug
  imports PageTable CString "HOL-Library.Signed_Division"
begin

text \<open>
  Debugging information (kern/kdebug.c, inc/stab.h): the binary search of the symbol table, and the
  lookup of an instruction address that runs on it.

  \<^item> The search takes a table as a function from (C) indices to entries; the lookup reads the
    entries from memory.
  \<^item> Strings stay where they are, in the string table: a name is an address, or the constant
    \<open>"<unknown>"\<close>.
  \<^item> The bounds of a search are 0 or above, or both -1, so the division by two is that of the code.
\<close>

section \<open>The table\<close>

definition N_FUN :: u8 where [simp]: "N_FUN = 0x24"
definition N_SLINE :: u8 where [simp]: "N_SLINE = 0x44"
definition N_SO :: u8 where [simp]: "N_SO = 0x64"
definition N_SOL :: u8 where [simp]: "N_SOL = 0x84"
definition N_PSYM :: u8 where [simp]: "N_PSYM = 0xA0"

record Stab =
  n_strx :: u32
  n_type :: u8
  n_other :: u8
  n_desc :: u16
  n_value :: u32

section \<open>The binary search\<close>

text \<open>The inner loop goes back to the last entry of the right type, or to \<open>l - 1\<close>.\<close>

function stab_prev :: "(int \<Rightarrow> Stab) \<Rightarrow> u8 \<Rightarrow> int \<Rightarrow> int \<Rightarrow> int" where
  "stab_prev stabs ty l m = (if l \<le> m \<and> n_type (stabs m) \<noteq> ty then stab_prev stabs ty l (m - 1) else m)"
  by auto
termination by (relation "measure (\<lambda>(_, _, l, m). nat (m - l + 1))") auto

declare stab_prev.simps [simp del]

lemma stab_prev_le: "stab_prev stabs ty l m \<le> m"
proof (induction stabs ty l m rule: stab_prev.induct)
  case (1 stabs ty l m)
  then show ?case
    by (cases "l \<le> m \<and> n_type (stabs m) \<noteq> ty") (auto simp: stab_prev.simps [of stabs ty l m])
qed

lemma stab_prev_type: "l \<le> stab_prev stabs ty l m \<Longrightarrow> n_type (stabs (stab_prev stabs ty l m)) = ty"
proof (induction stabs ty l m rule: stab_prev.induct)
  case (1 stabs ty l m)
  then show ?case by (subst stab_prev.simps) (subst (asm) (2) stab_prev.simps, auto split: if_splits)
qed

lemma stab_prev_none: "stab_prev stabs ty l m < i \<Longrightarrow> l \<le> i \<Longrightarrow> i \<le> m \<Longrightarrow> n_type (stabs i) \<noteq> ty"
proof (induction stabs ty l m rule: stab_prev.induct)
  case (1 stabs ty l m)
  show ?case
  proof (cases "l \<le> m \<and> n_type (stabs m) \<noteq> ty")
    case True
    then have "stab_prev stabs ty l m = stab_prev stabs ty l (m - 1)" by (subst stab_prev.simps) simp
    then show ?thesis using "1.IH" [OF True] "1.prems" True by (cases "i = m") auto
  next
    case False
    then have "stab_prev stabs ty l m = m" by (subst stab_prev.simps) auto
    then show ?thesis using "1.prems" by simp
  qed
qed

lemma weigh: "a < b \<Longrightarrow> 2 * a + (if P then 1 else 0) < 2 * b + (if Q then 1 else (0 :: nat))"
  by simp

text \<open>
  The state of the loop: \<open>l\<close> and \<open>r\<close>, the two results, \<open>any_matches\<close>, and \<open>addr\<close>, which an exact match
  increments.
\<close>

function search_loop :: "(int \<Rightarrow> Stab) \<Rightarrow> u8 \<Rightarrow> int \<Rightarrow> int \<Rightarrow> int \<Rightarrow> int \<Rightarrow> bool \<Rightarrow> u32 \<Rightarrow> int \<times> int \<times> bool" where
  "search_loop stabs ty l r region_left region_right any addr =
     (if l \<le> r then
        let true_m = (l + r) div 2; m = stab_prev stabs ty l true_m in
        if m < l then search_loop stabs ty (true_m + 1) r region_left region_right any addr
        else if n_value (stabs m) < addr then search_loop stabs ty (true_m + 1) r m region_right True addr
        else if n_value (stabs m) > addr then search_loop stabs ty l (m - 1) region_left (m - 1) True addr
        else search_loop stabs ty m r m region_right True (addr + 1)
      else (region_left, region_right, any))"
  by auto
termination
proof (relation "measure (\<lambda>(stabs, ty, l, r, _, _, _, addr).
    2 * nat (r - l + 1) + (if n_value (stabs l) = addr then 1 else 0))", goal_cases)
  case 1
  then show ?case by simp
next
  case (2 stabs ty l r region_left region_right any addr x xa)
  then have "nat (r - (x + 1) + 1) < nat (r - l + 1)" by auto
  then show ?case by (simp only: in_measure prod.case weigh)
next
  case (3 stabs ty l r region_left region_right any addr x xa)
  then have "nat (r - (x + 1) + 1) < nat (r - l + 1)" by auto
  then show ?case by (simp only: in_measure prod.case weigh)
next
  case (4 stabs ty l r region_left region_right any addr x xa)
  then have "nat (xa - 1 - l + 1) < nat (r - l + 1)" using stab_prev_le [of stabs ty l x] by auto
  then show ?case by (simp only: in_measure prod.case weigh)
next
  case (5 stabs ty l r region_left region_right any addr x xa)
  show ?case
  proof (cases "xa = l")
    case True
    then show ?thesis using 5 by simp
  next
    case False
    then have "nat (r - xa + 1) < nat (r - l + 1)" using 5 stab_prev_le [of stabs ty l x] by auto
    then show ?thesis by (simp only: in_measure prod.case weigh)
  qed
qed

declare search_loop.simps [simp del]

definition stab_binsearch :: "(int \<Rightarrow> Stab) \<Rightarrow> int \<Rightarrow> int \<Rightarrow> u8 \<Rightarrow> u32 \<Rightarrow> int \<times> int" where
  "stab_binsearch stabs left right ty addr =
     (case search_loop stabs ty left right left right False addr of
        (region_left, region_right, any) \<Rightarrow>
          if \<not> any then (region_left, region_left - 1)
          else (stab_prev stabs ty (region_left + 1) region_right, region_right))"

section \<open>The lookup of an address\<close>

text \<open>
  The four pointers that describe a table: for a user program they are a structure of its memory,
  for the kernel linker symbols. Entries and strings are read from memory, which is a function from
  addresses to bytes; an entry takes 12 bytes.
\<close>

record UserStabData =
  stabs :: u32
  stab_end :: u32
  stabstr :: u32
  stabstr_end :: u32

definition le16 :: "bytes \<Rightarrow> u32 \<Rightarrow> u16" where
  "le16 m a = ucast (m a) + push_bit 8 (ucast (m (a + 1)))"

definition le32 :: "bytes \<Rightarrow> u32 \<Rightarrow> u32" where
  "le32 m a = ucast (le16 m a) + push_bit 16 (ucast (le16 m (a + 2)))"

definition stab_at :: "bytes \<Rightarrow> u32 \<Rightarrow> int \<Rightarrow> Stab" where
  "stab_at m base i = (let p = base + of_int (12 * i) in
     \<lparr>n_strx = le32 m p, n_type = m (p + 4), n_other = m (p + 5), n_desc = le16 m (p + 6), n_value = le32 m (p + 8)\<rparr>)"

text \<open>The difference of two pointers to entries: the code relies on a multiple of 12 bytes.\<close>

definition stab_count :: "UserStabData \<Rightarrow> int" where
  "stab_count t = sint (stab_end t - stabs t) sdiv 12"

datatype name = Unknown | StrAt u32

record Eipdebuginfo =
  eip_file :: name
  eip_line :: u32
  eip_fn_name :: name
  eip_fn_namelen :: u32
  eip_fn_addr :: u32
  eip_fn_narg :: nat

definition no_info :: "u32 \<Rightarrow> Eipdebuginfo" where
  "no_info addr = \<lparr>eip_file = Unknown, eip_line = 0, eip_fn_name = Unknown, eip_fn_namelen = 9,
     eip_fn_addr = addr, eip_fn_narg = 0\<rparr>"

definition name_at :: "UserStabData \<Rightarrow> Stab \<Rightarrow> name \<Rightarrow> name" where
  "name_at t e old = (if n_strx e < stabstr_end t - stabstr t then StrAt (stabstr t + n_strx e) else old)"

text \<open>The length of a name up to a colon; the constant \<open>"<unknown>"\<close> has none.\<close>

fun name_len :: "bytes \<Rightarrow> name \<Rightarrow> u32 option" where
  "name_len m Unknown = Some 9"
| "name_len m (StrAt p) = map_option (\<lambda>q. q - p) (strfind m p 0x3A)"

function back_to_file :: "(int \<Rightarrow> Stab) \<Rightarrow> int \<Rightarrow> int \<Rightarrow> int" where
  "back_to_file tab lfile l =
     (if lfile \<le> l \<and> n_type (tab l) \<noteq> N_SOL \<and> (n_type (tab l) \<noteq> N_SO \<or> n_value (tab l) = 0)
      then back_to_file tab lfile (l - 1) else l)"
  by auto
termination by (relation "measure (\<lambda>(_, lfile, l). nat (l - lfile + 1))") auto

declare back_to_file.simps [simp del]

function count_args :: "(int \<Rightarrow> Stab) \<Rightarrow> int \<Rightarrow> int \<Rightarrow> nat" where
  "count_args tab l rfun = (if l < rfun \<and> n_type (tab l) = N_PSYM then Suc (count_args tab (l + 1) rfun) else 0)"
  by auto
termination by (relation "measure (\<lambda>(_, l, rfun). nat (rfun - l))") auto

declare count_args.simps [simp del]

text \<open>The part of debuginfo\_eip after the choice of the table: the result and \<open>*info\<close>.\<close>

definition debuginfo_lookup :: "bytes \<Rightarrow> UserStabData \<Rightarrow> u32 \<Rightarrow> (u32 \<times> Eipdebuginfo) option" where
  "debuginfo_lookup m t addr =
     (let info = no_info addr; tab = stab_at m (stabs t) in
      if stabstr_end t \<le> stabstr t \<or> m (stabstr_end t - 1) \<noteq> 0 then Some (- 1, info)
      else case stab_binsearch tab 0 (stab_count t - 1) N_SO addr of (lfile, rfile) \<Rightarrow>
        if lfile = 0 then Some (- 1, info)
        else case stab_binsearch tab lfile rfile N_FUN addr of (lfun, rfun) \<Rightarrow>
          let found = lfun \<le> rfun;
              info = (if found then info\<lparr>eip_fn_name := name_at t (tab lfun) (eip_fn_name info), eip_fn_addr := n_value (tab lfun)\<rparr>
                      else info\<lparr>eip_fn_addr := addr\<rparr>);
              offset = (if found then addr - eip_fn_addr info else addr);
              region = (if found then (lfun, rfun) else (lfile, rfile))
          in case name_len m (eip_fn_name info) of None \<Rightarrow> None
          | Some len \<Rightarrow>
            (case stab_binsearch tab (fst region) (snd region) N_SLINE offset of (lline, rline) \<Rightarrow>
              let info = info\<lparr>eip_fn_namelen := len\<rparr>;
                  info = (if lline \<le> rline then info\<lparr>eip_line := ucast (n_desc (tab lline))\<rparr> else info);
                  l = back_to_file tab lfile lline;
                  info = (if lfile \<le> l then info\<lparr>eip_file := name_at t (tab l) (eip_file info)\<rparr> else info)
              in Some (0, info\<lparr>eip_fn_narg := (if lfun < rfun then count_args tab (lfun + 1) rfun else 0)\<rparr>)))"

text \<open>
  debuginfo\_eip: \<open>ktab\<close> holds the linker symbols, \<open>m\<close> is the memory as the kernel sees it with the
  address space of the current environment. user\_mem\_check gets the number of entries of the
  table, where its argument is a number of bytes.
\<close>

definition USTABDATA :: u32 where [simp]: "USTABDATA = 0x200000"

definition user_stabs :: "bytes \<Rightarrow> UserStabData" where
  "user_stabs m = \<lparr>stabs = le32 m USTABDATA, stab_end = le32 m (USTABDATA + 4),
     stabstr = le32 m (USTABDATA + 8), stabstr_end = le32 m (USTABDATA + 12)\<rparr>"

definition check_user :: "u32 \<Rightarrow> u32 \<Rightarrow> bool K" where
  "check_user va len = bnd the_curenv (\<lambda>e. bnd (gets (\<lambda>s. env_pgdir (envs s e))) (\<lambda>d.
     bnd (user_mem_check d va len 0) (\<lambda>r. ret (r \<noteq> 0))))"

definition debuginfo_eip :: "UserStabData \<Rightarrow> bytes \<Rightarrow> u32 \<Rightarrow> (u32 \<times> Eipdebuginfo) option K" where
  "debuginfo_eip ktab m addr =
     (if ULIM \<le> addr then ret (debuginfo_lookup m ktab addr)
      else bnd (check_user USTABDATA 16) (\<lambda>bad. if bad then ret (Some (- 1, no_info addr))
      else let t = user_stabs m in
        bnd (check_user (stabs t) (of_int (stab_count t))) (\<lambda>bad. if bad then ret (Some (- 1, no_info addr))
        else bnd (check_user (stabstr t) (stabstr_end t - stabstr t)) (\<lambda>bad.
          if bad then ret (Some (- 1, no_info addr)) else ret (debuginfo_lookup m t addr)))))"

section \<open>The binary search finds the last match\<close>

text \<open>
  \<open>matches\<close> are the entries of the type searched, which the table holds in the order of their
  addresses. An exact match makes the loop go on with the next address, so a match for that address
  too would be taken for one of the address searched: \<open>no_next\<close> excludes it.
\<close>

definition matches :: "(int \<Rightarrow> Stab) \<Rightarrow> u8 \<Rightarrow> int \<Rightarrow> int \<Rightarrow> int set" where
  "matches tab ty lo hi = {i. lo \<le> i \<and> i \<le> hi \<and> n_type (tab i) = ty}"

definition in_order :: "(int \<Rightarrow> Stab) \<Rightarrow> int set \<Rightarrow> bool" where
  "in_order tab S \<longleftrightarrow> (\<forall>i \<in> S. \<forall>j \<in> S. i \<le> j \<longrightarrow> n_value (tab i) \<le> n_value (tab j))"

definition no_next :: "(int \<Rightarrow> Stab) \<Rightarrow> int set \<Rightarrow> u32 \<Rightarrow> bool" where
  "no_next tab S addr \<longleftrightarrow> (\<forall>i \<in> S. n_value (tab i) = addr \<longrightarrow>
     addr + 1 \<noteq> 0 \<and> (\<forall>j \<in> S. n_value (tab j) \<noteq> addr + 1))"

definition split_at :: "(int \<Rightarrow> Stab) \<Rightarrow> int set \<Rightarrow> u32 \<Rightarrow> int \<Rightarrow> int \<Rightarrow> int \<Rightarrow> bool" where
  "split_at tab S addr hi l r \<longleftrightarrow> r \<le> hi \<and> (r = hi \<or> r + 1 \<in> S) \<and>
     (\<forall>i \<in> S. i < l \<longrightarrow> n_value (tab i) \<le> addr) \<and> (\<forall>i \<in> S. r < i \<longrightarrow> addr < n_value (tab i))"

definition left_ok :: "(int \<Rightarrow> Stab) \<Rightarrow> int set \<Rightarrow> u32 \<Rightarrow> int \<Rightarrow> int \<Rightarrow> bool" where
  "left_ok tab S addr lo i \<longleftrightarrow> i = lo \<or> (i \<in> S \<and> n_value (tab i) \<le> addr)"

lemma less_next: "(a :: u32) + 1 \<noteq> 0 \<Longrightarrow> v < a + 1 \<longleftrightarrow> v \<le> a"
  using unatSuc [of a] by (simp add: word_less_nat_alt word_le_nat_alt less_Suc_eq_le add.commute)

lemma search_loop_splits:
  assumes "search_loop tab ty l r rl rr any a = (i, j, f)" "S = matches tab ty lo hi"
    and "in_order tab S" "no_next tab S addr" "lo \<le> l" "split_at tab S addr hi l r"
    and "left_ok tab S addr lo rl" "any \<or> r = hi \<and> (\<forall>k \<in> S. l \<le> k)" "rr = r"
    and "a = addr \<or> a = addr + 1 \<and> (\<exists>k \<in> S. n_value (tab k) = addr)"
  shows "split_at tab S addr hi (j + 1) j \<and> left_ok tab S addr lo i \<and> (f \<or> S = {})"
  using assms
proof (induction tab ty l r rl rr any a rule: search_loop.induct)
  case (1 tab ty l r rl rr any a)
  define t m where "t = (l + r) div 2" and "m = stab_prev tab ty l t"
  note IH = "1.IH" [OF _ t_def m_def]
  note prems = "1.prems"
  note step = prems(1) [unfolded search_loop.simps [of tab ty l r] Let_def, folded t_def, folded m_def]
  have S: "k \<in> S \<longleftrightarrow> lo \<le> k \<and> k \<le> hi \<and> n_type (tab k) = ty" for k
    using prems(2) by (simp add: matches_def)
  have split: "r \<le> hi" "r = hi \<or> r + 1 \<in> S" "\<And>i. i \<in> S \<Longrightarrow> i < l \<Longrightarrow> n_value (tab i) \<le> addr"
    "\<And>i. i \<in> S \<Longrightarrow> r < i \<Longrightarrow> addr < n_value (tab i)"
    using prems(6) unfolding split_at_def by auto
  have order: "\<And>i j. i \<in> S \<Longrightarrow> j \<in> S \<Longrightarrow> i \<le> j \<Longrightarrow> n_value (tab i) \<le> n_value (tab j)"
    using prems(3) unfolding in_order_def by blast
  show ?case
  proof (cases "l \<le> r")
    case False
    then have "i = rl" "j = r" "f = any" using step prems(9) by auto
    moreover have "split_at tab S addr hi (r + 1) r" using split False unfolding split_at_def by auto
    moreover have "any \<or> S = {}" using prems(8) False S by force
    ultimately show ?thesis using prems(7) by simp
  next
    case True
    then have t: "l \<le> t" "t \<le> r" unfolding t_def by auto
    have m: "m \<le> t" unfolding m_def by (rule stab_prev_le)
    have gap: "k \<notin> S" if "m < k" "l \<le> k" "k \<le> t" for k
      using stab_prev_none [of tab ty l t k] that S unfolding m_def by auto
    have below: "k < l \<or> k \<le> m" if "k \<in> S" "k < t + 1" for k
      using gap [of k] that by linarith
    show ?thesis
    proof (cases "m < l")
      case none: True
      have "n_value (tab k) \<le> addr" if "k \<in> S" "k < t + 1" for k
        using split(3) [of k] below [OF that] none that(1) by linarith
      then have "split_at tab S addr hi (t + 1) r" using split unfolding split_at_def by blast
      moreover have "any \<or> r = hi \<and> (\<forall>k \<in> S. t + 1 \<le> k)" using prems(8) below none by force
      ultimately show ?thesis
        using IH(1) [OF True none _ prems(2-4) _ _ prems(7) _ prems(9-10)] step True none t prems(5) by auto
    next
      case False
      have mS: "m \<in> S" using S stab_prev_type [of l tab ty t] False m t split(1) prems(5) unfolding m_def by auto
      have a: "a = addr \<or> (addr + 1 \<noteq> 0 \<and> a = addr + 1 \<and> n_value (tab m) \<noteq> a)"
        using prems(4,10) mS unfolding no_next_def by auto
      have low: "n_value (tab m) \<le> addr" if "\<not> a < n_value (tab m)"
        using that a less_next [of addr "n_value (tab m)"] by (auto simp: not_less order_le_less)
      have below_m: "n_value (tab k) \<le> addr" if "\<not> a < n_value (tab m)" "k \<in> S" "k < t + 1" for k
        using below [OF that(2,3)] split(3) [OF that(2)] order [OF that(2) mS] low [OF that(1)] False by force
      consider (less) "n_value (tab m) < a" | (greater) "a < n_value (tab m)" | (equal) "a = n_value (tab m)"
        by fastforce
      then show ?thesis
      proof cases
        case less
        have "split_at tab S addr hi (t + 1) r"
          unfolding split_at_def using split below_m less by (auto simp: not_less)
        moreover have "left_ok tab S addr lo m" unfolding left_ok_def using mS low less by auto
        ultimately show ?thesis
          using IH(2) [OF True False less _ prems(2-4) _ _ _ _ prems(9-10)] step True False less t prems(5) by auto
      next
        case greater
        have "addr < n_value (tab m)"
          using greater a less_next [of addr addr] by auto
        then have "addr < n_value (tab k)" if "k \<in> S" "m - 1 < k" for k
          using order [OF mS that(1)] that(2) by (auto intro: order_less_le_trans)
        then have "split_at tab S addr hi l (m - 1)"
          unfolding split_at_def using split mS m t by auto
        then show ?thesis
          using IH(3) [OF True False not_less_iff_gr_or_eq [THEN iffD2, OF disjI1, OF greater] greater _ prems(2-5) _ prems(7) _ _ prems(10)]
            step True False greater not_less_iff_gr_or_eq [of "n_value (tab m)" a] by auto
      next
        case equal
        have "split_at tab S addr hi m r"
          unfolding split_at_def using split below_m equal m by auto
        moreover have "left_ok tab S addr lo m" unfolding left_ok_def using mS low equal by auto
        moreover have "a = addr" using a equal by auto
        ultimately show ?thesis
          using IH(4) [OF True False _ _ _ prems(2-4) _ _ _ _ prems(9)] step True False equal prems(5) mS by auto
      qed
    qed
  qed
qed

lemma stab_prev_ge: "l - 1 \<le> m \<Longrightarrow> l - 1 \<le> stab_prev tab ty l m"
proof (induction tab ty l m rule: stab_prev.induct)
  case (1 tab ty l m)
  then show ?case by (cases "l \<le> m \<and> n_type (tab m) \<noteq> ty") (auto simp: stab_prev.simps [of tab ty l m])
qed

lemma stab_prev_last:
  assumes "lo \<le> l" "l \<le> m" "m \<le> hi" "\<exists>k \<in> matches tab ty lo hi. k \<le> m" "l = lo \<or> l \<in> matches tab ty lo hi"
  shows "stab_prev tab ty (l + 1) m \<in> matches tab ty lo hi \<and> stab_prev tab ty (l + 1) m \<le> m \<and>
    (\<forall>k \<in> matches tab ty lo hi. k \<le> m \<longrightarrow> k \<le> stab_prev tab ty (l + 1) m)"
proof -
  let ?i = "stab_prev tab ty (l + 1) m"
  have le: "?i \<le> m" "l \<le> ?i" using stab_prev_le [of tab ty "l + 1" m] stab_prev_ge [of "l + 1" m tab ty] assms(2) by auto
  have last: "k \<le> ?i" if "k \<in> matches tab ty lo hi" "k \<le> m" for k
    using stab_prev_none [of tab ty "l + 1" m k] that le by (force simp: matches_def)
  have "?i \<in> matches tab ty lo hi"
  proof (cases "l < ?i")
    case True
    then show ?thesis using stab_prev_type [of "l + 1" tab ty m] le assms by (simp add: matches_def)
  next
    case False
    then show ?thesis using le last assms by (force simp: matches_def)
  qed
  then show ?thesis using le last by blast
qed

lemma search_loop_none:
  assumes "\<And>k. l \<le> k \<Longrightarrow> k \<le> r \<Longrightarrow> n_type (tab k) \<noteq> ty"
  shows "search_loop tab ty l r rl rr any a = (rl, rr, any)"
  using assms
proof (induction tab ty l r rl rr any a rule: search_loop.induct)
  case (1 tab ty l r rl rr any a)
  let ?m = "stab_prev tab ty l ((l + r) div 2)"
  have m: "?m < l" if "l \<le> r"
    using stab_prev_type [of l tab ty "(l + r) div 2"] stab_prev_le [of tab ty l "(l + r) div 2"] that
      "1.prems" [of ?m] by fastforce
  show ?case
  proof (cases "l \<le> r")
    case True
    have "search_loop tab ty l r rl rr any a = search_loop tab ty ((l + r) div 2 + 1) r rl rr any a"
      using True m [OF True] by (simp only: search_loop.simps [of tab ty l r rl rr any a] Let_def if_True)
    also have "\<dots> = (rl, rr, any)" by (rule "1.IH"(1) [OF True refl refl m [OF True]], rule "1.prems") (use True in simp_all)
    finally show ?thesis .
  next
    case False
    then show ?thesis by (simp only: search_loop.simps [of tab ty l r rl rr any a] if_False)
  qed
qed

lemma stab_binsearch_none:
  assumes "\<And>k. lo \<le> k \<Longrightarrow> k \<le> hi \<Longrightarrow> n_type (tab k) \<noteq> ty"
  shows "stab_binsearch tab lo hi ty addr = (lo, lo - 1)"
  using search_loop_none [OF assms] by (simp add: stab_binsearch_def)

lemma strfind_stops: "m q = 0 \<Longrightarrow> p \<le> q \<Longrightarrow> \<exists>x. strfind m p c = Some x \<and> p \<le> x \<and> x \<le> q"
proof (induction "unat (q - p)" arbitrary: p rule: less_induct)
  case less
  show ?case
  proof (cases "m p = 0 \<or> m p = c")
    case True
    then show ?thesis using less.prems by (subst strfind.simps) auto
  next
    case False
    then have ne: "p \<noteq> q" using less.prems by auto
    then have lt: "p < q" using less.prems by simp
    have "Suc (unat p) < 4294967296"
      using order_le_less_trans [OF _ unat_less_32, of "Suc (unat p)" q] lt by (simp add: word_less_nat_alt)
    then have "unat (p + 1) = Suc (unat p)" by (simp add: unat_word_ariths)
    then have sm: "unat (q - (p + 1)) < unat (q - p)" "p + 1 \<le> q" "p \<le> p + 1"
      using lt inc_le [OF lt] by (auto simp: unat_sub word_less_nat_alt word_le_nat_alt)
    obtain x where "strfind m (p + 1) c = Some x" "p + 1 \<le> x" "x \<le> q"
      using less.hyps [OF sm(1) less.prems(1) sm(2)] by auto
    then show ?thesis using False sm(3) by (subst strfind.simps) (auto intro: order_trans)
  qed
qed

text \<open>A name is the constant \<open>"<unknown>"\<close> or starts in the string table; that of the function ends there too.\<close>

fun name_in :: "UserStabData \<Rightarrow> name \<Rightarrow> bool" where
  "name_in t Unknown = True"
| "name_in t (StrAt p) = (stabstr t \<le> p \<and> p < stabstr_end t)"

fun name_ends :: "UserStabData \<Rightarrow> name \<Rightarrow> u32 \<Rightarrow> bool" where
  "name_ends t Unknown len = (len = 9)"
| "name_ends t (StrAt p) len = (unat p + unat len < unat (stabstr_end t))"

definition names_in :: "UserStabData \<Rightarrow> Eipdebuginfo \<Rightarrow> bool" where
  "names_in t info \<longleftrightarrow> name_in t (eip_file info) \<and> name_in t (eip_fn_name info) \<and>
     name_ends t (eip_fn_name info) (eip_fn_namelen info)"

lemma name_at_in: "stabstr t < stabstr_end t \<Longrightarrow> name_in t old \<Longrightarrow> name_in t (name_at t e old)"
proof (cases "n_strx e < stabstr_end t - stabstr t")
  case True
  assume "stabstr t < stabstr_end t"
  then have lt: "unat (stabstr t) + unat (n_strx e) < unat (stabstr_end t)"
    using True by (simp add: word_less_nat_alt unat_sub word_le_nat_alt less_diff_conv2 add.commute)
  then have "unat (stabstr t + n_strx e) = unat (stabstr t) + unat (n_strx e)"
    by (subst unat_add_lem [THEN iffD1]) (use order_less_trans [OF lt unat_less_32] in simp_all)
  then show ?thesis using True lt by (simp add: name_at_def word_less_nat_alt word_le_nat_alt)
qed (simp add: name_at_def)

lemma name_len_ends:
  assumes "m (stabstr_end t - 1) = 0" "stabstr t < stabstr_end t" "name_in t nm"
  shows "\<exists>len. name_len m nm = Some len \<and> name_ends t nm len"
proof (cases nm)
  case (StrAt p)
  have e: "unat (stabstr_end t - 1) = unat (stabstr_end t) - 1" using assms(2) by (intro unat_minus_one) auto
  have "p \<le> stabstr_end t - 1" using assms(2,3) StrAt by (auto simp: word_less_nat_alt word_le_nat_alt e)
  then obtain x where "strfind m p 0x3A = Some x" "p \<le> x" "x \<le> stabstr_end t - 1"
    using strfind_stops [of m "stabstr_end t - 1" p, OF assms(1)] by auto
  then show ?thesis
    using StrAt assms(2) by (auto simp: word_less_nat_alt word_le_nat_alt unat_sub e)
qed simp

lemma stab_binsearch_finds:
  assumes "in_order tab (matches tab ty lo hi)" "no_next tab (matches tab ty lo hi) addr"
    and "k \<in> matches tab ty lo hi" "n_value (tab k) \<le> addr"
    and "stab_binsearch tab lo hi ty addr = (i, j)"
  shows "i \<in> matches tab ty lo hi \<and> n_value (tab i) \<le> addr \<and> i \<le> j \<and>
    (\<forall>k \<in> matches tab ty lo hi. i < k \<longrightarrow> j < k \<and> addr < n_value (tab k)) \<and>
    (j = hi \<or> j + 1 \<in> matches tab ty lo hi)"
proof -
  let ?S = "matches tab ty lo hi"
  obtain rl rr f where s: "search_loop tab ty lo hi lo hi False addr = (rl, rr, f)" by (metis prod_cases3)
  have inv: "split_at tab ?S addr hi (rr + 1) rr \<and> left_ok tab ?S addr lo rl \<and> (f \<or> ?S = {})"
    by (rule search_loop_splits [OF s refl assms(1,2)]) (auto simp: split_at_def left_ok_def matches_def)
  then have f: f using assms(3) by blast
  then have j: "j = rr" and i: "i = stab_prev tab ty (rl + 1) rr"
    using assms(5) s unfolding stab_binsearch_def by auto
  have "k \<le> rr" using inv assms(3,4) unfolding split_at_def by (meson linorder_not_le)
  have rl: "rl \<le> rr" using inv assms(3) \<open>k \<le> rr\<close> unfolding split_at_def left_ok_def matches_def by force
  have "lo \<le> rl \<and> (rl = lo \<or> rl \<in> ?S) \<and> rr \<le> hi"
    using inv by (auto simp: split_at_def left_ok_def matches_def)
  then have last: "i \<in> ?S \<and> i \<le> rr \<and> (\<forall>k \<in> ?S. k \<le> rr \<longrightarrow> k \<le> i)"
    unfolding i using stab_prev_last [of lo rl rr hi tab ty] rl assms(3) \<open>k \<le> rr\<close> by blast
  moreover have "rr < k \<and> addr < n_value (tab k)" if "k \<in> ?S" "i < k" for k
    using last inv that unfolding split_at_def by (meson linorder_not_le)
  moreover have "n_value (tab i) \<le> addr" "rr = hi \<or> rr + 1 \<in> ?S"
    using last inv unfolding split_at_def by auto
  ultimately show ?thesis unfolding j by blast
qed

section \<open>Properties\<close>

text \<open>C40: stab\_binsearch: in a table whose matching entries are in order, and where no entry is one above an
  exact match, the results are the last matching entry at or below the address and the index just
  before the next matching entry, or the end of the range.\<close>

theorem stab_binsearch_correct:
  assumes "in_order tab (matches tab ty lo hi)" "no_next tab (matches tab ty lo hi) addr"
    and "k \<in> matches tab ty lo hi" "n_value (tab k) \<le> addr"
    and "stab_binsearch tab lo hi ty addr = (i, j)"
  shows "i \<in> matches tab ty lo hi \<and> n_value (tab i) \<le> addr \<and> i \<le> j \<and>
    (\<forall>k \<in> matches tab ty lo hi. i < k \<longrightarrow> j < k \<and> addr < n_value (tab k)) \<and>
    (j = hi \<or> j + 1 \<in> matches tab ty lo hi)"
  by (rule stab_binsearch_finds [OF assms])

text \<open>
  Where the loop does not do what its comment says: a match one above the address is taken for it,
  and an address below every match gives the region in front of the table instead of an empty one.
\<close>

definition dense_stabs :: "int \<Rightarrow> Stab" where
  "dense_stabs i = \<lparr>n_strx = 0, n_type = N_SO, n_other = 0, n_desc = 0, n_value = 10 + of_int i\<rparr>"

lemma stab_binsearch_chained: "stab_binsearch dense_stabs 0 1 N_SO 10 = (1, 1)"
  by (simp add: stab_binsearch_def dense_stabs_def search_loop.simps stab_prev.simps)

lemma stab_binsearch_below: "stab_binsearch dense_stabs 0 1 N_SO 5 = (- 1, - 1)"
  by (simp add: stab_binsearch_def dense_stabs_def search_loop.simps stab_prev.simps)

text \<open>The table of the comment in front of stab\_binsearch, with line numbers between its source files.\<close>

definition example_stabs :: "int \<Rightarrow> Stab" where
  "example_stabs i = (case map_of [(0, 0xf0100000), (13, 0xf0100040), (117, 0xf0100176), (118, 0xf0100178),
       (555, 0xf0100652), (556, 0xf0100654), (657, 0xf0100849)] i of
     Some v \<Rightarrow> \<lparr>n_strx = 1, n_type = N_SO, n_other = 0, n_desc = 0, n_value = v\<rparr>
   | None \<Rightarrow> \<lparr>n_strx = 0, n_type = N_SLINE, n_other = 0, n_desc = 7, n_value = 0xf0100000\<rparr>)"

lemma example_matches: "matches example_stabs N_SO 0 657 = {0, 13, 117, 118, 555, 556, 657}"
  by (auto simp: matches_def example_stabs_def split: if_splits)

theorem stab_binsearch_correct_witness:
  "stab_binsearch example_stabs 0 657 N_SO 0xf0100184 = (118, 554)"
proof -
  obtain i j where ij: "stab_binsearch example_stabs 0 657 N_SO 0xf0100184 = (i, j)" by (metis prod.exhaust)
  have "in_order example_stabs (matches example_stabs N_SO 0 657)" "no_next example_stabs (matches example_stabs N_SO 0 657) 0xf0100184"
    unfolding example_matches by (simp_all add: in_order_def no_next_def example_stabs_def)
  note r = stab_binsearch_correct [OF this _ _ ij, of 0]
  have "0 \<in> matches example_stabs N_SO 0 657" "n_value (example_stabs 0) \<le> 0xf0100184"
    unfolding example_matches by (simp_all add: example_stabs_def)
  from r [OF this] have
    "i \<in> {0, 13, 117, 118, 555, 556, 657} \<and> n_value (example_stabs i) \<le> 0xf0100184 \<and> i \<le> j \<and>
     (\<forall>k \<in> {0, 13, 117, 118, 555, 556, 657}. i < k \<longrightarrow> j < k \<and> 0xf0100184 < n_value (example_stabs k)) \<and>
     (j = 657 \<or> j + 1 \<in> {0, 13, 117, 118, 555, 556, 657})"
    unfolding example_matches .
  then show ?thesis unfolding ij insert_iff by (elim conjE disjE) (simp_all add: example_stabs_def)
qed

text \<open>Once the source file is found, the lookup succeeds with names of the table.\<close>

lemma valid_table_lookup:
  assumes "stabstr t < stabstr_end t" "m (stabstr_end t - 1) = 0"
    and "stab_binsearch (stab_at m (stabs t)) 0 (stab_count t - 1) N_SO addr = (lfile, rfile)" "lfile \<noteq> 0"
    and "stab_binsearch (stab_at m (stabs t)) lfile rfile N_FUN addr = (lfun, rfun)"
  shows "\<exists>info. debuginfo_lookup m t addr = Some (0, info) \<and> names_in t info \<and>
    (lfun \<le> rfun \<longrightarrow> eip_fn_addr info = n_value (stab_at m (stabs t) lfun) \<and>
       eip_fn_name info = name_at t (stab_at m (stabs t) lfun) Unknown)"
proof -
  let ?tab = "stab_at m (stabs t)"
  let ?nm = "if lfun \<le> rfun then name_at t (?tab lfun) Unknown else Unknown"
  have nm: "name_in t ?nm" using name_at_in [OF assms(1)] by simp
  obtain len where len: "name_len m ?nm = Some len" "name_ends t ?nm len"
    using name_len_ends [of m t ?nm] assms(1,2) nm by blast
  show ?thesis
    using assms len nm name_at_in [OF assms(1)]
    by (auto simp: debuginfo_lookup_def no_info_def Let_def names_in_def split: prod.splits if_splits)
qed

text \<open>debuginfo\_eip returns for every table and address: the scan of a name stops inside the string table
  once its last byte is checked, and the names it reports start there.\<close>

theorem debuginfo_names_in_table:
  "\<exists>r info. debuginfo_lookup m t addr = Some (r, info) \<and> names_in t info"
proof (cases "stabstr t < stabstr_end t \<and> m (stabstr_end t - 1) = 0")
  case True
  obtain lfile rfile where f: "stab_binsearch (stab_at m (stabs t)) 0 (stab_count t - 1) N_SO addr = (lfile, rfile)"
    by (metis prod.exhaust)
  obtain lfun rfun where g: "stab_binsearch (stab_at m (stabs t)) lfile rfile N_FUN addr = (lfun, rfun)"
    by (metis prod.exhaust)
  show ?thesis
  proof (cases "lfile = 0")
    case False
    then show ?thesis using valid_table_lookup [OF _ _ f _ g] True by blast
  next
    case z: True
    then show ?thesis using True f by (auto simp: debuginfo_lookup_def no_info_def names_in_def)
  qed
next
  case False
  then show ?thesis by (auto simp: debuginfo_lookup_def no_info_def names_in_def not_less Let_def)
qed

text \<open>With the functions of the source file in order, the one reported is the last that starts at or below the address.\<close>

lemma debuginfo_finds_function:
  assumes "stabstr t < stabstr_end t" "m (stabstr_end t - 1) = 0"
    and "stab_binsearch (stab_at m (stabs t)) 0 (stab_count t - 1) N_SO addr = (lfile, rfile)" "lfile \<noteq> 0"
    and "S = matches (stab_at m (stabs t)) N_FUN lfile rfile" "k \<in> S" "n_value (stab_at m (stabs t) k) \<le> addr"
    and "in_order (stab_at m (stabs t)) S" "no_next (stab_at m (stabs t)) S addr"
  shows "\<exists>info. \<exists>i \<in> S. debuginfo_lookup m t addr = Some (0, info) \<and>
    eip_fn_addr info = n_value (stab_at m (stabs t) i) \<and> eip_fn_name info = name_at t (stab_at m (stabs t) i) Unknown \<and>
    eip_fn_addr info \<le> addr \<and> (\<forall>k \<in> S. i < k \<longrightarrow> addr < n_value (stab_at m (stabs t) k))"
proof -
  obtain lfun rfun where g: "stab_binsearch (stab_at m (stabs t)) lfile rfile N_FUN addr = (lfun, rfun)"
    by (metis prod.exhaust)
  have f: "lfun \<in> S \<and> n_value (stab_at m (stabs t) lfun) \<le> addr \<and> lfun \<le> rfun \<and>
      (\<forall>k \<in> S. lfun < k \<longrightarrow> addr < n_value (stab_at m (stabs t) k))"
    using stab_binsearch_finds [OF _ _ _ assms(7) g] assms(5,6,8,9) by blast
  obtain info where "debuginfo_lookup m t addr = Some (0, info)"
    "lfun \<le> rfun \<longrightarrow> eip_fn_addr info = n_value (stab_at m (stabs t) lfun) \<and>
       eip_fn_name info = name_at t (stab_at m (stabs t) lfun) Unknown"
    using valid_table_lookup [OF assms(1-4) g] by blast
  with f show ?thesis by (intro exI bexI [of _ lfun] conjI) auto
qed

end
