(* ===== verification/UserMem.thy ===== *)
theory UserMem
  imports Syscall
begin

text \<open>
  Memory as a user program sees it: the translation the processor makes of every access from user mode,
  loads and stores through it, the read-only view of the page tables at UVPT, and what page\_insert and
  page\_remove change and leave alone of all that.

  \<^item> An access that the page tables do not allow faults: the program goes no further
    (page\_fault\_handler takes over).
  \<^item> \<open>address_space s fl d\<close> collects what the kernel keeps true of a page directory in use.
\<close>

section \<open>The memory management unit\<close>

definition grants :: "u32 \<Rightarrow> bool \<Rightarrow> bool" where
  "grants entry write \<longleftrightarrow> (let need = PTE_P OR PTE_U OR (if write then PTE_W else 0) in entry AND need = need)"

definition mmu :: "kst \<Rightarrow> nat \<Rightarrow> u32 \<Rightarrow> bool \<Rightarrow> nat option" where
  "mmu s d va write = (let pde = pmem s d (PDX va); pte = pmem s (PGNUM pde) (PTX va) in
     if grants pde write \<and> grants pte write then Some (PGNUM pte) else None)"

definition user_fault :: "'a K" where
  "user_fault = exit_with (Panic ''page fault in user mode'')"

definition user_word :: "bool \<Rightarrow> u32 \<Rightarrow> (nat \<times> nat) K" where
  "user_word write va = bnd the_curenv (\<lambda>c. bnd (env_pgdir_of c) (\<lambda>p. bnd (deref p) (\<lambda>d.
     bnd (gets (\<lambda>s. mmu s d va write)) (\<lambda>f. case f of
       None \<Rightarrow> user_fault
     | Some f \<Rightarrow> ret (f, unat (PGOFF va) div 4)))))"

text \<open>Loads and stores of aligned words.\<close>

definition uload :: "u32 \<Rightarrow> u32 K" where
  "uload va = bnd (user_word False va) (\<lambda>(f, i). load_word f i)"

definition ustore :: "u32 \<Rightarrow> u32 \<Rightarrow> unit K" where
  "ustore va w = bnd (user_word True va) (\<lambda>(f, i). store_word f i w)"

text \<open>\<open>uvpd[n]\<close> and \<open>uvpt[n]\<close> (lib/entry.S places the arrays at UVPT).\<close>

definition uvpd :: "nat \<Rightarrow> u32 K" where
  "uvpd n = uload (UVPT + of_nat (PDX UVPT) * PGSIZE + 4 * of_nat n)"

definition uvpt :: "nat \<Rightarrow> u32 K" where
  "uvpt n = uload (UVPT + 4 * of_nat n)"

text \<open>
  memmove of a page to another page: both are aligned, so it is a string instruction over 1024 words,
  upward, since different pages do not overlap.
\<close>

definition copy_page :: "u32 \<Rightarrow> u32 \<Rightarrow> unit K" where
  "copy_page dst src = for_each [0..<1024]
     (\<lambda>i. bnd (uload (src + 4 * of_nat i)) (ustore (dst + 4 * of_nat i)))"

section \<open>What page\_insert changes\<close>

text \<open>Every table of the directory that maps user memory is open to user mode; the directory maps itself at UVPT.\<close>

definition user_dir :: "kst \<Rightarrow> nat \<Rightarrow> bool" where
  "user_dir s d \<longleftrightarrow> (\<forall>i < PDX UTOP. pmem s d i \<noteq> 0 \<longrightarrow> grants (pmem s d i) True)"

definition self_mapped :: "kst \<Rightarrow> nat \<Rightarrow> bool" where
  "self_mapped s d \<longleftrightarrow> PGNUM (pmem s d (PDX UVPT)) = d \<and> grants (pmem s d (PDX UVPT)) False"

definition address_space :: "kst \<Rightarrow> nat list \<Rightarrow> nat \<Rightarrow> bool" where
  "address_space s fl d \<longleftrightarrow> free_pages s fl \<and> wf_pgdir s fl d \<and> user_dir s d \<and> self_mapped s d"

lemma grants_new_pde: "grants (new_pde p) w"
proof -
  have "new_pde p AND 7 = 7" "(7 :: u32) AND 5 = 5"
    by (rule bit_word_eqI, auto simp: new_pde_def bit_simps)+
  then have "new_pde p AND 5 = 5" by (metis and.assoc)
  then show ?thesis using \<open>new_pde p AND 7 = 7\<close> by (simp add: grants_def)
qed

definition same_envs :: "kst \<Rightarrow> kst \<Rightarrow> bool" where
  "same_envs s s' \<longleftrightarrow> envs s' = envs s \<and> curenv s' = curenv s \<and> npages s' = npages s \<and> env_free_list s' = env_free_list s"

lemma same_envs_trans: "same_envs s t \<Longrightarrow> same_envs t u \<Longrightarrow> same_envs s u"
  by (simp add: same_envs_def)

lemma same_envs_table: "same_envs s s' \<Longrightarrow> env_table s xs \<Longrightarrow> env_table s' xs"
  by (subst env_table_fields [where s = s]) (auto simp: same_envs_def)

text \<open>The frame an insertion gives back: the one it replaces, when that was its last mapping.\<close>

definition freed :: "kst \<Rightarrow> nat \<Rightarrow> u32 \<Rightarrow> nat \<Rightarrow> nat set" where
  "freed s d va pp = (let p = PGNUM (upte s d va) in
     if upte s d va \<noteq> 0 \<and> pp_ref (pages s p) + (if p = pp then 1 else 0) = 1 then {p} else {})"

lemma page_insert_effect:
  assumes fp: "free_pages s fl" and wf: "wf_pgdir s fl d" "wf_mapped s fl d va" "PDX va < 955"
    and pp: "data_page s fl d pp" and mem: "pmem s d (PDX va) \<noteq> 0 \<or> fl \<noteq> []"
  obtains s' fl' where "page_insert (Some d) pp va perm s = (Inr 0, s')" "free_pages s' fl'" "wf_pgdir s' fl' d"
    "\<And>a. PDX a < 955 \<Longrightarrow> upte s' d a = (if PGNUM a = PGNUM va then page2pa pp OR perm OR PTE_P else upte s d a)"
    "set fl' \<subseteq> set fl \<union> freed s d va pp"
    "pmem s' d = (if pmem s d (PDX va) \<noteq> 0 then pmem s d else (pmem s d)(PDX va := new_pde (hd fl)))"
    "\<And>q. q \<noteq> d \<Longrightarrow> q \<notin> set fl \<Longrightarrow> pmem s d (PDX va) = 0 \<or> q \<noteq> PGNUM (pmem s d (PDX va)) \<Longrightarrow> pmem s' q = pmem s q"
    "same_envs s s'"
proof -
  obtain s0 fl0 where base: "insert_base fl d va s = (s0, fl0)" by fastforce
  note b = insert_base_wf [OF fp wf(1,3) base mem]
  note ex = page_insert_exec(1) [OF fp wf pp mem base, of perm]
    page_insert_exec(2) [OF fp wf pp mem base, simplified]
  let ?s1 = "upd_page pp (\<lambda>p. p\<lparr>pp_ref := pp_ref p + 1\<rparr>) s0"
  let ?s2 = "remove_post d va ?s1"
  let ?s' = "insert_post d pp va perm s0"
  let ?t = "PGNUM (pmem s0 d (PDX va))"
  let ?fl = "remove_free d va ?s1 fl0"
  have dir: "pmem ?s2 d = pmem s0 d" using remove_post_dir [of ?s1 fl0 d va] ex wf(3) by simp
  have form: "?s' = ?s2\<lparr>pmem := (pmem ?s2)(?t := (pmem ?s2 ?t)(PTX va := page2pa pp OR perm OR PTE_P))\<rparr>"
    by (simp add: insert_post_def)
  have td: "?t \<noteq> d" using wf_pgdir_table_neq [OF b(2) wf(3) b(3)] .
  have wf': "wf_pgdir ?s' ?fl d"
    using wf_pgdir_remove [of ?s1 fl0 d va] ex(2) wf(3) td by (subst wf_pgdir_cong [of _ ?s2]) (simp_all add: form)
  have fp': "free_pages ?s' ?fl"
    using free_pages_remove [of ?s1 fl0 d va] ex(2) unfolding form free_pages_frame(1) by blast
  have u: "upte ?s1 d va = upte s d va" using upte_pmem_cong [of ?s1 s0] b(5) [OF wf(3)] by simp
  have base': "pmem s d (PDX va) \<noteq> 0 \<and> s0 = s \<and> fl0 = fl \<or>
      pmem s d (PDX va) = 0 \<and> fl = hd fl # fl0 \<and> s0 = walk_post d va (hd fl) s"
    using base mem by (auto simp: insert_base_def split: if_splits list.splits)
  have x: "d \<noteq> hd fl" "hd fl < 2 ^ 20" "hd fl \<in> set fl" if "fl = hd fl # fl0"
    using that fp wf(1) by (cases fl; auto simp: free_pages_def wf_pgdir_def)+
  have sub: "set ?fl \<subseteq> set fl \<union> freed s d va pp"
  proof -
    have "set fl0 \<subseteq> set fl" using base' by (metis order_refl set_subset_Cons)
    moreover have "pages s0 (PGNUM (upte s d va)) = pages s (PGNUM (upte s d va))" if "upte s d va \<noteq> 0"
      using b(7) wf(2) that by (auto simp: wf_mapped_def)
    ultimately show ?thesis using u by (auto simp: remove_free_def freed_def)
  qed
  have d': "pmem ?s' d = (if pmem s d (PDX va) \<noteq> 0 then pmem s d else (pmem s d)(PDX va := new_pde (hd fl)))"
    using base' x dir td by (auto simp: form walk_post_pmem)
  have other: "pmem ?s' q = pmem s q"
    if q: "q \<noteq> d" "q \<notin> set fl" "pmem s d (PDX va) = 0 \<or> q \<noteq> PGNUM (pmem s d (PDX va))" for q
    using base'
  proof (elim disjE conjE)
    assume "pmem s d (PDX va) \<noteq> 0" "s0 = s"
    then show ?thesis using q unfolding form by (auto simp: remove_post_pmem)
  next
    assume z: "pmem s d (PDX va) = 0" "fl = hd fl # fl0" "s0 = walk_post d va (hd fl) s"
    then have "?t = hd fl" "q \<noteq> hd fl" "pmem s0 q = pmem s q"
      using x q by (auto simp: walk_post_pmem PGNUM_new_pde)
    then show ?thesis unfolding form by (auto simp: remove_post_pmem)
  qed
  show thesis
    by (rule that [of ?s' ?fl, OF ex(1) fp' wf' _ sub d' other])
      (use page_insert_upte(2) [OF fp wf pp mem ex(1)] base' in
        \<open>auto simp: same_envs_def form curenv_def walk_post_def Let_def remove_post_def decref_post_def page_push_def\<close>)
qed


lemma data_page_after:
  assumes "data_page s fl d q" "q \<notin> freed s d va pp" "npages s' = npages s"
    and "set fl' \<subseteq> set fl \<union> freed s d va pp"
    and "pmem s' d = (if pmem s d (PDX va) \<noteq> 0 then pmem s d else (pmem s d)(PDX va := new_pde (hd fl)))"
    and "pmem s d (PDX va) \<noteq> 0 \<or> fl \<noteq> []" "free_pages s fl"
  shows "data_page s' fl' d q"
proof -
  have "hd fl \<noteq> q \<and> hd fl < 2 ^ 20" if "fl \<noteq> []"
    using that assms(1,7) by (cases fl) (auto simp: data_page_def free_pages_def)
  then show ?thesis
    using assms by (auto simp: data_page_def PGNUM_new_pde split: if_splits)
qed

lemma address_space_insert:
  assumes sp: "address_space s fl d" and va: "va < UTOP" "wf_mapped s fl d va"
    and pp: "data_page s fl d pp" and mem: "pmem s d (PDX va) \<noteq> 0 \<or> fl \<noteq> []"
  obtains s' fl' where "page_insert (Some d) pp va perm s = (Inr 0, s')" "address_space s' fl' d"
    "\<And>a. a < UTOP \<Longrightarrow> upte s' d a = (if PGNUM a = PGNUM va then page2pa pp OR perm OR PTE_P else upte s d a)"
    "set fl' \<subseteq> set fl \<union> freed s d va pp"
    "\<And>q. q \<noteq> d \<Longrightarrow> q \<notin> set fl \<Longrightarrow> pmem s d (PDX va) = 0 \<or> q \<noteq> PGNUM (pmem s d (PDX va)) \<Longrightarrow> pmem s' q = pmem s q"
    "\<And>q. data_page s fl d q \<Longrightarrow> q \<notin> freed s d va pp \<Longrightarrow> data_page s' fl' d q"
    "same_envs s s'" "pmem s' d (PDX va) \<noteq> 0"
    "\<And>i. pmem s d i \<noteq> 0 \<Longrightarrow> pmem s' d i = pmem s d i"
    "pmem s' d = (if pmem s d (PDX va) \<noteq> 0 then pmem s d else (pmem s d)(PDX va := new_pde (hd fl)))"
proof -
  have fp: "free_pages s fl" and wf: "wf_pgdir s fl d" and ud: "user_dir s d" and sm: "self_mapped s d"
    using sp by (auto simp: address_space_def)
  note pd = PDX_below_UTOP [OF va(1)]
  obtain s' fl' where r: "page_insert (Some d) pp va perm s = (Inr 0, s')" "free_pages s' fl'" "wf_pgdir s' fl' d"
    "\<And>a. PDX a < 955 \<Longrightarrow> upte s' d a = (if PGNUM a = PGNUM va then page2pa pp OR perm OR PTE_P else upte s d a)"
    "set fl' \<subseteq> set fl \<union> freed s d va pp"
    "pmem s' d = (if pmem s d (PDX va) \<noteq> 0 then pmem s d else (pmem s d)(PDX va := new_pde (hd fl)))"
    "\<And>q. q \<noteq> d \<Longrightarrow> q \<notin> set fl \<Longrightarrow> pmem s d (PDX va) = 0 \<or> q \<noteq> PGNUM (pmem s d (PDX va)) \<Longrightarrow> pmem s' q = pmem s q"
    "same_envs s s'"
    by (rule page_insert_effect [OF fp wf va(2) pd pp mem, of perm]) blast
  have "user_dir s' d" using ud grants_new_pde by (auto simp: user_dir_def r(6))
  moreover have "self_mapped s' d"
    using sm pd by (auto simp: self_mapped_def r(6) PDX_div PGNUM_div)
  ultimately have "address_space s' fl' d" using r(2,3) by (simp add: address_space_def)
  moreover have "data_page s' fl' d q" if "data_page s fl d q" "q \<notin> freed s d va pp" for q
    by (rule data_page_after [OF that _ r(5,6) mem fp]) (use r(8) in \<open>simp add: same_envs_def\<close>)
  moreover have "upte s' d a = (if PGNUM a = PGNUM va then page2pa pp OR perm OR PTE_P else upte s d a)" if "a < UTOP" for a
    by (rule r(4) [OF PDX_below_UTOP [OF that]])
  moreover have "pmem s' d (PDX va) \<noteq> 0" "\<And>i. pmem s d i \<noteq> 0 \<Longrightarrow> pmem s' d i = pmem s d i" by (auto simp: r(6))
  ultimately show thesis using that [OF r(1) _ _ r(5) r(7) _ r(8) _ _ r(6)] by blast
qed

lemma address_space_remove:
  assumes sp: "address_space s fl d" and va: "va < UTOP" "wf_mapped s fl d va"
  obtains s' fl' where "page_remove (Some d) va s = (Inr (), s')" "address_space s' fl' d"
    "\<And>a. a < UTOP \<Longrightarrow> upte s' d a = (if PGNUM a = PGNUM va then 0 else upte s d a)"
    "\<And>q. pmem s d (PDX va) = 0 \<or> q \<noteq> PGNUM (pmem s d (PDX va)) \<Longrightarrow> pmem s' q = pmem s q"
    "same_envs s s'"
proof -
  have fp: "free_pages s fl" and wf: "wf_pgdir s fl d" and ud: "user_dir s d" and sm: "self_mapped s d"
    using sp by (auto simp: address_space_def)
  note pd = PDX_below_UTOP [OF va(1)]
  let ?s = "remove_post d va s"
  have dir: "pmem ?s d = pmem s d" by (rule remove_post_dir [OF wf pd])
  have "address_space ?s (remove_free d va s fl) d"
    using free_pages_remove [OF fp va(2)] wf_pgdir_remove [OF wf va(2) pd] ud sm
    by (simp add: address_space_def user_dir_def self_mapped_def dir)
  moreover have "upte ?s d a = (if PGNUM a = PGNUM va then 0 else upte s d a)" if "a < UTOP" for a
    by (rule upte_remove [OF wf pd PDX_below_UTOP [OF that]])
  moreover have "pmem ?s q = pmem s q" if "pmem s d (PDX va) = 0 \<or> q \<noteq> PGNUM (pmem s d (PDX va))" for q
    using that by (auto simp: remove_post_pmem upte_def)
  moreover have "same_envs s ?s" by (simp add: same_envs_def)
  ultimately show thesis by (rule that [OF page_remove_exec [OF fp wf va(2)]])
qed


section \<open>Accesses through the tables\<close>

lemma grants_zero [simp]: "\<not> grants 0 w"
  by (simp add: grants_def)

lemma grants_read: "grants e True \<Longrightarrow> grants e False"
proof -
  assume "grants e True"
  then have "e AND 7 = 7" by (simp add: grants_def)
  then have "e AND 5 = 5" using and.assoc [of e 7 5] by simp
  then show ?thesis by (simp add: grants_def)
qed

lemma grants_any: "grants e True \<Longrightarrow> grants e w"
  using grants_read by (cases w) auto

lemma mmu_upte:
  assumes "user_dir s d" "va < UTOP"
  shows "mmu s d va w = (if grants (upte s d va) w then Some (PGNUM (upte s d va)) else None)"
  using assms(1) PDX_below_UTOP [OF assms(2)] grants_any [of "pmem s d (PDX va)" w]
  by (auto simp: mmu_def upte_def user_dir_def)

lemma user_word_exec:
  assumes "curenv s = Some c" "env_pgdir (envs s c) = Some d" "mmu s d va w = Some f"
  shows "user_word w va s = (Inr (f, unat (PGOFF va) div 4), s)"
  using assms by (simp add: user_word_def env_pgdir_of_def)

lemma uload_exec:
  assumes "curenv s = Some c" "env_pgdir (envs s c) = Some d" "mmu s d va False = Some f"
  shows "uload va s = (Inr (pmem s f (unat (PGOFF va) div 4)), s)"
  using user_word_exec [OF assms] by (simp add: uload_def bnd_def)

lemma ustore_exec:
  assumes "curenv s = Some c" "env_pgdir (envs s c) = Some d" "mmu s d va True = Some f"
  shows "ustore va v s = (Inr (), s\<lparr>pmem := (pmem s)(f := (pmem s f)(unat (PGOFF va) div 4 := v))\<rparr>)"
  using user_word_exec [OF assms] by (simp add: ustore_def bnd_def)

text \<open>The words of a page.\<close>

lemma word_of_page:
  assumes "unat va mod 4096 = 0" "i < 1024"
  shows "PGNUM (va + 4 * of_nat i) = PGNUM va" "unat (PGOFF (va + 4 * of_nat i)) div 4 = i"
proof -
  obtain k where k: "unat va = 4096 * k" using assms(1) by (auto simp: mod_eq_0_iff_dvd elim: dvdE)
  then have "k < 1048576" using unat_less_32 [of va] by (simp del: unat_less_32)
  then have u: "unat (va + 4 * of_nat i) = 4096 * k + 4 * i"
    using assms(2) k by (simp add: unat_word_ariths unat_of_nat)
  then show "PGNUM (va + 4 * of_nat i) = PGNUM va"
    using k assms(2) by (simp add: PGNUM_div)
  have "unat (PGOFF (va + 4 * of_nat i)) = unat (va + 4 * of_nat i) mod 4096"
    by (simp add: PGOFF_def mask_numerals(2) unsigned_take_bit_eq take_bit_eq_mod unat_mod flip: take_bit_eq_mask)
  also have "\<dots> = 4 * i" using u assms(2) by simp
  finally show "unat (PGOFF (va + 4 * of_nat i)) div 4 = i" by simp
qed

lemma mmu_page: "PGNUM a = PGNUM b \<Longrightarrow> mmu s d a w = mmu s d b w"
  by (simp add: mmu_def same_page_iff)

lemma for_each_snoc: "for_each (xs @ [x]) f s = thn (for_each xs f) (thn (f x) (ret ())) s"
  by (simp add: for_each_append)

lemma copy_page_exec:
  assumes c: "curenv s = Some c" "env_pgdir (envs s c) = Some d"
    and m: "mmu s d src False = Some f" "mmu s d dst True = Some g"
    and al: "unat src mod 4096 = 0" "unat dst mod 4096 = 0"
    and g: "f \<noteq> g" "g \<noteq> d" "g \<noteq> PGNUM (pmem s d (PDX src))" "g \<noteq> PGNUM (pmem s d (PDX dst))"
  shows "copy_page dst src s = (Inr (), s\<lparr>pmem := (pmem s)(g := (\<lambda>i. if i < 1024 then pmem s f i else pmem s g i))\<rparr>)"
proof -
  let ?st = "\<lambda>n. s\<lparr>pmem := (pmem s)(g := (\<lambda>i. if i < n then pmem s f i else pmem s g i))\<rparr>"
  have "n \<le> 1024 \<Longrightarrow> for_each [0..<n] (\<lambda>i. bnd (uload (src + 4 * of_nat i)) (ustore (dst + 4 * of_nat i))) s
      = (Inr (), ?st n)" for n
  proof (induction n)
    case (Suc n)
    then have n: "n < 1024" by simp
    note w = word_of_page [OF al(1) n] word_of_page [OF al(2) n]
    have mm: "mmu (?st n) d src False = Some f" "mmu (?st n) d dst True = Some g"
      using m g(2-4) by (auto simp: mmu_def split: if_splits)
    have l: "uload (src + 4 * of_nat n) (?st n) = (Inr (pmem s f n), ?st n)"
      using uload_exec [of "?st n" c d "src + 4 * of_nat n" f] c mm(1) mmu_page [OF w(1)] w(2) g(1) by simp
    have st: "ustore (dst + 4 * of_nat n) v (?st n)
        = (Inr (), (?st n)\<lparr>pmem := (pmem (?st n))(g := (pmem (?st n) g)(n := v))\<rparr>)" for v
      using ustore_exec [of "?st n" c d "dst + 4 * of_nat n" g v] c mm(2) mmu_page [OF w(3)] w(4) by simp
    have "(?st n)\<lparr>pmem := (pmem (?st n))(g := (pmem (?st n) g)(n := pmem s f n))\<rparr> = ?st (Suc n)"
      by (auto simp: fun_eq_iff less_Suc_eq)
    then have f: "bnd (uload (src + 4 * of_nat n)) (ustore (dst + 4 * of_nat n)) (?st n) = (Inr (), ?st (Suc n))"
      unfolding bnd_def l prod.case sum.case st by simp
    have "thn (bnd (uload (src + 4 * of_nat n)) (ustore (dst + 4 * of_nat n))) (ret ()) (?st n) = (Inr (), ?st (Suc n))"
      unfolding thn_def by (subst bnd_def) (simp only: f prod.case sum.case ret_exec)
    moreover have "for_each [0..<n] (\<lambda>i. bnd (uload (src + 4 * of_nat i)) (ustore (dst + 4 * of_nat i))) s = (Inr (), ?st n)"
      by (rule Suc.IH) (use n in simp)
    ultimately show ?case
      by (simp only: upt_Suc_append [OF le0] for_each_snoc) (simp only: thn_Inr)
  qed simp
  from this [of 1024] show ?thesis unfolding copy_page_def by simp
qed

text \<open>The page tables as the program reads them.\<close>

lemma uvpt_addr:
  assumes "n < 2 ^ 20"
  shows "PDX (UVPT + 4 * of_nat n) = 957" "PTX (UVPT + 4 * of_nat n) = n div 1024"
    "unat (PGOFF (UVPT + 4 * of_nat n)) div 4 = n mod 1024"
proof -
  have u: "unat (UVPT + 4 * of_nat n) = 4013948928 + 4 * n"
    using assms by (simp add: unat_word_ariths unat_of_nat)
  then have p: "PGNUM (UVPT + 4 * of_nat n) = 979968 + n div 1024" by (simp add: PGNUM_div)
  have n: "n div 1024 < 1024" using assms by simp
  have "979968 + n div 1024 = n div 1024 + 957 * 1024" by simp
  then have "(979968 + n div 1024) mod 1024 = n div 1024" using n by (simp only: mod_mult_self1 mod_less)
  then show "PDX (UVPT + 4 * of_nat n) = 957" "PTX (UVPT + 4 * of_nat n) = n div 1024"
    using p n by (simp_all add: PDX_div PTX_mod)
  have "unat (PGOFF (UVPT + 4 * of_nat n)) = unat (UVPT + 4 * of_nat n) mod 4096"
    by (simp add: PGOFF_def mask_numerals(2) unsigned_take_bit_eq take_bit_eq_mod unat_mod flip: take_bit_eq_mask)
  also have "\<dots> = (4 * n + 979968 * 4096) mod 4096" using u by (simp add: add.commute)
  also have "\<dots> = (4 * n) mod (4 * 1024)" by (simp only: mod_mult_self1) simp
  also have "\<dots> = 4 * (n mod 1024)" by (rule mult_mod_right [symmetric])
  finally show "unat (PGOFF (UVPT + 4 * of_nat n)) div 4 = n mod 1024" by simp
qed

lemma page_index: "n < 2 ^ 20 \<Longrightarrow> PDX (of_nat n * PGSIZE) = n div 1024 \<and> PTX (of_nat n * PGSIZE) = n mod 1024"
  using PGNUM_page [of n] by (simp add: PDX_div PTX_mod)

lemma uvpt_exec:
  assumes c: "curenv s = Some c" "env_pgdir (envs s c) = Some d"
    and d: "user_dir s d" "self_mapped s d" and n: "n < PGNUM UTOP" "pmem s d (n div 1024) \<noteq> 0"
  shows "uvpt n s = (Inr (upte s d (of_nat n * PGSIZE)), s)"
proof -
  have n': "n < 2 ^ 20" "n div 1024 < 955" using n(1) by (simp_all add: PGNUM_div)
  note a = uvpt_addr [OF n'(1)]
  have "grants (pmem s d (n div 1024)) False" using d(1) n(2) n'(2) grants_read by (auto simp: user_dir_def)
  then have "mmu s d (UVPT + 4 * of_nat n) False = Some (PGNUM (pmem s d (n div 1024)))"
    using d(2) a by (simp add: mmu_def self_mapped_def PDX_div PGNUM_div)
  from uload_exec [OF c this] show ?thesis
    using a(3) n(2) page_index [OF n'(1)] by (simp add: uvpt_def upte_def)
qed


section \<open>Two address spaces\<close>

text \<open>What an insertion into \<open>d\<close> writes, the directory and its tables for user memory, is no part of \<open>d'\<close>.\<close>

definition dirs_apart :: "kst \<Rightarrow> nat \<Rightarrow> nat \<Rightarrow> bool" where
  "dirs_apart s d d' \<longleftrightarrow> d \<noteq> d' \<and> (\<forall>j < 1024. pmem s d' j \<noteq> 0 \<longrightarrow> PGNUM (pmem s d' j) \<noteq> d)
     \<and> (\<forall>i < 955. pmem s d i \<noteq> 0 \<longrightarrow> PGNUM (pmem s d i) \<noteq> d'
          \<and> (\<forall>j < 1024. pmem s d' j \<noteq> 0 \<longrightarrow> PGNUM (pmem s d' j) \<noteq> PGNUM (pmem s d i)))"

lemma insert_other_space:
  assumes sp: "address_space s fl d'" "dirs_apart s d d'" and va: "va < UTOP"
    and s': "address_space s' fl' d" "set fl' \<subseteq> set fl" "same_envs s s'"
    and other: "\<And>q. q \<noteq> d \<Longrightarrow> q \<notin> set fl \<Longrightarrow> pmem s d (PDX va) = 0 \<or> q \<noteq> PGNUM (pmem s d (PDX va)) \<Longrightarrow> pmem s' q = pmem s q"
  shows "address_space s' fl' d'" "pmem s' d' = pmem s d'" "upte s' d' a = upte s d' a"
    "data_page s fl d' q \<Longrightarrow> data_page s' fl' d' q"
proof -
  have wf: "wf_pgdir s fl d'" using sp by (simp add: address_space_def)
  note pd = PDX_below_UTOP [OF va]
  have d': "d' \<noteq> d" "d' \<notin> set fl" using sp(2) wf by (auto simp: dirs_apart_def wf_pgdir_def)
  have "pmem s d (PDX va) = 0 \<or> d' \<noteq> PGNUM (pmem s d (PDX va))" using sp(2) pd by (auto simp: dirs_apart_def)
  then show dir: "pmem s' d' = pmem s d'" by (rule other [OF d'])
  have tab: "pmem s' (PGNUM (pmem s d' j)) = pmem s (PGNUM (pmem s d' j))" if "j < 1024" "pmem s d' j \<noteq> 0" for j
    by (rule other) (use that sp(2) wf pd in \<open>auto simp: dirs_apart_def wf_pgdir_def\<close>)
  have n: "npages s' = npages s" using s'(3) by (simp add: same_envs_def)
  show "upte s' d' a = upte s d' a" using tab by (simp add: upte_def dir)
  show "data_page s fl d' q \<Longrightarrow> data_page s' fl' d' q" using s'(2) by (auto simp: data_page_def dir n)
  show "address_space s' fl' d'"
    using sp(1) s'(1,2) by (auto simp: address_space_def wf_pgdir_def user_dir_def self_mapped_def dir n)
qed

lemma dirs_apart_insert:
  assumes "dirs_apart s d d'" "dirs_apart s d' d" "address_space s fl d'" "free_pages s fl" "pmem s' d' = pmem s d'"
    and "pmem s' d = (if pmem s d (PDX va) \<noteq> 0 then pmem s d else (pmem s d)(PDX va := new_pde (hd fl)))"
    and "pmem s d (PDX va) \<noteq> 0 \<or> fl \<noteq> []" "va < UTOP"
  shows "dirs_apart s' d d'" "dirs_apart s' d' d"
proof -
  have x: "hd fl < 2 ^ 20 \<and> hd fl \<noteq> d' \<and> (\<forall>j < 1024. pmem s d' j \<noteq> 0 \<longrightarrow> PGNUM (pmem s d' j) \<noteq> hd fl)
      \<and> (\<forall>j < 955. pmem s d' j \<noteq> 0 \<longrightarrow> PGNUM (pmem s d' j) \<noteq> hd fl)" if "fl \<noteq> []"
    using that assms(3,4) by (cases fl) (auto simp: address_space_def free_pages_def wf_pgdir_def)
  show "dirs_apart s' d d'" "dirs_apart s' d' d"
    using assms(1,2,7) x PDX_below_UTOP [OF assms(8)]
    by (auto simp: dirs_apart_def assms(5,6) PGNUM_new_pde split: if_splits)
qed

end
