(* ===== verification/UserLib.thy ===== *)
theory UserLib
  imports UserMem
begin

text \<open>
  The user library (lib/syscall.c, lib/pgfault.c, lib/fork.c, lib/ipc.c, lib/thread.c): the stubs of the
  system calls, copy-on-write fork, message passing and threads, as programs that run in the current
  environment.

  \<^item> A system call of the library is the kernel's \<open>syscall\<close>; the trap around it (theory Trap) saves and
    restores the caller. A call that blocks leaves the program (\<open>Inl\<close>); what the library does when it
    is resumed is a definition of its own.
  \<^item> A panic of the library ends the program.
  \<^item> Addresses of functions (\<open>pgfault\<close>, \<open>_pgfault_upcall\<close>, \<open>exit\<close>) are parameters.
\<close>

section \<open>Stubs (lib/syscall.c)\<close>

definition sysnum :: "syscallno \<Rightarrow> u32" where
  "sysnum n = of_nat (length (takeWhile (\<lambda>m. m \<noteq> n) syscall_list))"

definition user_syscall :: "syscallno \<Rightarrow> bool \<Rightarrow> u32 \<Rightarrow> u32 \<Rightarrow> u32 \<Rightarrow> u32 \<Rightarrow> u32 \<Rightarrow> u32 K" where
  "user_syscall num check a1 a2 a3 a4 a5 = bnd (syscall (sysnum num) a1 a2 a3 a4 a5) (\<lambda>r.
     if check \<and> 0 <s r then panic ''syscall %d returned %d (> 0)'' else ret r)"

definition u_cputs :: "u32 \<Rightarrow> u32 \<Rightarrow> u32 K" where
  "u_cputs s len = user_syscall SYS_cputs False s len 0 0 0"

definition u_cgetc :: "u32 K" where
  "u_cgetc = user_syscall SYS_cgetc False 0 0 0 0 0"

definition u_env_destroy :: "u32 \<Rightarrow> u32 K" where
  "u_env_destroy envid = user_syscall SYS_env_destroy True envid 0 0 0 0"

definition u_getenvid :: "u32 K" where
  "u_getenvid = user_syscall SYS_getenvid False 0 0 0 0 0"

definition u_yield :: "u32 K" where
  "u_yield = user_syscall SYS_yield False 0 0 0 0 0"

definition u_page_alloc :: "u32 \<Rightarrow> u32 \<Rightarrow> u32 \<Rightarrow> u32 K" where
  "u_page_alloc envid va perm = user_syscall SYS_page_alloc True envid va perm 0 0"

definition u_page_map :: "u32 \<Rightarrow> u32 \<Rightarrow> u32 \<Rightarrow> u32 \<Rightarrow> u32 \<Rightarrow> u32 K" where
  "u_page_map srcenv srcva dstenv dstva perm = user_syscall SYS_page_map True srcenv srcva dstenv dstva perm"

definition u_page_unmap :: "u32 \<Rightarrow> u32 \<Rightarrow> u32 K" where
  "u_page_unmap envid va = user_syscall SYS_page_unmap True envid va 0 0 0"

definition u_exofork :: "u32 K" where
  "u_exofork = user_syscall SYS_exofork False 0 0 0 0 0"

definition u_env_set_status :: "u32 \<Rightarrow> u32 \<Rightarrow> u32 K" where
  "u_env_set_status envid status = user_syscall SYS_env_set_status True envid status 0 0 0"

definition u_env_set_pgfault_upcall :: "u32 \<Rightarrow> u32 \<Rightarrow> u32 K" where
  "u_env_set_pgfault_upcall envid upcall = user_syscall SYS_env_set_pgfault_upcall True envid upcall 0 0 0"

definition u_ipc_try_send :: "u32 \<Rightarrow> u32 \<Rightarrow> u32 \<Rightarrow> u32 \<Rightarrow> u32 K" where
  "u_ipc_try_send envid val srcva perm = user_syscall SYS_ipc_try_send False envid val srcva perm 0"

definition u_ipc_recv :: "u32 \<Rightarrow> u32 K" where
  "u_ipc_recv dstva = user_syscall SYS_ipc_recv True dstva 0 0 0 0"

definition u_sleep :: "u32 \<Rightarrow> u32 K" where
  "u_sleep n = user_syscall SYS_sleep True n 0 0 0 0"

definition u_getpriority :: "u32 \<Rightarrow> u32 K" where
  "u_getpriority envid = user_syscall SYS_getpriority False envid 0 0 0 0"

definition u_setpriority :: "u32 \<Rightarrow> u32 \<Rightarrow> u32 K" where
  "u_setpriority envid priority = user_syscall SYS_setpriority True envid priority 0 0 0"

definition u_thread_create :: "u32 \<Rightarrow> u32 \<Rightarrow> u32 K" where
  "u_thread_create entry ustack_top = user_syscall SYS_thread_create False entry ustack_top 0 0 0"

text \<open>The error check that follows almost every call of the library.\<close>

definition or_panic :: "u32 K \<Rightarrow> string \<Rightarrow> unit K" where
  "or_panic m msg = bnd m (\<lambda>r. if r <s 0 then panic msg else ret ())"

section \<open>Page faults (lib/pgfault.c)\<close>

text \<open>The result is the new value of \<open>_pgfault_handler\<close>.\<close>

definition set_pgfault_handler :: "u32 \<Rightarrow> u32 \<Rightarrow> u32 \<Rightarrow> u32 K" where
  "set_pgfault_handler upcall current handler =
     (if current = 0 then
        bnd (u_page_alloc 0 (UXSTACKTOP - PGSIZE) (PTE_U OR PTE_P OR PTE_W)) (\<lambda>r.
        if r <s 0 then ret current
        else bnd (u_env_set_pgfault_upcall 0 upcall) (\<lambda>r.
        if r <s 0 then ret current else ret handler))
      else ret handler)"

section \<open>Fork (lib/fork.c)\<close>

definition PTE_COW :: u32 where [simp]: "PTE_COW = 0x800"

text \<open>\<open>(err & FEC_WR) & !(fault_pte & PTE_COW)\<close>: the negation is 0 or 1.\<close>

definition lnot :: "u32 \<Rightarrow> u32" where
  "lnot w = (if w = 0 then 1 else 0)"

definition pgfault :: "u32 \<Rightarrow> u32 \<Rightarrow> unit K" where
  "pgfault va e = bnd (uvpt (PGNUM va)) (\<lambda>fault_pte.
     if (e AND FEC_WR) AND lnot (fault_pte AND PTE_COW) \<noteq> 0
     then panic ''pgfault: write fault on a non COW page''
     else let perm = PTE_P OR PTE_U OR PTE_W; addr = ROUNDDOWN va PGSIZE in
       thn (or_panic (u_page_alloc 0 PFTEMP perm) ''pgfault: sys_page_alloc: %e'')
       (thn (copy_page PFTEMP addr)
       (thn (or_panic (u_page_map 0 PFTEMP 0 addr perm) ''pgfault: sys_page_map: %e'')
       (or_panic (u_page_unmap 0 PFTEMP) ''pgfault: sys_page_unmap: %e''))))"

definition io_perm :: "u32 \<Rightarrow> u32 \<Rightarrow> u32" where
  "io_perm pte perm = (if pte AND (PTE_PCD OR PTE_PWT) \<noteq> 0 then perm OR (PTE_PCD OR PTE_PWT) else perm)"

definition duppage :: "u32 \<Rightarrow> nat \<Rightarrow> u32 K" where
  "duppage envid pn = (let addr = of_nat pn * PGSIZE in bnd (uvpt pn) (\<lambda>pte.
     if pte AND PTE_P = 0 \<or> pte AND PTE_U = 0
     then panic ''duppage: copy a non-present or non-user page''
     else let perm = io_perm pte (PTE_U OR PTE_P) in
       thn (if pte AND PTE_W \<noteq> 0 \<or> pte AND PTE_COW \<noteq> 0
            then thn (or_panic (u_page_map 0 addr envid addr (perm OR PTE_COW)) ''duppage: sys_page_map on childern COW: %e'')
                 (or_panic (u_page_map 0 addr 0 addr (perm OR PTE_COW)) ''duppage: sys_page_map on parent COW: %e'')
            else or_panic (u_page_map 0 addr envid addr perm) ''duppage: sys_page_map on childern RO: %e'')
       (ret 0)))"

definition dup_or_share :: "u32 \<Rightarrow> nat \<Rightarrow> u32 \<Rightarrow> unit K" where
  "dup_or_share envid pnum perm0 = (let addr = of_nat pnum * PGSIZE in bnd (uvpt pnum) (\<lambda>pte.
     if pte AND PTE_P = 0 then ret ()
     else let perm = io_perm pte ((perm0 AND (pte AND PTE_W)) AND PTE_SYSCALL) in
       if pte AND PTE_W = 0 \<or> pte AND (PTE_PCD OR PTE_PWT) \<noteq> 0
       then or_panic (u_page_map 0 addr envid addr perm) ''dup_or_share: sys_page_map: %e''
       else thn (or_panic (u_page_alloc envid addr perm) ''dup_or_share: sys_page_alloc: %e'')
            (thn (or_panic (u_page_map envid addr 0 UTEMP perm) ''dup_or_share: sys_page_map: %e'')
            (thn (copy_page UTEMP addr)
            (or_panic (u_page_unmap 0 UTEMP) ''sys_page_unmap: %e'')))))"

text \<open>
  The parent's side of both forks: \<open>pages\<close> below UTOP in a loop, then the child is made ready. In the
  child sys\_exofork returns 0, and all it does is to look up \<open>thisenv\<close>.
\<close>

definition fork_v0_page :: "u32 \<Rightarrow> nat \<Rightarrow> unit K" where
  "fork_v0_page envid pnum = bnd (uvpd (pnum div 1024)) (\<lambda>pde.
     if pde AND PTE_P = 0 \<or> pde AND PTE_U = 0 then ret ()
     else dup_or_share envid pnum (PTE_P OR PTE_U OR PTE_W))"

definition child_thisenv :: "nat K" where
  "child_thisenv = bnd u_getenvid (\<lambda>id. ret (ENVX id))"

definition fork_v0 :: "u32 K" where
  "fork_v0 = bnd u_exofork (\<lambda>envid.
     if envid <s 0 then panic ''sys_exofork: %e''
     else if envid = 0 then thn child_thisenv (ret 0)
     else thn (for_each [0..<PGNUM UTOP] (fork_v0_page envid))
          (thn (or_panic (u_env_set_status envid (status_num ENV_RUNNABLE)) ''sys_env_set_status: %e'')
          (ret envid)))"

definition fork_page :: "u32 \<Rightarrow> nat \<Rightarrow> unit K" where
  "fork_page envid pnum =
     (if pnum = PGNUM UXSTACKTOP - 1 then ret ()
      else bnd (uvpd (pnum div 1024)) (\<lambda>pde.
        if pde AND PTE_P = 0 \<or> pde AND PTE_U = 0 then ret ()
        else bnd (uvpt pnum) (\<lambda>pte.
          if pte AND PTE_P = 0 \<or> pte AND PTE_U = 0 then ret ()
          else thn (duppage envid pnum) (ret ()))))"

definition fork :: "u32 \<Rightarrow> u32 \<Rightarrow> u32 \<Rightarrow> (u32 \<times> u32) K" where
  "fork upcall current pgfault_addr = bnd (set_pgfault_handler upcall current pgfault_addr) (\<lambda>handler.
     bnd u_exofork (\<lambda>envid.
     if envid <s 0 then panic ''sys_exofork: %e''
     else if envid = 0 then thn child_thisenv (ret (0, handler))
     else thn (for_each [0..<PGNUM UTOP] (fork_page envid))
       (thn (or_panic (u_page_alloc envid (UXSTACKTOP - PGSIZE) (PTE_U OR PTE_P OR PTE_W)) ''fork: sys_page_alloc of exception stk: %e'')
       (bnd (bnd the_curenv (\<lambda>c. gets (\<lambda>s. env_pgfault_upcall (envs s c)))) (\<lambda>up.
        thn (or_panic (u_env_set_pgfault_upcall envid up) ''fork: sys_env_set_pgfault_upcall on childern: %e'')
       (thn (or_panic (u_env_set_status envid (status_num ENV_RUNNABLE)) ''sys_env_set_status: %e'')
       (ret (envid, handler))))))))"

definition sfork :: "u32 K" where
  "sfork = panic ''sfork not implemented''"

section \<open>Messages (lib/ipc.c)\<close>

text \<open>
  ipc\_recv after sys\_ipc\_recv has come back with \<open>r\<close>: the result, and what is stored for the sender
  and the permission (the arguments say whether the caller wants them); \<open>v\<close> is \<open>*thisenv\<close>.
\<close>

definition ipc_recv_done :: "bool \<Rightarrow> bool \<Rightarrow> Env \<Rightarrow> u32 \<Rightarrow> u32 \<times> u32 option \<times> u32 option" where
  "ipc_recv_done from_store perm_store v r =
     ((if r = 0 then env_ipc_value v else r),
      (if from_store then Some (if r = 0 then env_ipc_from v else 0) else None),
      (if perm_store then Some (if r = 0 then env_ipc_perm v else 0) else None))"

text \<open>
  ipc\_send: between two attempts the sender yields and other environments run. \<open>ss\<close> are the states in
  which its attempts start, the first that finds the receiver waiting (or fails otherwise) ends the call;
  \<open>None\<close> says that it has not ended with the last of them.
\<close>

definition ipc_send_pg :: "u32 \<Rightarrow> u32" where
  "ipc_send_pg pg = (if pg = 0 then UTOP else pg)"

fun ipc_send_tries :: "u32 \<Rightarrow> u32 \<Rightarrow> u32 \<Rightarrow> u32 \<Rightarrow> kst list \<Rightarrow> ((kexit + u32) \<times> kst) option" where
  "ipc_send_tries to_env val pg perm [] = None"
| "ipc_send_tries to_env val pg perm (s # ss) =
     (let r = u_ipc_try_send to_env val (ipc_send_pg pg) perm s in
      if fst r = Inr (err E_IPC_NOT_RECV) then ipc_send_tries to_env val pg perm ss
      else Some (case r of (Inr v, s') \<Rightarrow> if v <s 0 then panic ''ipc_send: %e'' s' else (Inr v, s')
                 | (Inl e, s') \<Rightarrow> (Inl e, s')))"

definition ipc_find_env :: "kst \<Rightarrow> EnvType \<Rightarrow> u32" where
  "ipc_find_env s ty = (case List.find (\<lambda>i. env_type (envs s i) = ty) [0..<NENV] of
     Some i \<Rightarrow> env_id (envs s i) | None \<Rightarrow> 0)"

section \<open>Threads (lib/thread.c)\<close>

definition THREAD_STACK_SIZE :: u32 where [simp]: "THREAD_STACK_SIZE = PGSIZE"
definition THREAD_STACK_PAGES :: nat where [simp]: "THREAD_STACK_PAGES = unat (THREAD_STACK_SIZE div PGSIZE)"
definition THREAD_STACK_STRIDE :: u32 where [simp]: "THREAD_STACK_STRIDE = THREAD_STACK_SIZE + PGSIZE"

definition THREAD_STACK_TOP :: "u32 \<Rightarrow> u32" where
  "THREAD_STACK_TOP n = USTACKTOP - 2 * PGSIZE - n * THREAD_STACK_STRIDE"

definition THREAD_STACK_BASE :: "u32 \<Rightarrow> u32" where
  "THREAD_STACK_BASE n = THREAD_STACK_TOP n - THREAD_STACK_SIZE"

definition unmap_stack :: "u32 \<Rightarrow> nat list \<Rightarrow> unit K" where
  "unmap_stack base is = for_each is (\<lambda>i. thn (u_page_unmap 0 (base + of_nat i * PGSIZE)) (ret ()))"

fun alloc_stack :: "u32 \<Rightarrow> nat list \<Rightarrow> u32 K" where
  "alloc_stack base [] = ret 0"
| "alloc_stack base (i # is) =
     bnd (u_page_alloc 0 (base + of_nat i * PGSIZE) (PTE_P OR PTE_U OR PTE_W)) (\<lambda>r.
     if r <s 0 then thn (unmap_stack base (rev [0..<i])) (ret r) else alloc_stack base is)"

text \<open>The result is the id or error, and the new value of \<open>nthreads\<close>.\<close>

definition thread_create :: "u32 \<Rightarrow> u32 \<Rightarrow> u32 \<Rightarrow> u32 \<Rightarrow> (u32 \<times> u32) K" where
  "thread_create exit_addr nthreads func arg =
     (let base = THREAD_STACK_BASE nthreads; top = THREAD_STACK_TOP nthreads in
      bnd (alloc_stack base [0..<THREAD_STACK_PAGES]) (\<lambda>r.
      if r <s 0 then ret (r, nthreads)
      else thn (ustore (top - 4) arg)
        (thn (ustore (top - 8) exit_addr)
        (bnd (u_thread_create func (top - 8)) (\<lambda>tid.
         if tid <s 0 then thn (unmap_stack base [0..<THREAD_STACK_PAGES]) (ret (tid, nthreads))
         else ret (tid, nthreads + 1))))))"


section \<open>The calls on memory that succeed\<close>

lemma syscall_of_sysnum [simp]: "syscall_of (sysnum n) = Some n"
  by (cases n) (simp_all add: sysnum_def syscall_of_def syscall_list_def)

lemma user_syscall_zero: "syscall (sysnum n) a1 a2 a3 a4 a5 s = (Inr 0, s') \<Longrightarrow> user_syscall n chk a1 a2 a3 a4 a5 s = (Inr 0, s')"
  by (simp add: user_syscall_def bnd_def)

lemma or_panic_zero: "m s = (Inr 0, s') \<Longrightarrow> or_panic m msg s = (Inr (), s')"
  by (simp add: or_panic_def bnd_def)

lemma u_zero:
  "sys_page_alloc envid va perm s = (Inr 0, s') \<Longrightarrow> u_page_alloc envid va perm s = (Inr 0, s')"
  "sys_page_map envid va envid' va' perm s = (Inr 0, s') \<Longrightarrow> u_page_map envid va envid' va' perm s = (Inr 0, s')"
  "sys_page_unmap envid va s = (Inr 0, s') \<Longrightarrow> u_page_unmap envid va s = (Inr 0, s')"
  by (simp_all add: u_page_alloc_def u_page_map_def u_page_unmap_def user_syscall_zero syscall_def)

lemma page_alloc_space:
  assumes "address_space s (f # fl) d"
  shows "address_space (page_alloc_post ALLOC_ZERO f s) fl d" "data_page (page_alloc_post ALLOC_ZERO f s) fl d f"
    "upte (page_alloc_post ALLOC_ZERO f s) d a = upte s d a"
    "same_envs s (page_alloc_post ALLOC_ZERO f s)"
proof -
  have fp: "free_pages s (f # fl)" and wf: "wf_pgdir s (f # fl) d" using assms by (auto simp: address_space_def)
  have n: "d \<noteq> f" "f < npages s" "f \<notin> set fl" using fp wf by (auto simp: free_pages_def wf_pgdir_def list_rep_def)
  have t: "PGNUM (pmem s d i) \<noteq> f" if "i < 1024" "pmem s d i \<noteq> 0" for i using wf that by (auto simp: wf_pgdir_def)
  show "address_space (page_alloc_post ALLOC_ZERO f s) fl d"
    using assms free_pages_alloc_post [OF fp, of ALLOC_ZERO] n
    by (auto simp: address_space_def wf_pgdir_def user_dir_def self_mapped_def)
  show "data_page (page_alloc_post ALLOC_ZERO f s) fl d f" using n t by (auto simp: data_page_def)
  show "upte (page_alloc_post ALLOC_ZERO f s) d a = upte s d a" using n t by (auto simp: upte_def)
  show "same_envs s (page_alloc_post ALLOC_ZERO f s)" by (simp add: same_envs_def)
qed

lemma check_perm_ok: "perm AND NOT PTE_SYSCALL = 0 \<Longrightarrow> check_perm (perm OR PTE_U OR PTE_P) None = 0"
proof -
  assume a: "perm AND NOT PTE_SYSCALL = 0"
  have "(perm OR PTE_U OR PTE_P) AND NOT PTE_SYSCALL = (perm AND NOT PTE_SYSCALL) OR ((PTE_U OR PTE_P) AND NOT PTE_SYSCALL)"
    by (simp only: bit.conj_disj_distrib2 or.assoc)
  then have 1: "(perm OR PTE_U OR PTE_P) AND NOT PTE_SYSCALL = 0" unfolding a by simp
  have "bit ((perm OR PTE_U OR PTE_P) AND PTE_P) 0" "bit ((perm OR PTE_U OR PTE_P) AND PTE_U) 2"
    by (simp_all add: bit_simps)
  then have "(perm OR PTE_U OR PTE_P) AND PTE_P \<noteq> 0" "(perm OR PTE_U OR PTE_P) AND PTE_U \<noteq> 0"
    by (auto simp del: PTE_P_def PTE_U_def)
  with 1 show ?thesis by (simp add: check_perm_def del: PTE_P_def PTE_U_def PTE_SYSCALL_def)
qed

lemma sys_page_alloc_effect:
  assumes env: "env_table s xs" "curenv s = Some c" "target s c envid True = Some e" "env_pgdir (envs s e) = Some d"
    and sp: "address_space s (f # fl) d" and va: "\<not> bad_va va" "wf_mapped s (f # fl) d va"
    and mem: "pmem s d (PDX va) \<noteq> 0 \<or> fl \<noteq> []" and perm: "perm AND NOT PTE_SYSCALL = 0"
  obtains s' fl' where "sys_page_alloc envid va perm s = (Inr 0, s')" "address_space s' fl' d" "data_page s' fl' d f"
    "\<And>a. a < UTOP \<Longrightarrow> upte s' d a = (if PGNUM a = PGNUM va then page2pa f OR (perm OR PTE_U OR PTE_P) OR PTE_P else upte s d a)"
    "set fl' \<subseteq> set fl \<union> freed s d va f" "f \<notin> set fl"
    "\<And>q. q \<noteq> d \<Longrightarrow> q \<notin> set (f # fl) \<Longrightarrow> pmem s d (PDX va) = 0 \<or> q \<noteq> PGNUM (pmem s d (PDX va)) \<Longrightarrow> pmem s' q = pmem s q"
    "\<And>q. data_page s (f # fl) d q \<Longrightarrow> q \<notin> freed s d va f \<Longrightarrow> data_page s' fl' d q"
    "same_envs s s'" "pmem s' d (PDX va) \<noteq> 0" "\<And>i. pmem s d i \<noteq> 0 \<Longrightarrow> pmem s' d i = pmem s d i"
proof -
  let ?s = "page_alloc_post ALLOC_ZERO f s"
  note sp' = page_alloc_space [OF sp]
  have fp: "free_pages s (f # fl)" and wf: "wf_pgdir s (f # fl) d" using sp by (auto simp: address_space_def)
  have n: "d \<noteq> f" "f < npages s" "f \<notin> set fl" using fp wf by (auto simp: free_pages_def wf_pgdir_def list_rep_def)
  have u: "va < UTOP" using va(1) by (simp add: bad_va_def not_le)
  have dp: "data_page ?s fl d q" if "data_page s (f # fl) d q" for q using that n by (auto simp: data_page_def)
  have fr: "freed ?s d va f = freed s d va f" unfolding freed_def sp'(3) by auto
  have m: "wf_mapped ?s fl d va" using va(2) dp unfolding wf_mapped_def sp'(3) by blast
  have mem': "pmem ?s d (PDX va) \<noteq> 0 \<or> fl \<noteq> []" using mem n by simp
  obtain s' fl' where r: "page_insert (Some d) f va (perm OR PTE_U OR PTE_P) ?s = (Inr 0, s')" "address_space s' fl' d"
    "\<And>a. a < UTOP \<Longrightarrow> upte s' d a = (if PGNUM a = PGNUM va then page2pa f OR (perm OR PTE_U OR PTE_P) OR PTE_P else upte ?s d a)"
    "set fl' \<subseteq> set fl \<union> freed ?s d va f"
    "\<And>q. q \<noteq> d \<Longrightarrow> q \<notin> set fl \<Longrightarrow> pmem ?s d (PDX va) = 0 \<or> q \<noteq> PGNUM (pmem ?s d (PDX va)) \<Longrightarrow> pmem s' q = pmem ?s q"
    "\<And>q. data_page ?s fl d q \<Longrightarrow> q \<notin> freed ?s d va f \<Longrightarrow> data_page s' fl' d q"
    "same_envs ?s s'" "pmem s' d (PDX va) \<noteq> 0" "\<And>i. pmem ?s d i \<noteq> 0 \<Longrightarrow> pmem s' d i = pmem ?s d i"
    by (rule address_space_insert [OF sp'(1) u m sp'(2) mem', of "perm OR PTE_U OR PTE_P"]) blast
  have "f \<notin> freed s d va f" using va(2) by (auto simp: freed_def wf_mapped_def data_page_def Let_def split: if_splits)
  then have fd: "data_page s' fl' d f" using r(6) sp'(2) fr by blast
  have "sys_page_alloc envid va perm s = page_insert (Some d) f va (perm OR PTE_U OR PTE_P) ?s"
    using va(1) env(4) page_alloc_exec [OF fp, of ALLOC_ZERO] check_perm_ok [OF perm]
    by (simp add: sys_page_alloc_def on_env_exec [OF env(1,2)] env(3) env_page_alloc_def env_pgdir_of_def bnd_def
      del: PTE_P_def PTE_U_def PTE_SYSCALL_def)
  then show thesis
    using that [of s' fl'] r fd n sp'(3,4) dp fr same_envs_trans [OF sp'(4) r(7)]
    by (simp del: UTOP_def PTE_P_def PTE_U_def)
qed


section \<open>Copy on write\<close>

lemma lnot_and [simp]: "(e AND FEC_WR) AND lnot w = 0"
proof -
  have "(2 :: u32) AND 1 = 0" by simp
  then have "(e AND 2) AND 1 = (0 :: u32)" by (metis and.assoc and_zero_eq)
  then show ?thesis by (simp add: lnot_def)
qed

lemma PFTEMP_page: "PDX PFTEMP = 1" "\<not> bad_va PFTEMP" "PFTEMP < UTOP" "unat PFTEMP mod 4096 = 0"
  by (simp_all add: bad_va_def PDX_div PGNUM_div)

lemma ROUNDDOWN_page:
  assumes "va < UTOP"
  shows "PGNUM (ROUNDDOWN va PGSIZE) = PGNUM va" "\<not> bad_va (ROUNDDOWN va PGSIZE)" "unat (ROUNDDOWN va PGSIZE) mod 4096 = 0"
    "ROUNDDOWN va PGSIZE < UTOP"
proof -
  have u: "unat (ROUNDDOWN va PGSIZE) = PGNUM va * 4096" unfolding ROUNDDOWN_PGSIZE by (rule unat_PTE_ADDR)
  then show "PGNUM (ROUNDDOWN va PGSIZE) = PGNUM va" "unat (ROUNDDOWN va PGSIZE) mod 4096 = 0" by (simp_all add: PGNUM_div)
  have "unat va < unat UTOP" using assms by (simp add: word_less_nat_alt)
  then have "PGNUM va * 4096 < unat UTOP" by (simp add: PGNUM_div)
  then show lt: "ROUNDDOWN va PGSIZE < UTOP" using u by (simp add: word_less_nat_alt)
  have "unat (ROUNDDOWN va PGSIZE mod PGSIZE) = 0" using u by (simp add: unat_mod)
  then show "\<not> bad_va (ROUNDDOWN va PGSIZE)" using lt by (simp add: bad_va_def not_le unat_eq_0)
qed

text \<open>What pgfault needs of the state: a page of the program at \<open>va\<close>, nothing at PFTEMP, two free frames.\<close>

definition cow_ready :: "kst \<Rightarrow> nat list \<Rightarrow> nat \<Rightarrow> u32 \<Rightarrow> bool" where
  "cow_ready s fl d va \<longleftrightarrow> address_space s fl d \<and> 2 \<le> length fl \<and> va < UTOP \<and> PGNUM va \<noteq> PGNUM PFTEMP
     \<and> grants (upte s d va) False \<and> wf_mapped s fl d va \<and> upte s d PFTEMP = 0"


lemma private_entry:
  assumes "p < 2 ^ 20"
  shows "PGNUM (page2pa p OR 7) = p" "grants (page2pa p OR 7) w" "page2pa p OR 7 \<noteq> 0"
proof -
  show "PGNUM (page2pa p OR 7) = p" using PGNUM_entry [OF assms, of 7] by (simp add: page2pa_def)
  have "(page2pa p OR 7) AND 7 = 7" by (rule bit_word_eqI) (auto simp: bit_simps)
  then have "grants (page2pa p OR 7) True" by (simp add: grants_def)
  then show "grants (page2pa p OR 7) w" by (rule grants_any)
  then show "page2pa p OR 7 \<noteq> 0" using grants_zero by metis
qed

text \<open>A store to a page of data leaves the address space as it is.\<close>

lemma store_data_page:
  assumes "address_space s fl d" "data_page s fl d g"
  shows "address_space (s\<lparr>pmem := (pmem s)(g := v)\<rparr>) fl d" "upte (s\<lparr>pmem := (pmem s)(g := v)\<rparr>) d a = upte s d a"
    "data_page (s\<lparr>pmem := (pmem s)(g := v)\<rparr>) fl d q = data_page s fl d q"
    "same_envs s (s\<lparr>pmem := (pmem s)(g := v)\<rparr>)"
proof -
  have g: "g \<noteq> d" "\<And>i. i < 1024 \<Longrightarrow> pmem s d i \<noteq> 0 \<Longrightarrow> PGNUM (pmem s d i) \<noteq> g"
    using assms(2) by (auto simp: data_page_def)
  show "address_space (s\<lparr>pmem := (pmem s)(g := v)\<rparr>) fl d"
    using assms(1) g(1) by (simp add: address_space_def wf_pgdir_def user_dir_def self_mapped_def)
  show "upte (s\<lparr>pmem := (pmem s)(g := v)\<rparr>) d a = upte s d a" using g by (auto simp: upte_def)
  show "data_page (s\<lparr>pmem := (pmem s)(g := v)\<rparr>) fl d q = data_page s fl d q" using g(1) by (simp add: data_page_def)
  show "same_envs s (s\<lparr>pmem := (pmem s)(g := v)\<rparr>)" by (simp add: same_envs_def)
qed

text \<open>The middle of pgfault: the faulting page is copied to a fresh frame at PFTEMP.\<close>

lemma pgfault_copy:
  assumes env: "env_table s xs" "curenv s = Some c" "env_pgdir (envs s c) = Some d" and ready: "cow_ready s (f # fl) d va"
  obtains s2 fl2 where
    "\<And>k :: unit K. thn (or_panic (u_page_alloc 0 PFTEMP 7) msg) (thn (copy_page PFTEMP (ROUNDDOWN va PGSIZE)) k) s = k s2"
    "address_space s2 fl2 d" "data_page s2 fl2 d f" "data_page s2 fl2 d (PGNUM (upte s d va))" "PGNUM (upte s d va) \<noteq> f"
    "\<And>a. a < UTOP \<Longrightarrow> upte s2 d a = (if PGNUM a = PGNUM PFTEMP then page2pa f OR 7 else upte s d a)"
    "\<And>i. i < 1024 \<Longrightarrow> pmem s2 f i = pmem s (PGNUM (upte s d va)) i"
    "pmem s2 (PGNUM (upte s d va)) = pmem s (PGNUM (upte s d va))"
    "same_envs s s2" "pmem s2 d (PDX va) \<noteq> 0" "f < 2 ^ 20"
proof -
  let ?addr = "ROUNDDOWN va PGSIZE" and ?old = "PGNUM (upte s d va)"
  have sp: "address_space s (f # fl) d" and fl: "fl \<noteq> []" and va: "va < UTOP" "PGNUM va \<noteq> PGNUM PFTEMP"
    and gr: "grants (upte s d va) False" and m: "wf_mapped s (f # fl) d va" and z: "upte s d PFTEMP = 0"
    using ready by (auto simp: cow_ready_def)
  have nz: "upte s d va \<noteq> 0" using gr grants_zero by metis
  have old: "data_page s (f # fl) d ?old" using m nz by (simp add: wf_mapped_def)
  have f20: "f < 2 ^ 20" using sp by (auto simp: address_space_def free_pages_def)
  note R = ROUNDDOWN_page [OF va(1)]
  have pd: "pmem s d (PDX va) \<noteq> 0" using nz by (auto simp: upte_def split: if_splits)
  have mt: "wf_mapped s (f # fl) d PFTEMP" using z by (simp add: wf_mapped_def)
  have fr: "freed s d PFTEMP f = {}" using z by (simp add: freed_def)
  obtain s1 fl1 where r: "sys_page_alloc 0 PFTEMP 7 s = (Inr 0, s1)" "address_space s1 fl1 d" "data_page s1 fl1 d f"
    "\<And>a. a < UTOP \<Longrightarrow> upte s1 d a = (if PGNUM a = PGNUM PFTEMP then page2pa f OR (7 OR PTE_U OR PTE_P) OR PTE_P else upte s d a)"
    "\<And>q. q \<noteq> d \<Longrightarrow> q \<notin> set (f # fl) \<Longrightarrow> pmem s d (PDX PFTEMP) = 0 \<or> q \<noteq> PGNUM (pmem s d (PDX PFTEMP)) \<Longrightarrow> pmem s1 q = pmem s q"
    "\<And>q. data_page s (f # fl) d q \<Longrightarrow> q \<notin> freed s d PFTEMP f \<Longrightarrow> data_page s1 fl1 d q"
    "same_envs s s1" "\<And>i. pmem s d i \<noteq> 0 \<Longrightarrow> pmem s1 d i = pmem s d i"
    by (rule sys_page_alloc_effect [OF env(1,2) target_self env(3) sp PFTEMP_page(2) mt, of 7]) (use fl in auto)
  have u1: "upte s1 d a = (if PGNUM a = PGNUM PFTEMP then page2pa f OR 7 else upte s d a)" if "a < UTOP" for a
    using r(4) [OF that] by (simp add: or.assoc)
  have "pmem s d (PDX PFTEMP) = 0 \<or> ?old \<noteq> PGNUM (pmem s d (PDX PFTEMP))"
    using old PDX_less [of PFTEMP] unfolding data_page_def by metis
  then have "pmem s1 ?old = pmem s ?old" using r(5) [of ?old] old unfolding data_page_def by blast
  then have old1: "data_page s1 fl1 d ?old" "?old \<noteq> f" "pmem s1 ?old = pmem s ?old"
    using r(6) [OF old] fr old by (auto simp: data_page_def)
  have ud: "user_dir s1 d" using r(2) by (simp add: address_space_def)
  have ua: "upte s1 d ?addr = upte s d va" using u1 [OF R(4)] R(1) va(2) upte_PGNUM [OF R(1), of s d] by simp
  have m1: "mmu s1 d ?addr False = Some ?old" using mmu_upte [OF ud R(4), of False] gr ua by simp
  have m2: "mmu s1 d PFTEMP True = Some f"
    using mmu_upte [OF ud PFTEMP_page(3), of True] u1 [OF PFTEMP_page(3)] private_entry [OF f20] by simp
  have tab: "f \<noteq> d" "pmem s1 d i \<noteq> 0 \<Longrightarrow> i < 1024 \<Longrightarrow> f \<noteq> PGNUM (pmem s1 d i)" for i
    using r(3) by (auto simp: data_page_def)
  have p1: "pmem s1 d (PDX ?addr) \<noteq> 0" "pmem s1 d (PDX PFTEMP) \<noteq> 0" "pmem s1 d (PDX va) \<noteq> 0"
    using m1 m2 r(8) [OF pd] pd grants_zero by (auto simp: mmu_def split: if_splits)
  let ?s2 = "s1\<lparr>pmem := (pmem s1)(f := (\<lambda>i. if i < 1024 then pmem s1 ?old i else pmem s1 f i))\<rparr>"
  have cp: "copy_page PFTEMP ?addr s1 = (Inr (), ?s2)"
    by (rule copy_page_exec [OF _ _ m1 m2 R(3) PFTEMP_page(4) old1(2) tab(1) tab(2) [OF p1(1)] tab(2) [OF p1(2)]])
      (use env r(7) in \<open>auto simp: same_envs_def\<close>)
  have al: "or_panic (u_page_alloc 0 PFTEMP 7) msg s = (Inr (), s1)"
    by (rule or_panic_zero, rule u_zero(1), rule r(1))
  have run: "thn (or_panic (u_page_alloc 0 PFTEMP 7) msg) (thn (copy_page PFTEMP ?addr) k) s = k ?s2" for k :: "unit K"
    by (simp only: thn_def bnd_def al cp prod.case sum.case)
  note st = store_data_page [OF r(2,3)]
  show thesis
    by (rule that [OF run st(1)])
      (use st old1 r(3) u1 p1(3) tab(1) f20 same_envs_trans [OF r(7) st(4)] in auto)
qed


lemma pgfault_private:
  assumes env: "env_table s xs" "curenv s = Some c" "env_pgdir (envs s c) = Some d" and ready: "cow_ready s (f # fl) d va"
  shows "\<exists>s' fl'. pgfault va e s = (Inr (), s') \<and> address_space s' fl' d \<and> same_envs s s'
    \<and> (\<forall>a < UTOP. upte s' d a = (if PGNUM a = PGNUM va then page2pa f OR 7 else upte s d a))
    \<and> (\<forall>i < 1024. pmem s' f i = pmem s (PGNUM (upte s d va)) i)
    \<and> PGNUM (upte s d va) \<noteq> f \<and> pmem s' (PGNUM (upte s d va)) = pmem s (PGNUM (upte s d va))"
proof -
  let ?addr = "ROUNDDOWN va PGSIZE" and ?old = "PGNUM (upte s d va)"
  obtain s2 fl2 where c: "\<And>k :: unit K. thn (or_panic (u_page_alloc 0 PFTEMP 7) ''pgfault: sys_page_alloc: %e'')
      (thn (copy_page PFTEMP ?addr) k) s = k s2"
    "address_space s2 fl2 d" "data_page s2 fl2 d f" "data_page s2 fl2 d ?old" "?old \<noteq> f"
    "\<And>a. a < UTOP \<Longrightarrow> upte s2 d a = (if PGNUM a = PGNUM PFTEMP then page2pa f OR 7 else upte s d a)"
    "\<And>i. i < 1024 \<Longrightarrow> pmem s2 f i = pmem s ?old i" "pmem s2 ?old = pmem s ?old"
    "same_envs s s2" "pmem s2 d (PDX va) \<noteq> 0" "f < 2 ^ 20"
    using pgfault_copy [OF assms, of "''pgfault: sys_page_alloc: %e''"] by (metis (no_types, lifting))
  have sp: "address_space s (f # fl) d" and va: "va < UTOP" "PGNUM va \<noteq> PGNUM PFTEMP"
    and gr: "grants (upte s d va) False" and z: "upte s d PFTEMP = 0"
    using ready by (auto simp: cow_ready_def)
  note R = ROUNDDOWN_page [OF va(1)]
  note P = private_entry [OF c(11)]
  have pdx: "PDX ?addr = PDX va" using R(1) by (simp add: PDX_div)
  have env2: "env_table s2 xs" "curenv s2 = Some c" "env_pgdir (envs s2 c) = Some d"
    using env same_envs_table [OF c(9) env(1)] c(9) by (auto simp: same_envs_def)
  have u2: "upte s2 d PFTEMP = page2pa f OR 7" "upte s2 d ?addr = upte s d va"
    using c(6) [OF PFTEMP_page(3)] c(6) [OF R(4)] R(1) va(2) upte_PGNUM [OF R(1), of s d] by auto
  have wf2: "wf_pgdir s2 fl2 d" using c(2) by (simp add: address_space_def)
  have m2: "wf_mapped s2 fl2 d PFTEMP" "wf_mapped s2 fl2 d ?addr" using u2 c(3,4) P by (simp_all add: wf_mapped_def)
  obtain s3 fl3 where i: "page_insert (Some d) f ?addr (PTE_P OR PTE_U OR 7) s2 = (Inr 0, s3)" "address_space s3 fl3 d"
    "\<And>a. a < UTOP \<Longrightarrow> upte s3 d a = (if PGNUM a = PGNUM ?addr then page2pa f OR (PTE_P OR PTE_U OR 7) OR PTE_P else upte s2 d a)"
    "set fl3 \<subseteq> set fl2 \<union> freed s2 d ?addr f"
    "\<And>q. q \<noteq> d \<Longrightarrow> q \<notin> set fl2 \<Longrightarrow> pmem s2 d (PDX ?addr) = 0 \<or> q \<noteq> PGNUM (pmem s2 d (PDX ?addr)) \<Longrightarrow> pmem s3 q = pmem s2 q"
    "\<And>q. data_page s2 fl2 d q \<Longrightarrow> q \<notin> freed s2 d ?addr f \<Longrightarrow> data_page s3 fl3 d q"
    "same_envs s2 s3" "\<And>j. pmem s2 d j \<noteq> 0 \<Longrightarrow> pmem s3 d j = pmem s2 d j"
    by (rule address_space_insert [OF c(2) R(4) m2(2) c(3), of "PTE_P OR PTE_U OR 7"]) (use c(10) pdx in auto)
  have data: "pmem s3 q = pmem s2 q" if "data_page s2 fl2 d q" for q
    using i(5) [of q] that PDX_less [of ?addr] unfolding data_page_def by metis
  have "f \<notin> freed s2 d ?addr f" using c(5) u2 by (auto simp: freed_def)
  then have f3: "data_page s3 fl3 d f" using i(6) c(3) by blast
  have map: "sys_page_map 0 PFTEMP 0 ?addr 7 s2 = (Inr 0, s3)"
  proof -
    have "(7 AND PTE_W) AND NOT (PTE_W AND upte s2 d PFTEMP) = 0"
      unfolding u2(1) by (rule bit_word_eqI) (auto simp: bit_simps)
    moreover have "upte s2 d PFTEMP \<noteq> 0" "PGNUM (upte s2 d PFTEMP) = f" using u2(1) P by simp_all
    ultimately show ?thesis
      using page_map_exec [OF env2(1,2) target_self env2(3) target_self env2(3) PFTEMP_page(2) R(2) wf2 m2(1), of 7] i(1)
      by (simp only: if_False if_True simp_thms)
  qed
  have u3: "upte s3 d a = (if PGNUM a = PGNUM va then page2pa f OR 7 else upte s2 d a)" if "a < UTOP" for a
    using i(3) [OF that] R(1) by (simp add: or.assoc)
  have z3: "upte s3 d PFTEMP = page2pa f OR 7" using u3 [OF PFTEMP_page(3)] u2(1) va(2) by simp
  have m3: "wf_mapped s3 fl3 d PFTEMP" using z3 f3 P by (simp add: wf_mapped_def)
  obtain s4 fl4 where d: "page_remove (Some d) PFTEMP s3 = (Inr (), s4)" "address_space s4 fl4 d"
    "\<And>a. a < UTOP \<Longrightarrow> upte s4 d a = (if PGNUM a = PGNUM PFTEMP then 0 else upte s3 d a)"
    "\<And>q. pmem s3 d (PDX PFTEMP) = 0 \<or> q \<noteq> PGNUM (pmem s3 d (PDX PFTEMP)) \<Longrightarrow> pmem s4 q = pmem s3 q"
    "same_envs s3 s4"
    by (rule address_space_remove [OF i(2) PFTEMP_page(3) m3]) blast
  have env3: "env_table s3 xs" "curenv s3 = Some c" "env_pgdir (envs s3 c) = Some d"
    using env2 same_envs_table [OF i(7) env2(1)] i(7) by (auto simp: same_envs_def)
  have unmap: "sys_page_unmap 0 PFTEMP s3 = (Inr 0, s4)"
    using PFTEMP_page(2) d(1) env3(3)
    by (simp add: sys_page_unmap_def on_env_exec [OF env3(1,2)] target_self env_pgdir_of_def thn_Inr del: PFTEMP_def)
  have steps: "or_panic (u_page_map 0 PFTEMP 0 ?addr 7) msg s2 = (Inr (), s3)"
    "or_panic (u_page_unmap 0 PFTEMP) msg s3 = (Inr (), s4)" for msg
    by (rule or_panic_zero, rule u_zero(2), rule map) (rule or_panic_zero, rule u_zero(3), rule unmap)
  have n: "PGNUM va < PGNUM UTOP" "pmem s d (PGNUM va div 1024) \<noteq> 0"
    using PDX_below_UTOP [OF va(1)] gr grants_zero by (auto simp: PDX_div PGNUM_div upte_def split: if_splits)
  have "uvpt (PGNUM va) s = (Inr (upte s d (of_nat (PGNUM va) * PGSIZE)), s)"
    by (rule uvpt_exec [OF env(2,3) _ _ n]) (use sp in \<open>simp_all add: address_space_def\<close>)
  moreover have "(PTE_P :: u32) OR PTE_U OR PTE_W = 7" by simp
  ultimately have "pgfault va e s = (Inr (), s4)"
    unfolding pgfault_def
    by (simp only: bnd_Inr lnot_and simp_thms if_False Let_def c(1)) (simp only: thn_def bnd_def steps prod.case sum.case)
  moreover have "upte s4 d a = (if PGNUM a = PGNUM va then page2pa f OR 7 else upte s d a)" if "a < UTOP" for a
    using d(3) [OF that] u3 [OF that] c(6) [OF that] z upte_PGNUM [of a PFTEMP s d] va(2) by auto
  moreover have "pmem s4 q = pmem s2 q" if q: "data_page s2 fl2 d q" for q
  proof -
    have nz: "pmem s2 d (PDX PFTEMP) \<noteq> 0" using u2(1) P by (auto simp: upte_def split: if_splits)
    then have "q \<noteq> PGNUM (pmem s3 d (PDX PFTEMP))"
      using q PDX_less [of PFTEMP] i(8) [OF nz] unfolding data_page_def by metis
    then show ?thesis using d(4) data [OF q] by simp
  qed
  ultimately show ?thesis
    using d(2) c(3-5,7,8) same_envs_trans [OF same_envs_trans [OF c(9) i(7)] d(5)]
    by (intro exI [of _ s4] exI [of _ fl4]) auto
qed


section \<open>duppage\<close>

lemma page2pa_low: "page2pa p AND 0xFFF = 0"
  by (rule bit_word_eqI) (auto simp: page2pa_def mask_numerals bit_simps)

lemma flags_of:
  assumes "p < 2 ^ 20" "flags AND NOT 0xFFF = 0"
  shows "PGNUM (page2pa p OR flags) = p" "m AND NOT 0xFFF = 0 \<Longrightarrow> (page2pa p OR flags) AND m = flags AND m"
proof -
  show "PGNUM (page2pa p OR flags) = p" using PGNUM_entry [OF assms] by (simp add: page2pa_def)
  assume m: "m AND NOT 0xFFF = 0"
  have "(m AND 0xFFF) OR (m AND NOT 0xFFF) = m AND (0xFFF OR NOT 0xFFF)" by (rule bit.conj_disj_distrib [symmetric])
  also have "\<dots> = m" by (simp only: bit.disj_cancel_right and.right_neutral)
  finally have m': "m = m AND 0xFFF" unfolding m by (simp only: or.right_neutral)
  have "(page2pa p OR flags) AND m = (page2pa p AND m) OR (flags AND m)" by (rule bit.conj_disj_distrib2)
  also have "page2pa p AND m = 0"
    by (subst m') (simp only: and.commute [of m] and.assoc [symmetric] page2pa_low, simp)
  finally show "(page2pa p OR flags) AND m = flags AND m" by simp
qed


text \<open>The flags a shared page gets: present, user, those of device memory, and copy-on-write for a page
  that could be written (or that is copy-on-write already).\<close>

definition dup_flags :: "u32 \<Rightarrow> u32" where
  "dup_flags w = (if w AND (PTE_PCD OR PTE_PWT) \<noteq> 0 then PTE_PCD OR PTE_PWT else 0) OR PTE_U OR PTE_P
     OR (if w AND PTE_W \<noteq> 0 \<or> w AND PTE_COW \<noteq> 0 then PTE_COW else 0)"

lemma dup_entry:
  assumes "p < 2 ^ 20"
  shows "PGNUM (page2pa p OR dup_flags w) = p" "\<not> grants (page2pa p OR dup_flags w) True"
    "grants (page2pa p OR dup_flags w) False" "page2pa p OR dup_flags w \<noteq> 0"
    "(page2pa p OR dup_flags w) AND PTE_COW = dup_flags w AND PTE_COW"
proof -
  have f: "dup_flags w AND NOT 0xFFF = 0" "dup_flags w AND 7 = 5" "dup_flags w AND 5 = 5"
    by (simp_all add: dup_flags_def)
  note F = flags_of [OF assms f(1)]
  show "PGNUM (page2pa p OR dup_flags w) = p" by (rule F(1))
  have "(page2pa p OR dup_flags w) AND 7 = 5" "(page2pa p OR dup_flags w) AND 5 = 5"
    using F(2) [of 7] F(2) [of 5] f by simp_all
  then show "\<not> grants (page2pa p OR dup_flags w) True" and g: "grants (page2pa p OR dup_flags w) False"
    by (simp_all add: grants_def)
  show "page2pa p OR dup_flags w \<noteq> 0" using g grants_zero by metis
  show "(page2pa p OR dup_flags w) AND PTE_COW = dup_flags w AND PTE_COW" using F(2) [of PTE_COW] by simp
qed

lemma dup_map:
  assumes env: "env_table s xs" "curenv s = Some c" "env_pgdir (envs s c) = Some d"
    and dst: "target s c envid True = Some e" "env_pgdir (envs s e) = Some dd"
    and a: "a < UTOP" "a mod PGSIZE = 0" and wf: "wf_pgdir s fl d" "wf_mapped s fl d a" "upte s d a \<noteq> 0"
    and p: "perm AND PTE_W = 0"
    and run: "page_insert (Some dd) (PGNUM (upte s d a)) a (PTE_P OR PTE_U OR perm) s = (Inr 0, s')"
  shows "or_panic (u_page_map 0 a envid a perm) msg s = (Inr (), s')"
proof (rule or_panic_zero, rule u_zero(2))
  have b: "\<not> bad_va a" using a by (simp add: bad_va_def not_le)
  have "(perm AND PTE_W) AND NOT (PTE_W AND upte s d a) = 0" unfolding p by simp
  then show "sys_page_map 0 a envid a perm s = (Inr 0, s')"
    using page_map_exec [OF env(1,2) target_self env(3) dst b b wf(1,2), of perm] wf(3) run
    by (simp only: if_False if_True simp_thms)
qed


text \<open>
  Two address spaces in one state: that of the parent, \<open>d\<close>, and that of the child, \<open>dd\<close>.
\<close>

definition spaces :: "kst \<Rightarrow> nat list \<Rightarrow> nat \<Rightarrow> nat \<Rightarrow> bool" where
  "spaces s fl d dd \<longleftrightarrow> address_space s fl d \<and> address_space s fl dd \<and> dirs_apart s d dd \<and> dirs_apart s dd d"

lemma spaces_sym: "spaces s fl d dd = spaces s fl dd d"
  by (auto simp: spaces_def)

text \<open>An insertion into one of them that gives no frame back.\<close>

lemma spaces_insert:
  assumes sp: "spaces s fl d dd" and a: "a < UTOP" "wf_mapped s fl d a" and p: "data_page s fl d p"
    and mem: "pmem s d (PDX a) \<noteq> 0 \<or> fl \<noteq> []" and fr: "freed s d a p = {}"
  obtains s' fl' where "page_insert (Some d) p a perm s = (Inr 0, s')" "spaces s' fl' d dd"
    "\<And>b. b < UTOP \<Longrightarrow> upte s' d b = (if PGNUM b = PGNUM a then page2pa p OR perm OR PTE_P else upte s d b)"
    "\<And>b. upte s' dd b = upte s dd b" "\<And>q. data_page s fl d q \<Longrightarrow> data_page s' fl' d q"
    "\<And>q. data_page s fl dd q \<Longrightarrow> data_page s' fl' dd q" "same_envs s s'" "pmem s' dd = pmem s dd"
    "\<And>i. pmem s d i \<noteq> 0 \<Longrightarrow> pmem s' d i = pmem s d i"
    "\<And>q. data_page s fl d q \<Longrightarrow> pp_ref (pages s' q) = pp_ref (pages s q) + (if q = p then 1 else 0)
       - (if upte s d a \<noteq> 0 \<and> PGNUM (upte s d a) = q then 1 else 0)"
proof -
  have as: "address_space s fl d" "address_space s fl dd" "dirs_apart s d dd" "dirs_apart s dd d"
    using sp by (auto simp: spaces_def)
  have fp: "free_pages s fl" "wf_pgdir s fl d" using as(1) by (auto simp: address_space_def)
  obtain s' fl' where r: "page_insert (Some d) p a perm s = (Inr 0, s')" "address_space s' fl' d"
    "\<And>b. b < UTOP \<Longrightarrow> upte s' d b = (if PGNUM b = PGNUM a then page2pa p OR perm OR PTE_P else upte s d b)"
    "set fl' \<subseteq> set fl"
    "\<And>q. q \<noteq> d \<Longrightarrow> q \<notin> set fl \<Longrightarrow> pmem s d (PDX a) = 0 \<or> q \<noteq> PGNUM (pmem s d (PDX a)) \<Longrightarrow> pmem s' q = pmem s q"
    "\<And>q. data_page s fl d q \<Longrightarrow> data_page s' fl' d q"
    "same_envs s s'" "\<And>i. pmem s d i \<noteq> 0 \<Longrightarrow> pmem s' d i = pmem s d i"
    "pmem s' d = (if pmem s d (PDX a) \<noteq> 0 then pmem s d else (pmem s d)(PDX a := new_pde (hd fl)))"
    by (rule address_space_insert [OF as(1) a p mem, of perm]) (use fr in blast)
  note o = insert_other_space [OF as(2,3) a(1) r(2,4,7,5)]
  have "spaces s' fl' d dd"
    using dirs_apart_insert [OF as(3,4,2) fp(1) o(2) r(9) mem a(1)] r(2) o(1) by (simp add: spaces_def)
  then show thesis
    using that [OF r(1) _ r(3) o(3) r(6) o(4) r(7) o(2) r(8)]
      page_insert_refs [OF fp a(2) PDX_below_UTOP [OF a(1)] p mem r(1)] by blast
qed

lemma duppage_shared:
  assumes env: "env_table s xs" "curenv s = Some c" "env_pgdir (envs s c) = Some d"
    and dst: "target s c envid True = Some e" "env_pgdir (envs s e) = Some dd"
    and sp: "spaces s fl d dd" and n: "n < PGNUM UTOP"
    and w: "w = upte s d (of_nat n * PGSIZE)" "grants w False" "wf_mapped s fl d (of_nat n * PGSIZE)"
    and dw: "data_page s fl dd (PGNUM w)" "upte s dd (of_nat n * PGSIZE) = 0" "pmem s dd (n div 1024) \<noteq> 0 \<or> fl \<noteq> []"
    and ref: "pp_ref (pages s (PGNUM w)) + 1 \<noteq> 0"
  shows "\<exists>s' fl'. duppage envid n s = (Inr 0, s') \<and> spaces s' fl' d dd \<and> same_envs s s'
    \<and> (\<forall>b < UTOP. upte s' dd b = (if PGNUM b = n then page2pa (PGNUM w) OR dup_flags w else upte s dd b))
    \<and> (\<forall>b < UTOP. upte s' d b = (if PGNUM b = n \<and> (w AND PTE_W \<noteq> 0 \<or> w AND PTE_COW \<noteq> 0)
         then page2pa (PGNUM w) OR dup_flags w else upte s d b))"
proof -
  let ?a = "of_nat n * PGSIZE :: u32" and ?p = "PGNUM w"
  let ?perm = "io_perm w (PTE_U OR PTE_P)"
  let ?sh = "w AND PTE_W \<noteq> 0 \<or> w AND PTE_COW \<noteq> 0"
  have n20: "n < 2 ^ 20" using n by (simp add: PGNUM_div)
  have ua: "unat ?a = n * 4096" by (rule unat_page [OF n20])
  have a: "?a < UTOP" "?a mod PGSIZE = 0" "PGNUM ?a = n"
    using ua n PGNUM_page [OF n20] by (simp_all add: word_less_nat_alt PGNUM_div flip: unat_eq_0 unat_mod) (simp add: unat_eq_0 [symmetric] unat_mod)
  note pi = page_index [OF n20]
  have as: "address_space s fl d" "address_space s fl dd" using sp by (auto simp: spaces_def)
  have wfd: "wf_pgdir s fl d" "user_dir s d" "self_mapped s d" using as(1) by (auto simp: address_space_def)
  have nz: "w \<noteq> 0" using w(2) grants_zero by metis
  have pde: "pmem s d (PDX ?a) \<noteq> 0" using nz w(1) by (auto simp: upte_def split: if_splits)
  have p20: "?p < 2 ^ 20" by (rule PGNUM_less)
  have dp: "data_page s fl d ?p" using w(1,3) nz by (simp add: wf_mapped_def)
  have uv: "uvpt n s = (Inr w, s)" using uvpt_exec [OF env(2,3) wfd(2,3) n] pde pi w(1) by simp
  have "w AND 5 = 5" using w(2) by (simp add: grants_def)
  then have "(w AND 1) = 1" "(w AND 4) = 4" using and.assoc [of w 5 1] and.assoc [of w 5 4] by simp_all
  then have present: "w AND PTE_P \<noteq> 0" "w AND PTE_U \<noteq> 0" by simp_all
  let ?perm1 = "if ?sh then ?perm OR PTE_COW else ?perm"
  have flags: "(PTE_P OR PTE_U OR ?perm1) OR PTE_P = dup_flags w" and nw: "?perm1 AND PTE_W = 0"
    by (cases ?sh; cases "w AND (PTE_PCD OR PTE_PWT) \<noteq> 0"; simp add: io_perm_def dup_flags_def)+
  have entry: "page2pa ?p OR (PTE_P OR PTE_U OR ?perm1) OR PTE_P = page2pa ?p OR dup_flags w"
    unfolding or.assoc [of "page2pa ?p"] flags by (rule refl)
  have m0: "wf_mapped s fl dd ?a" "freed s dd ?a ?p = {}" using dw(2) by (simp_all add: wf_mapped_def freed_def)
  have mem: "pmem s dd (PDX ?a) \<noteq> 0 \<or> fl \<noteq> []" using dw(3) pi by simp
  obtain s1 fl1 where r: "page_insert (Some dd) ?p ?a (PTE_P OR PTE_U OR ?perm1) s = (Inr 0, s1)" "spaces s1 fl1 dd d"
    "\<And>b. b < UTOP \<Longrightarrow> upte s1 dd b = (if PGNUM b = PGNUM ?a then page2pa ?p OR (PTE_P OR PTE_U OR ?perm1) OR PTE_P else upte s dd b)"
    "\<And>b. upte s1 d b = upte s d b" "\<And>q. data_page s fl d q \<Longrightarrow> data_page s1 fl1 d q" "same_envs s s1" "pmem s1 d = pmem s d"
    "\<And>q. data_page s fl dd q \<Longrightarrow> pp_ref (pages s1 q) = pp_ref (pages s q) + (if q = ?p then 1 else 0)
       - (if upte s dd ?a \<noteq> 0 \<and> PGNUM (upte s dd ?a) = q then 1 else 0)"
    by (rule spaces_insert [OF sp [unfolded spaces_sym [of s fl d]] a(1) m0(1) dw(1) mem m0(2), of "PTE_P OR PTE_U OR ?perm1"]) blast
  have u1: "upte s1 dd b = (if PGNUM b = n then page2pa ?p OR dup_flags w else upte s dd b)" if "b < UTOP" for b
    using r(3) [OF that] unfolding entry a(3) .
  have step1: "or_panic (u_page_map 0 ?a envid ?a ?perm1) msg s = (Inr (), s1)" for msg
    by (rule dup_map [OF env dst a(1,2) wfd(1) w(3) _ nw]) (use nz w(1) r(1) in simp_all)
  have body: "duppage envid n s = thn (if ?sh
            then thn (or_panic (u_page_map 0 ?a envid ?a (?perm OR PTE_COW)) ''duppage: sys_page_map on childern COW: %e'')
                 (or_panic (u_page_map 0 ?a 0 ?a (?perm OR PTE_COW)) ''duppage: sys_page_map on parent COW: %e'')
            else or_panic (u_page_map 0 ?a envid ?a ?perm) ''duppage: sys_page_map on childern RO: %e'') (ret 0) s"
    using present by (simp only: duppage_def Let_def bnd_def uv prod.case sum.case simp_thms if_False)
  show ?thesis
  proof (cases ?sh)
    case False
    have "duppage envid n s = (Inr 0, s1)"
      unfolding body using step1 False by (simp only: if_False thn_Inr ret_exec)
    moreover have "upte s1 d b = (if PGNUM b = n \<and> ?sh then page2pa ?p OR dup_flags w else upte s d b)" for b
      using False r(4) by (simp only: simp_thms if_False)
    moreover have "spaces s1 fl1 d dd" using r(2) spaces_sym [of s1 fl1 dd d] by (rule iffD1 [rotated])
    ultimately show ?thesis using r(6) u1 by blast
  next
    case True
    have dp1: "data_page s1 fl1 d ?p" by (rule r(5) [OF dp])
    have u: "upte s1 d ?a = w" using r(4) [of ?a] w(1) by simp
    have m1: "wf_mapped s1 fl1 d ?a" unfolding wf_mapped_def u using dp1 by blast
    have ref1: "pp_ref (pages s1 ?p) = pp_ref (pages s ?p) + 1" using r(8) [OF dw(1)] dw(2) by simp
    have fr: "freed s1 d ?a ?p = {}" unfolding freed_def Let_def u using ref ref1 by (simp add: add.commute)
    have mem1: "pmem s1 d (PDX ?a) \<noteq> 0 \<or> fl1 \<noteq> []" using pde r(7) by simp
    obtain s2 fl2 where t: "page_insert (Some d) ?p ?a (PTE_P OR PTE_U OR ?perm1) s1 = (Inr 0, s2)" "spaces s2 fl2 d dd"
      "\<And>b. b < UTOP \<Longrightarrow> upte s2 d b = (if PGNUM b = PGNUM ?a then page2pa ?p OR (PTE_P OR PTE_U OR ?perm1) OR PTE_P else upte s1 d b)"
      "\<And>b. upte s2 dd b = upte s1 dd b" "same_envs s1 s2"
      by (rule spaces_insert [OF r(2) [unfolded spaces_sym [of s1 fl1 dd]] a(1) m1 dp1 mem1 fr, of "PTE_P OR PTE_U OR ?perm1"]) blast
    have u2: "upte s2 d b = (if PGNUM b = n \<and> ?sh then page2pa ?p OR dup_flags w else upte s d b)" if "b < UTOP" for b
      using t(3) [OF that] True unfolding entry a(3) r(4) by simp
    have env1: "env_table s1 xs" "curenv s1 = Some c" "env_pgdir (envs s1 c) = Some d"
      using same_envs_table [OF r(6) env(1)] env r(6) by (simp_all add: same_envs_def)
    have wf1: "wf_pgdir s1 fl1 d" using r(2) by (simp add: spaces_def address_space_def)
    have step2: "or_panic (u_page_map 0 ?a 0 ?a ?perm1) msg s1 = (Inr (), s2)" for msg
      by (rule dup_map [OF env1 target_self env1(3) a(1,2) wf1 m1 _ nw]) (use nz u t(1) in simp_all)
    have "duppage envid n s = (Inr 0, s2)"
      unfolding body using step1 step2 True by (simp only: if_True thn_def bnd_def prod.case sum.case ret_exec)
    moreover have "upte s2 dd b = (if PGNUM b = n then page2pa ?p OR dup_flags w else upte s dd b)" if "b < UTOP" for b
      unfolding t(4) by (rule u1 [OF that])
    ultimately show ?thesis using t(2) u2 same_envs_trans [OF r(6) t(5)] by blast
  qed
qed


section \<open>Message passing and thread stacks\<close>

definition message_waits :: "kst \<Rightarrow> u32 \<Rightarrow> bool \<Rightarrow> bool" where
  "message_waits s envid recving \<longleftrightarrow> (\<exists>xs c e. env_table s xs \<and> curenv s = Some c \<and> target s c envid False = Some e
     \<and> env_ipc_recving (envs s e) = recving)"

lemma u_ipc_try_send_exec:
  assumes "env_table s xs" "curenv s = Some c" "target s c envid False = Some e"
  shows "u_ipc_try_send envid val UTOP perm s = (if \<not> env_ipc_recving (envs s e) then (Inr (err E_IPC_NOT_RECV), s)
        else (Inr 0, upd_env e (\<lambda>v. v\<lparr>env_ipc_perm := 0, env_ipc_from := env_id (envs s c),
               env_ipc_recving := False, env_ipc_value := val, env_tf := set_eax 0 (env_tf v),
               env_status := ENV_RUNNABLE\<rparr>) s))"
  using ipc_send_exec [OF assms(1,2), of UTOP envid val perm] assms(3)
  by (simp add: u_ipc_try_send_def user_syscall_def syscall_def bnd_def)

lemma ipc_send_retries:
  assumes "\<And>t. t \<in> set ss \<Longrightarrow> message_waits t envid False"
  shows "ipc_send_tries envid val 0 perm (ss @ ts) = ipc_send_tries envid val 0 perm ts"
  using assms
proof (induction ss)
  case (Cons t ss)
  then have "fst (u_ipc_try_send envid val UTOP perm t) = Inr (err E_IPC_NOT_RECV)"
    using u_ipc_try_send_exec [of t _ _ envid _ val perm] by (force simp: message_waits_def)
  then show ?case using Cons by (simp add: ipc_send_pg_def)
qed simp

lemma PGNUM_stack: "n < 400000 \<Longrightarrow> PGNUM (THREAD_STACK_BASE (of_nat n)) = 977915 - 2 * n"
proof -
  assume n: "n < 400000"
  have "THREAD_STACK_BASE (of_nat n) = 0xEEBFB000 - of_nat (8192 * n)"
    by (simp add: THREAD_STACK_BASE_def THREAD_STACK_TOP_def)
  moreover have "unat (of_nat (8192 * n) :: u32) = 8192 * n" using n by (simp only: unat_of_nat) simp
  ultimately have "unat (THREAD_STACK_BASE (of_nat n)) = 4005539840 - 8192 * n"
    using n by (simp add: unat_sub word_le_nat_alt)
  also have "\<dots> = 4096 * (977915 - 2 * n)" by simp
  finally show ?thesis by (simp add: PGNUM_div)
qed

section \<open>Properties\<close>

text \<open>C18: the page fault handler of fork: after it, the faulting page (after a fork, a copy-on-write page that
  is written) is a fresh private frame, present, writable and not copy-on-write any more, with the same
  contents, the temporary mapping is gone, every other address of the program is as before, and the old
  frame, which others may share, is untouched. The theorem needs no hypothesis on the error code or on the
  COW bit, because the code does not look at them: its test, which a comment means to panic on a write to a
  page that is not copy-on-write, never fires (fork.c:28), so that such a page too, a read-only one included,
  is silently replaced by a writable copy.\<close>

theorem pgfault_private_copy:
  assumes "env_table s xs" "curenv s = Some c" "env_pgdir (envs s c) = Some d" "cow_ready s (f # fl) d va"
  shows "\<exists>s' fl'. pgfault va e s = (Inr (), s') \<and> address_space s' fl' d \<and> same_envs s s'
    \<and> (\<forall>a < UTOP. upte s' d a = (if PGNUM a = PGNUM va then page2pa f OR 7 else upte s d a))
    \<and> (\<forall>i < 1024. pmem s' f i = pmem s (PGNUM (upte s d va)) i)
    \<and> PGNUM (upte s d va) \<noteq> f \<and> pmem s' (PGNUM (upte s d va)) = pmem s (PGNUM (upte s d va))"
  by (rule pgfault_private [OF assms])

lemma map_kst_space: "address_space map_kst [3, 2, 1] 6"
  using map_kst_wf(2,3) by (auto simp: address_space_def user_dir_def self_mapped_def grants_def PGNUM_div PDX_div)

text \<open>The same program after a fork: its page is mapped read-only and copy-on-write.\<close>

definition cow_kst :: kst where
  "cow_kst = map_kst\<lparr>pmem := (pmem map_kst)(4 := (\<lambda>_. 0)(0 := 0x7805))\<rparr>"

lemma cow_kst_simps [simp]:
  "curenv cow_kst = Some 0" "env_pgdir (envs cow_kst 0) = Some 6" "npages cow_kst = 8"
  "pmem cow_kst 6 = (\<lambda>i. if i = 2 then 0x4007 else if i = 957 then 0x6005 else 0)"
  "pmem cow_kst 4 = (\<lambda>_. 0)(0 := 0x7805)"
  by (simp_all add: cow_kst_def curenv_def [symmetric] fun_eq_iff)

lemma cow_kst_wf:
  "env_table cow_kst [2..<NENV]" "address_space cow_kst [3, 2, 1] 6"
  "upte cow_kst 6 0x800000 = 0x7805" "upte cow_kst 6 0x801000 = 0" "data_page cow_kst [3, 2, 1] 6 7"
proof -
  show "env_table cow_kst [2..<NENV]"
    using map_kst_wf(1) by (subst env_table_fields [where s = map_kst]) (auto simp: cow_kst_def)
  have "free_pages cow_kst [3, 2, 1]" using map_kst_wf(2) by (simp add: cow_kst_def)
  then show "address_space cow_kst [3, 2, 1] 6"
    by (auto simp: address_space_def wf_pgdir_def user_dir_def self_mapped_def grants_def PGNUM_div PDX_div)
qed (auto simp: upte_def data_page_def PGNUM_div PDX_div PTX_mod)

theorem pgfault_private_copy_witness:
  "\<exists>s'. pgfault 0x800010 2 cow_kst = (Inr (), s') \<and> upte s' 6 0x800FFC = 0x3007 \<and> upte s' 6 0x801000 = 0"
proof -
  have pg: "PGNUM 0x800010 = PGNUM 0x800000" "PGNUM 0x800010 = PGNUM 0x800FFC" "PGNUM 0x801000 \<noteq> PGNUM 0x800010"
    by (simp_all add: PGNUM_div)
  then have u: "upte cow_kst 6 0x800010 = 0x7805" using cow_kst_wf(3) upte_PGNUM by metis
  have z: "upte cow_kst 6 PFTEMP = 0" by (simp add: upte_def PDX_div PGNUM_div)
  have "cow_ready cow_kst [3, 2, 1] 6 0x800010"
    using cow_kst_wf(2,5) u z
    by (simp add: cow_ready_def wf_mapped_def grants_def PGNUM_div)
  from pgfault_private_copy [OF cow_kst_wf(1) cow_kst_simps(1,2) this, of 2] obtain s' where
    r: "pgfault 0x800010 2 cow_kst = (Inr (), s')"
    "\<And>a. a < UTOP \<Longrightarrow> upte s' 6 a = (if PGNUM a = PGNUM 0x800010 then page2pa 3 OR 7 else upte cow_kst 6 a)" by blast
  show ?thesis
    using r(1) r(2) [of "0x800FFC"] r(2) [of "0x801000"] pg cow_kst_wf(4) by (simp add: page2pa_def)
qed


text \<open>The same process with its child's address space, frame 5.\<close>

lemma map_kst_child:
  "pmem map_kst 5 = (\<lambda>i. if i = 957 then 0x5005 else 0)" "env_pgdir (envs map_kst (Suc 0)) = Some 5"
  by (auto simp: map_kst_def sys_kst_def alloc_pmem page2pa_def init_env_def)

lemma page_init_refs:
  "pp_ref (pages s p) = 0 \<Longrightarrow> pp_ref (pages (fold (page_init_step f) xs s) p) = 0"
proof (induction xs arbitrary: s)
  case (Cons i xs)
  have "pp_ref (pages (page_init_step f i s) p) = 0"
    using Cons.prems by (auto simp: page_init_step_def page_push_def upd_page_def)
  then show ?case using Cons.IH by simp
qed simp

lemma map_kst_refs: "pp_ref (pages map_kst 7) = 0"
proof -
  have "pp_ref (pages boot_kst 7) = 0"
    by (simp add: boot_kst_def env_init_def env_init_fold pages_kst_def page_init_def page_init_refs zero_kst_def)
  then show ?thesis
    by (simp add: map_kst_def sys_kst_def alloc_post_def setup_post_def page_alloc_post_def page_pop_def
      upd_page_def upd_env_def env_pop_def Let_def)
qed


text \<open>C19: ipc\_send with no page keeps trying while its receiver is not waiting, and delivers the value at the
  first attempt that finds it waiting, exactly once, however long that takes.\<close>

theorem ipc_send_delivers:
  assumes "\<forall>t \<in> set ss. message_waits t envid False"
    and "env_table s xs" "curenv s = Some c" "target s c envid False = Some e" "env_ipc_recving (envs s e)"
  shows "ipc_send_tries envid val 0 perm (ss @ s # ts) = Some (Inr 0, upd_env e (\<lambda>v. v\<lparr>env_ipc_perm := 0,
     env_ipc_from := env_id (envs s c), env_ipc_recving := False, env_ipc_value := val,
     env_tf := set_eax 0 (env_tf v), env_status := ENV_RUNNABLE\<rparr>) s)"
  using ipc_send_retries [of ss envid val perm "s # ts"] assms(1) u_ipc_try_send_exec [OF assms(2-4), of val perm] assms(5)
  by (simp add: ipc_send_pg_def)

theorem ipc_send_delivers_witness:
  "\<exists>s'. ipc_send_tries 4097 42 0 0 [sys_kst, upd_env 1 (\<lambda>v. v\<lparr>env_ipc_recving := True\<rparr>) sys_kst] = Some (Inr 0, s')
     \<and> env_ipc_value (envs s' 1) = 42"
proof -
  let ?s = "upd_env 1 (\<lambda>v. v\<lparr>env_ipc_recving := True\<rparr>) sys_kst"
  have t: "env_table ?s [2..<NENV]"
    using sys_kst_wf(1) by (subst env_table_fields [where s = sys_kst]) auto
  have n: "target ?s 0 4097 False = Some 1" "target sys_kst 0 4097 False = Some 1"
    using target_named [OF t, of 4097 1 False 0] target_named [OF sys_kst_wf(1) sys_kst_named(2), of False 0] sys_kst_named(2)
    by (simp_all add: env_named_def)
  then have "message_waits sys_kst 4097 False"
    using sys_kst_wf(1) by (fastforce simp: message_waits_def)
  then show ?thesis
    using ipc_send_delivers [of "[sys_kst]" 4097 ?s _ 0 1 42 0 "[]", OF _ t _ n(1)] by simp
qed

text \<open>The stacks of the first 400000 threads of a process are different pages, each with a page below it that
  is nobody's stack, and all of them lie below the stack of the main thread and its guard page.\<close>

theorem thread_stacks_guarded:
  assumes "n < 400000" "m < 400000"
  shows "(PGNUM (THREAD_STACK_BASE (of_nat n)) = PGNUM (THREAD_STACK_BASE (of_nat m)) \<longleftrightarrow> n = m)
    \<and> PGNUM (THREAD_STACK_BASE (of_nat n)) - 1 \<noteq> PGNUM (THREAD_STACK_BASE (of_nat m))
    \<and> PGNUM (THREAD_STACK_BASE (of_nat n)) + 2 \<le> PGNUM (USTACKTOP - PGSIZE)"
proof -
  have "PGNUM (USTACKTOP - PGSIZE) = 977917" by (simp add: PGNUM_div)
  moreover have "977915 - 2 * n - 1 \<noteq> 977915 - 2 * m" using assms by presburger
  ultimately show ?thesis using assms unfolding PGNUM_stack [OF assms(1)] PGNUM_stack [OF assms(2)] by auto
qed

theorem thread_stacks_guarded_witness: "PGNUM (THREAD_STACK_BASE 3) \<noteq> PGNUM (THREAD_STACK_BASE 4)"
  using thread_stacks_guarded [of 3 4] by simp

end
