(* ===== verification/UserStart.thy ===== *)
theory UserStart
  imports UserLib
begin

text \<open>
  The start and the end of a user program (lib/libmain.c, lib/exit.c) and its blocking read of a character
  (lib/console.c). The globals \<open>thisenv\<close> (an index of the array of environments, \<open>None\<close> before it is
  set) and \<open>binaryname\<close> are handed to umain, which is a parameter.
\<close>

definition u_exit :: "unit K" where
  "u_exit = thn (u_env_destroy 0) (ret ())"

definition libmain :: "u32 \<Rightarrow> string list \<Rightarrow> (nat option \<Rightarrow> string \<Rightarrow> unit K) \<Rightarrow> unit K" where
  "libmain argc argv umain = bnd u_getenvid (\<lambda>eid.
     let thisenv = (if 0 \<le>s eid then Some (ENVX eid) else None);
         binaryname = (if 0 <s argc then argv ! 0 else ''<unknown>'')
     in thn (umain thisenv binaryname) u_exit)"

text \<open>
  getchar polls the console and yields in between: the states are those in which the program runs again
  after each sys\_yield, as in \<open>ipc_send_tries\<close>.
\<close>

fun getchar_tries :: "kst list \<Rightarrow> ((kexit + u32) \<times> kst) option" where
  "getchar_tries [] = None"
| "getchar_tries (s # ss) =
     (let r = u_cgetc s in if fst r = Inr 0 then getchar_tries ss else Some r)"

text \<open>umain starts with \<open>thisenv\<close> pointing at the environment the program runs in.\<close>

lemma libmain_exec:
  assumes "env_table s xs" "curenv s = Some c" "c < NENV" "env_status (envs s c) \<noteq> ENV_FREE"
  shows "libmain argc argv umain s
    = thn (umain (Some c) (if 0 <s argc then argv ! 0 else ''<unknown>'')) u_exit s"
proof -
  have "u_getenvid s = (Inr (env_id (envs s c)), s)"
    using assms(2) by (simp add: u_getenvid_def user_syscall_def syscall_def sys_getenvid_def bnd_def)
  moreover have i: "ENVX (env_id (envs s c)) = c" "unat (env_id (envs s c)) < 2147483648"
    using assms(1,3,4) by (auto simp: env_table_def slot_id_def)
  moreover have "0 \<le>s env_id (envs s c)"
    using i(2) sless_0 [of "env_id (envs s c)"] signed.not_less [of "env_id (envs s c)" 0] by linarith
  ultimately show ?thesis by (simp add: libmain_def bnd_Inr)
qed

end
