(* ===== verification/AgingTest.thy ===== *)
theory AgingTest
  imports UserLib
begin

text \<open>
  The test of the aging policy (user/agingtest.c) on the scheduler of theory Sched: two workers that never
  give up the CPU, one at the maximal priority and one \<open>PRIO_GAP\<close> below, preempted by the timer at every
  tick. What is proved is the exact order in which the scheduler runs them.
\<close>

section \<open>The test program\<close>

definition PRIO_GAP :: u32 where [simp]: "PRIO_GAP = 4"

definition hi_prio :: u32 where [simp]: "hi_prio = ENV_PRIORITY_MAX"
definition lo_prio :: u32 where [simp]: "lo_prio = ENV_PRIORITY_MAX - PRIO_GAP"

text \<open>\<open>envs\<close> is the kernel's array, mapped read-only at UENVS.\<close>

definition alive :: "(nat \<Rightarrow> Env) \<Rightarrow> u32 \<Rightarrow> bool" where
  "alive es eid \<longleftrightarrow> (let e = es (ENVX eid) in env_id e = eid \<and> env_status e \<noteq> ENV_FREE)"

text \<open>What umain does once both workers have been forked, up to its wait.\<close>

definition set_priorities :: "u32 \<Rightarrow> u32 \<Rightarrow> unit K" where
  "set_priorities hi lo = thn (or_panic (u_setpriority lo lo_prio) ''setpriority(baja): %e'')
     (or_panic (u_setpriority hi hi_prio) ''setpriority(alta): %e'')"

definition parent_waits :: "(nat \<Rightarrow> Env) \<Rightarrow> u32 \<Rightarrow> u32 \<Rightarrow> bool" where
  "parent_waits es hi lo \<longleftrightarrow> alive es hi \<or> alive es lo"

lemma target_fields:
  assumes "\<And>x. env_id (envs s' x) = env_id (envs s x)" "\<And>x. env_status (envs s' x) = env_status (envs s x)"
    "\<And>x. env_parent_id (envs s' x) = env_parent_id (envs s x)"
  shows "target s' c eid chk = target s c eid chk"
  by (simp add: target_def env_named_def env_permitted_def assms)

lemma set_priorities_exec:
  assumes "env_table s xs" "curenv s = Some c" "target s c hi True = Some h" "target s c lo True = Some l"
    and "h \<noteq> c" "l \<noteq> c"
  shows "set_priorities hi lo s = (Inr (), upd_env h (\<lambda>v. v\<lparr>env_priority := 15\<rparr>)
     (upd_env l (\<lambda>v. v\<lparr>env_priority := 11\<rparr>) s))"
proof -
  let ?s = "upd_env l (\<lambda>v. v\<lparr>env_priority := 11\<rparr>) s"
  have set: "or_panic (u_setpriority eid p) msg t = (Inr (), upd_env e (\<lambda>v. v\<lparr>env_priority := p\<rparr>) t)"
    if "env_table t xs" "curenv t = Some c" "target t c eid True = Some e" "e \<noteq> c" "p \<le> 15" for t eid e p msg
  proof -
    have "\<not> 15 < p" using that(5) by simp
    then have "syscall (sysnum SYS_setpriority) eid p 0 0 0 t = (Inr 0, upd_env e (\<lambda>v. v\<lparr>env_priority := p\<rparr>) t)"
      using setpriority_rules [OF that(1,2), of eid p] that(3,4) by (simp add: syscall_def)
    then show ?thesis by (simp add: or_panic_def u_setpriority_def user_syscall_def bnd_def)
  qed
  have t: "env_table ?s xs" using assms(1) by (subst env_table_fields [where s = s]) auto
  have h: "target ?s c hi True = Some h"
    using assms(3) by (subst target_fields [where s = s]) auto
  have "or_panic (u_setpriority lo 11) ''setpriority(baja): %e'' s = (Inr (), ?s)"
    by (rule set [OF assms(1,2,4,6)]) simp
  moreover have "or_panic (u_setpriority hi 15) ''setpriority(alta): %e'' ?s
      = (Inr (), upd_env h (\<lambda>v. v\<lparr>env_priority := 15\<rparr>) ?s)"
    by (rule set [OF t _ h assms(5)]) (simp_all add: assms(2))
  ultimately show ?thesis by (simp add: set_priorities_def thn_def bnd_def)
qed

section \<open>A decision of the priority policy\<close>

text \<open>With one other environment ready, it is taken unless the running one is strictly ahead.\<close>

lemma pr_best_two:
  assumes "cur_running s = Some r" "y < NENV" "\<And>x. x < NENV \<Longrightarrow> runnable s x \<longleftrightarrow> x = y"
  shows "pr_best s = (if eff s y < eff s r then Some (r, eff s r) else Some (y, eff s y))"
proof -
  obtain b q where f: "fold (pr_scan_step s) (scan_order (scan_start s)) None = Some (b, q)"
    using pr_fold_None [of s "scan_order (scan_start s)"] assms(2,3) by fastforce
  have "b = y" "q = eff s y" using pr_scan_Some(1-3) [OF f] assms(3) by auto
  then show ?thesis using f assms(1) by (simp add: pr_best_def pr_better_def eff_def)
qed

section \<open>The two workers\<close>

text \<open>
  From one decision to the next: the environment that was chosen computes until the timer interrupts it,
  and nothing the scheduler looks at changes meanwhile.
\<close>

definition next_decision :: "kst \<Rightarrow> kst \<Rightarrow> bool" where
  "next_decision s s' \<longleftrightarrow> (\<exists>e t. (sched_yield :: unit K) s = (Inl (UserMode e), t)
     \<and> curenv s' = curenv t \<and> policy s' = policy t \<and> sched_ok s'
     \<and> (\<forall>x. sched_view (envs s' x) = sched_view (envs t x)))"

text \<open>
  Only \<open>hi\<close> and \<open>lo\<close> want the CPU. At phase 0 \<open>lo\<close> is running; at phase \<open>k > 0\<close> \<open>hi\<close> is, and \<open>lo\<close> has
  been passed over \<open>k - 1\<close> times.
\<close>

definition contest :: "nat \<Rightarrow> nat \<Rightarrow> u32 \<Rightarrow> u32 \<Rightarrow> nat \<Rightarrow> kst \<Rightarrow> bool" where
  "contest hi lo p q k s \<longleftrightarrow> policy s = SCHED_PRIORITIES \<and> sched_ok s
     \<and> cur_running s = Some (if k = 0 then lo else hi)
     \<and> (\<forall>x < NENV. runnable s x \<longleftrightarrow> x = (if k = 0 then hi else lo))
     \<and> env_priority (envs s hi) = p \<and> env_priority (envs s lo) = q
     \<and> env_wait_ticks (envs s hi) = 0 \<and> unat (env_wait_ticks (envs s lo)) = k - 1"

lemma next_decision_view:
  assumes "policy s = SCHED_PRIORITIES" "sched_ok s" "cur_running s = Some r" "pr_best s = Some (e, p)"
    and "next_decision s s'"
  shows "curenv s' = Some e" "policy s' = SCHED_PRIORITIES" "sched_ok s'" "cur_running s' = Some e"
    "runnable s' x \<longleftrightarrow> x \<noteq> e \<and> (x = r \<or> runnable s x)" "env_priority (envs s' x) = env_priority (envs s x)"
    "env_wait_ticks (envs s' x) = env_wait_ticks (envs (age_waiting e s) x)"
proof -
  obtain t where "(sched_yield :: unit K) s = (Inl (UserMode e), t)" and t: "curenv t = Some e" "policy t = policy s"
    "\<And>x. sched_view (envs t x) =
         (if x = e then ENV_RUNNING else if cur_running s = Some x then ENV_RUNNABLE else env_status (envs s x),
          env_priority (envs s x), env_wait_ticks (envs (age_waiting e s) x))"
    using sched_yield_view [OF assms(1,2,4)] by blast
  then have s: "curenv s' = Some e" "policy s' = SCHED_PRIORITIES" "sched_ok s'"
    "\<And>x. sched_view (envs s' x) = sched_view (envs t x)"
    using assms(1,5) by (auto simp: next_decision_def)
  then show "curenv s' = Some e" "policy s' = SCHED_PRIORITIES" "sched_ok s'" by blast+
  have v: "sched_view (envs s' x) =
         (if x = e then ENV_RUNNING else if cur_running s = Some x then ENV_RUNNABLE else env_status (envs s x),
          env_priority (envs s x), env_wait_ticks (envs (age_waiting e s) x))" for x
    using s(4) t(3) by simp
  show "cur_running s' = Some e" using s(1) v [of e] by (simp add: cur_running_def sched_view_def)
  show "runnable s' x \<longleftrightarrow> x \<noteq> e \<and> (x = r \<or> runnable s x)"
    using v [of x] assms(3) by (auto simp: runnable_def sched_view_def)
  show "env_priority (envs s' x) = env_priority (envs s x)"
    "env_wait_ticks (envs s' x) = env_wait_ticks (envs (age_waiting e s) x)"
    using v [of x] by (simp_all add: sched_view_def)
qed

lemma contest_best:
  assumes "contest hi lo p q k s"
    and "hi < NENV" "lo < NENV" "hi \<noteq> lo" "p \<le> ENV_PRIORITY_MAX" "unat p = unat q + g" "0 < g" "k \<le> 4 * g + 1"
  shows "pr_best s = Some (if k = 4 * g + 1 then (lo, eff s lo) else (hi, eff s hi))"
proof -
  have r: "cur_running s = Some (if k = 0 then lo else hi)"
    "\<And>x. x < NENV \<Longrightarrow> runnable s x \<longleftrightarrow> x = (if k = 0 then hi else lo)"
    using assms(1) by (auto simp: contest_def)
  have y: "(if k = 0 then hi else lo) < NENV" using assms(2,3) by simp
  have p15: "unat p \<le> 15" using assms(5) by (simp add: word_le_nat_alt)
  then have q15: "q \<le> ENV_PRIORITY_MAX" using assms(6) by (simp add: word_le_nat_alt)
  have e: "unat (eff s hi) = unat p" "unat (eff s lo) = unat q + min 15 ((k - 1) div 4)"
    using assms(1,5) q15 by (auto simp: contest_def eff_def unat_effective)
  have "(k - 1) div 4 < g" if "0 < k" "k \<noteq> 4 * g + 1" using that assms(8) by (simp add: less_mult_imp_div_less)
  then have "k \<noteq> 4 * g + 1 \<Longrightarrow> eff s lo < eff s hi" "k = 4 * g + 1 \<Longrightarrow> \<not> eff s lo < eff s hi"
    using e assms(6,7) p15 by (cases "k = 0"; simp add: word_less_nat_alt)+
  then show ?thesis
    using pr_best_two [OF r(1) y r(2)] assms(7) by (cases "k = 0") (auto dest: less_not_sym)
qed

lemma contest_step:
  assumes "contest hi lo p q k s" "next_decision s s'"
    and "hi < NENV" "lo < NENV" "hi \<noteq> lo" "p \<le> ENV_PRIORITY_MAX" "unat p = unat q + g" "0 < g" "k \<le> 4 * g + 1"
  shows "curenv s' = Some (if k = 4 * g + 1 then lo else hi)
    \<and> contest hi lo p q (if k = 4 * g + 1 then 0 else Suc k) s'"
proof -
  let ?e = "if k = 4 * g + 1 then lo else hi"
  note c = assms(1) [unfolded contest_def]
  have best: "pr_best s = Some (?e, eff s ?e)" using contest_best [OF assms(1,3-9)] by simp
  have pol: "policy s = SCHED_PRIORITIES" "sched_ok s" "cur_running s = Some (if k = 0 then lo else hi)"
    using c by simp_all
  note v = next_decision_view [OF pol best assms(2)]
  have run: "runnable s x \<longleftrightarrow> x = (if k = 0 then hi else lo)" if "x < NENV" for x using c that by blast
  have "unat p \<le> 15" using assms(6) by (simp add: word_le_nat_alt)
  then have "k \<le> 61" using assms(7,9) by simp
  then have w: "unat (env_wait_ticks (envs s lo) + 1) = Suc (k - 1)"
    using c by (simp add: unat_word_ariths)
  show ?thesis
    using c v(1-4) v(5-7) w run [OF assms(3)] run [OF assms(4)] run assms(3-5,8)
    by (auto simp: contest_def age_waiting_eq)
qed

lemma contest_order:
  assumes "contest hi lo p q 0 (st 0)" "\<forall>i < n. next_decision (st i) (st (Suc i))"
    and "hi < NENV" "lo < NENV" "hi \<noteq> lo" "p \<le> ENV_PRIORITY_MAX" "unat p = unat q + g" "0 < g"
  shows "i \<le> n \<Longrightarrow> contest hi lo p q (i mod (4 * g + 2)) (st i)"
proof (induction i)
  case 0
  then show ?case using assms(1) by simp
next
  case (Suc i)
  have "i mod (4 * g + 2) \<le> 4 * g + 1" using mod_less_divisor [of "4 * g + 2" i] by linarith
  moreover have "Suc i mod (4 * g + 2) = (if i mod (4 * g + 2) = 4 * g + 1 then 0 else Suc (i mod (4 * g + 2)))"
    by (simp add: mod_Suc)
  ultimately show ?case
    using contest_step [OF Suc.IH _ assms(3-8), of "st (Suc i)"] Suc.prems assms(2) by (simp only: Suc_le_eq)
qed

text \<open>The workers of the test, environments 0 and 1, in a given phase.\<close>

definition worker_kst :: "nat \<Rightarrow> kst" where
  "worker_kst k = (two_kst SCHED_PRIORITIES)\<lparr>
     cpus := (\<lambda>_. \<lparr>cpu_status = CPU_STARTED, cpu_env = Some (if k = 0 then 1 else 0)\<rparr>),
     envs := (\<lambda>_. zero_env)
       (0 := (ready_env 4096 5 hi_prio)\<lparr>env_status := (if k = 0 then ENV_RUNNABLE else ENV_RUNNING)\<rparr>,
        1 := (ready_env 4097 6 lo_prio)\<lparr>env_status := (if k = 0 then ENV_RUNNING else ENV_RUNNABLE),
               env_wait_ticks := of_nat (k - 1)\<rparr>)\<rparr>"

lemma worker_kst_view:
  "sched_view (envs (worker_kst k) x) =
     (if x = 0 then (if k = 0 then ENV_RUNNABLE else ENV_RUNNING, 15, 0)
      else if x = 1 then (if k = 0 then ENV_RUNNING else ENV_RUNNABLE, 11, of_nat (k - 1))
      else (ENV_FREE, 0, 0))"
  by (simp add: worker_kst_def ready_env_def zero_env_def sched_view_def)

lemma worker_kst_fields:
  "env_status (envs (worker_kst k) x) =
     (if x = 0 then (if k = 0 then ENV_RUNNABLE else ENV_RUNNING)
      else if x = 1 then (if k = 0 then ENV_RUNNING else ENV_RUNNABLE) else ENV_FREE)"
  "env_priority (envs (worker_kst k) x) = (if x = 0 then 15 else if x = 1 then 11 else 0)"
  "env_wait_ticks (envs (worker_kst k) x) = (if x = 1 then of_nat (k - 1) else 0)"
  by (simp_all add: worker_kst_def ready_env_def zero_env_def)

lemma worker_kst_contest:
  assumes "k < 18"
  shows "contest 0 1 hi_prio lo_prio k (worker_kst k)"
proof -
  have r: "runnable (worker_kst k) x \<longleftrightarrow> x = (if k = 0 then 0 else 1)" for x
    by (simp add: worker_kst_def runnable_def ready_env_def zero_env_def)
  have c: "cur_running (worker_kst k) = Some (if k = 0 then 1 else 0)"
    by (simp add: worker_kst_def cur_running_def curenv_def ready_env_def zero_env_def)
  have "sched_ok (worker_kst k)"
    unfolding sched_ok_def eligible_def c r
    by (auto simp: worker_kst_def two_kst_def zero_kst_def holding_def ready_env_def)
  then show ?thesis
    using assms c r by (auto simp: contest_def worker_kst_def ready_env_def zero_env_def unat_of_nat)
qed

lemma worker_kst_next:
  assumes "k < 18"
  shows "next_decision (worker_kst k) (worker_kst (if k = 17 then 0 else Suc k))"
proof -
  let ?s = "worker_kst k" and ?e = "if k = 17 then 1 else 0 :: nat"
  note c = worker_kst_contest [OF assms]
  have "pr_best ?s = Some (?e, eff ?s ?e)" using contest_best [OF c, of 4] assms by (auto simp: NENV_def)
  moreover have "policy ?s = SCHED_PRIORITIES" "sched_ok ?s" using c by (simp_all add: contest_def)
  ultimately obtain t where t: "(sched_yield :: unit K) ?s = (Inl (UserMode ?e), t)" "curenv t = Some ?e"
    "policy t = policy ?s" "\<forall>x. sched_view (envs t x) =
         (if x = ?e then ENV_RUNNING else if cur_running ?s = Some x then ENV_RUNNABLE else env_status (envs ?s x),
          env_priority (envs ?s x), env_wait_ticks (envs (age_waiting ?e ?s) x))"
    using sched_yield_view by blast
  have r: "cur_running ?s = Some (if k = 0 then 1 else 0)" using c by (auto simp: contest_def)
  let ?s' = "worker_kst (if k = 17 then 0 else Suc k)"
  have inc: "k = 0 \<or> of_nat (k - 1) + 1 = (of_nat k :: u32)" by (cases k) simp_all
  have wait: "env_wait_ticks (envs (age_waiting ?e ?s) x) = (if x = 1 \<and> k \<noteq> 17 then of_nat k else 0)" for x
    using inc by (cases "x = 0"; cases "x = 1"; cases "k = 0"; cases "k = 17")
      (simp_all add: age_waiting_eq runnable_def worker_kst_fields NENV_def)
  have "sched_view (envs ?s' x) = sched_view (envs t x)" for x
    unfolding t(4) [rule_format] r wait worker_kst_view worker_kst_fields
    by (cases "x = 0"; cases "x = 1"; cases "k = 0"; cases "k = 17") simp_all
  moreover have "curenv ?s' = curenv t" using t(2) by (simp add: worker_kst_def curenv_def)
  moreover have "policy ?s' = policy t" "sched_ok ?s'"
    using t(3) c worker_kst_contest [of "if k = 17 then 0 else Suc k"] assms by (auto simp: contest_def)
  ultimately show ?thesis using t(1) unfolding next_decision_def by blast
qed

section \<open>Properties\<close>

text \<open>C7: Two environments that never give up the CPU, the priority of one \<open>g\<close> above the other's, are run by
  the timer in a fixed pattern while nobody else is ready: counted from the end of a turn of the lower
  one, it wins exactly the last of every \<open>4 * g + 2\<close> decisions. With the priorities of the test that is one
  decision in 18.\<close>

theorem aging_turns:
  assumes "contest hi lo p q 0 (st 0)" "\<forall>i < n. next_decision (st i) (st (Suc i))"
    and "hi < NENV" "lo < NENV" "hi \<noteq> lo" "p \<le> ENV_PRIORITY_MAX" "unat p = unat q + g" "0 < g" "i < n"
  shows "curenv (st (Suc i)) = Some (if i mod (4 * g + 2) = 4 * g + 1 then lo else hi)"
proof -
  have "i mod (4 * g + 2) \<le> 4 * g + 1" using mod_less_divisor [of "4 * g + 2" i] by linarith
  from contest_step [OF contest_order [OF assms(1-8)] _ assms(3-8) this, of "st (Suc i)"] show ?thesis
    using assms(2,9) by simp
qed

theorem aging_turns_witness:
  "map (\<lambda>i. curenv (worker_kst (Suc i mod 18))) [0..<18] = replicate 17 (Some 0) @ [Some 1]"
proof -
  let ?st = "\<lambda>i. worker_kst (i mod 18)"
  have "next_decision (?st i) (?st (Suc i))" for i
    using worker_kst_next [of "i mod 18"] by (simp add: mod_Suc if_distrib [of worker_kst])
  then have "\<forall>i < 18. next_decision (?st i) (?st (Suc i))" by blast
  moreover have "contest 0 1 15 11 0 (?st 0)" using worker_kst_contest [of 0] by simp
  ultimately have "curenv (?st (Suc i)) = Some (if i mod (4 * 4 + 2) = 4 * 4 + 1 then 1 else 0)" if "i < 18" for i
    using aging_turns [of 0 1 15 11 ?st 18 4 i] that by (simp add: NENV_def)
  then have "map (\<lambda>i. curenv (worker_kst (Suc i mod 18))) [0..<18] = map (\<lambda>i. Some (if i = 17 then 1 else 0)) [0..<18]"
    by (intro map_cong) simp_all
  also have "\<dots> = replicate 17 (Some 0) @ [Some 1]" by (simp add: upt_rec numeral_eq_Suc)
  finally show ?thesis .
qed

end
