(* ===== verification/Primes.thy ===== *)
theory Primes
  imports Prelude "HOL-Library.Sublist"
begin

text \<open>
  The concurrent prime sieve (user/primes.c): a feeder that sends the integers from 2 on into a chain of
  processes, each of which keeps the first number it receives, forks a right neighbour, and passes on what
  its number does not divide.

  The processes are interleaved: a step is one fork or the delivery of one message. An ipc\_send takes
  effect when its receiver waits in ipc\_recv (\<open>UserLib.ipc_send_delivers\<close>); until then the sender
  stays where it is. A process is named by its place in the list of stages, in the order of the forks.
\<close>

section \<open>The processes\<close>

datatype stage =
  Top                   \<comment> \<open>at the label top: waits for its prime\<close>
| Printed int           \<comment> \<open>has printed p; about to fork\<close>
| Filter int nat        \<comment> \<open>in the while loop with p and id: waits for a number\<close>
| Sending int nat int   \<comment> \<open>in the while loop with p, id and i: in ipc\_send\<close>
| Panicked int          \<comment> \<open>fork failed\<close>

datatype feeder_pc =
  Starting              \<comment> \<open>umain, about to fork\<close>
| Feeding nat int       \<comment> \<open>umain with id and i: in ipc\_send\<close>
| Stopped               \<comment> \<open>fork failed\<close>

record pipeline =
  feeder :: feeder_pc
  stages :: "stage list"
  printed :: "int list"

definition start :: pipeline where
  "start = \<lparr>feeder = Starting, stages = [], printed = []\<rparr>"

text \<open>What a process does with a message up to its next call, and what it prints; \<open>None\<close> if it does not wait.\<close>

fun deliver :: "stage \<Rightarrow> int \<Rightarrow> (stage \<times> int list) option" where
  "deliver Top i = Some (Printed i, [i])"
| "deliver (Filter p rid) i = Some (if i mod p \<noteq> 0 then Sending p rid i else Filter p rid, [])"
| "deliver _ i = None"

text \<open>
  \<open>room\<close> is the number of environments the chain may use. A fork can fail at any time, for lack of
  memory. The feeder's counter is an int: no step is taken past its maximum, where the code overflows.
\<close>

inductive pstep :: "nat \<Rightarrow> pipeline \<Rightarrow> pipeline \<Rightarrow> bool" for room where
  first_fork: "feeder s = Starting \<Longrightarrow> length (stages s) < room \<Longrightarrow>
    pstep room s (s\<lparr>feeder := Feeding (length (stages s)) 2, stages := stages s @ [Top]\<rparr>)"
| first_fork_fails: "feeder s = Starting \<Longrightarrow> pstep room s (s\<lparr>feeder := Stopped\<rparr>)"
| feed: "feeder s = Feeding rid i \<Longrightarrow> i < 2 ^ 31 - 1 \<Longrightarrow> rid < length (stages s) \<Longrightarrow>
    deliver (stages s ! rid) i = Some (t, out) \<Longrightarrow>
    pstep room s (s\<lparr>feeder := Feeding rid (i + 1), stages := (stages s)[rid := t], printed := printed s @ out\<rparr>)"
| forks: "k < length (stages s) \<Longrightarrow> stages s ! k = Printed p \<Longrightarrow> length (stages s) < room \<Longrightarrow>
    pstep room s (s\<lparr>stages := (stages s)[k := Filter p (length (stages s))] @ [Top]\<rparr>)"
| fork_fails: "k < length (stages s) \<Longrightarrow> stages s ! k = Printed p \<Longrightarrow>
    pstep room s (s\<lparr>stages := (stages s)[k := Panicked p]\<rparr>)"
| sends: "k < length (stages s) \<Longrightarrow> stages s ! k = Sending p rid i \<Longrightarrow> rid < length (stages s) \<Longrightarrow>
    deliver (stages s ! rid) i = Some (t, out) \<Longrightarrow>
    pstep room s (s\<lparr>stages := (stages s)[k := Filter p rid, rid := t], printed := printed s @ out\<rparr>)"

abbreviation reachable_pipeline :: "nat \<Rightarrow> pipeline \<Rightarrow> bool" where
  "reachable_pipeline room \<equiv> (pstep room)\<^sup>*\<^sup>* start"

section \<open>The sieve on lists\<close>

definition is_prime :: "int \<Rightarrow> bool" where
  "is_prime n \<longleftrightarrow> 2 \<le> n \<and> (\<forall>d \<in> {2..<n}. \<not> d dvd n)"

text \<open>What one stage passes on, and the numbers kept by a chain that receives a list.\<close>

abbreviation passed :: "int \<Rightarrow> int list \<Rightarrow> int list" where
  "passed p \<equiv> filter (\<lambda>n. \<not> p dvd n)"

fun sieve :: "int list \<Rightarrow> int list" where
  "sieve [] = []"
| "sieve (p # xs) = p # sieve (passed p xs)"

definition survives :: "int \<Rightarrow> int \<Rightarrow> bool" where
  "survives m n \<longleftrightarrow> (\<forall>d \<in> {2..<m}. \<not> d dvd n)"

lemma survives_Suc: "2 \<le> m \<Longrightarrow> survives (m + 1) n \<longleftrightarrow> survives m n \<and> \<not> m dvd n"
proof -
  assume "2 \<le> m"
  then have "{2..<m + 1} = insert m {2..<m}" by auto
  then show ?thesis by (auto simp: survives_def)
qed

lemma survives_composite: "\<not> survives m m \<Longrightarrow> survives m n \<Longrightarrow> \<not> m dvd n"
  by (auto simp: survives_def intro: dvd_trans)

lemma sieve_survivors:
  assumes "2 \<le> m"
  shows "sieve (filter (survives m) [m..i]) = filter is_prime [m..i]"
  using assms
proof (induction "nat (i + 1 - m)" arbitrary: m)
  case 0
  then show ?case by simp
next
  case (Suc x)
  then have l: "[m..i] = m # [m + 1..i]" by (simp add: upto_rec1)
  have IH: "sieve (filter (survives (m + 1)) [m + 1..i]) = filter is_prime [m + 1..i]"
    by (rule Suc.hyps(1)) (use Suc.hyps(2) Suc.prems in auto)
  have p: "is_prime m \<longleftrightarrow> survives m m" using Suc.prems by (simp add: is_prime_def survives_def)
  have "filter (survives m) [m + 1..i] = filter (survives (m + 1)) [m + 1..i]" if "\<not> survives m m"
    using survives_composite [OF that] survives_Suc [OF Suc.prems] by (intro filter_cong) auto
  moreover have "passed m (filter (survives m) [m + 1..i]) = filter (survives (m + 1)) [m + 1..i]"
    using survives_Suc [OF Suc.prems] by (auto intro!: filter_cong)
  ultimately show ?case using IH p by (simp add: l)
qed

lemma sieve_primes: "sieve [2..i] = filter is_prime [2..i]"
  using sieve_survivors [of 2 i] by (simp add: survives_def)

lemma sieve_mono: "prefix xs ys \<Longrightarrow> prefix (sieve xs) (sieve ys)"
proof (induction xs arbitrary: ys rule: sieve.induct)
  case (2 p xs)
  then obtain zs where "ys = p # xs @ zs" by (auto elim: prefixE)
  then show ?case using 2 by simp
qed simp

section \<open>The invariant\<close>

text \<open>\<open>flows k xs ss\<close>: the stages \<open>ss\<close>, numbered from \<open>k\<close>, have received \<open>xs\<close>, and each what its left
  neighbour passes on.\<close>

fun flows :: "nat \<Rightarrow> int list \<Rightarrow> stage list \<Rightarrow> bool" where
  "flows k xs [] = False"
| "flows k xs (Top # ss) = (xs = [] \<and> ss = [])"
| "flows k xs (Printed p # ss) = (xs = [p] \<and> ss = [])"
| "flows k xs (Panicked p # ss) = (xs = [p] \<and> ss = [])"
| "flows k xs (Filter p rid # ss) = (rid = Suc k \<and> (\<exists>t. xs = p # t \<and> flows (Suc k) (passed p t) ss))"
| "flows k xs (Sending p rid i # ss) =
     (rid = Suc k \<and> \<not> p dvd i \<and> (\<exists>t. xs = p # t @ [i] \<and> flows (Suc k) (passed p t) ss))"

fun kept :: "stage \<Rightarrow> int list" where
  "kept Top = []"
| "kept (Printed p) = [p]"
| "kept (Filter p rid) = [p]"
| "kept (Sending p rid i) = [p]"
| "kept (Panicked p) = [p]"

abbreviation keeps_numbers :: "stage list \<Rightarrow> int list" where
  "keeps_numbers ss \<equiv> concat (map kept ss)"

fun waiting :: "stage \<Rightarrow> bool" where
  "waiting Top = True"
| "waiting (Filter p rid) = True"
| "waiting _ = False"

lemma flows_deliver:
  assumes "flows k xs (st # ss)" "deliver st i = Some (t, out)"
  shows "flows k (xs @ [i]) (t # ss) \<and> keeps_numbers (t # ss) = keeps_numbers (st # ss) @ out"
  using assms by (cases st) (auto simp: mod_eq_0_iff_dvd)

lemma flows_right:
  assumes "flows k xs ss" "j < length ss" "ss ! j = Sending p rid i"
  shows "rid = Suc (k + j) \<and> Suc j < length ss"
  using assms
proof (induction k xs ss arbitrary: j rule: flows.induct)
  case (5 k xs q rid' ss)
  then show ?case by (cases j) auto
next
  case (6 k xs q rid' i' ss)
  then show ?case by (cases j; cases ss) auto
qed (auto simp: nth_Cons')

lemma flows_sends:
  assumes "flows k xs ss" "j < length ss" "ss ! j = Sending p rid i" "deliver (ss ! Suc j) i = Some (t, out)"
  shows "flows k xs (ss[j := Filter p rid, Suc j := t])
     \<and> keeps_numbers (ss[j := Filter p rid, Suc j := t]) = keeps_numbers ss @ out"
  using assms
proof (induction k xs ss arbitrary: j rule: flows.induct)
  case (5 k xs q rid' ss)
  then show ?case by (cases j) auto
next
  case (6 k xs q rid' i' ss)
  show ?case
  proof (cases j)
    case 0
    then obtain st r where ss: "ss = st # r" using 6 by (cases ss) auto
    then show ?thesis using 6 0 flows_deliver [of "Suc k" _ st r i t out] by auto
  next
    case (Suc l)
    then show ?thesis using 6 by auto
  qed
qed (auto simp: nth_Cons')

lemma flows_forks:
  assumes "flows k xs ss" "j < length ss" "ss ! j = Printed p"
  shows "flows k xs (ss[j := Filter p (k + length ss)] @ [Top]) \<and> flows k xs (ss[j := Panicked p])
     \<and> keeps_numbers (ss[j := Filter p (k + length ss)] @ [Top]) = keeps_numbers ss
     \<and> keeps_numbers (ss[j := Panicked p]) = keeps_numbers ss"
  using assms
proof (induction k xs ss arbitrary: j rule: flows.induct)
  case (5 k xs q rid' ss)
  then show ?case by (cases j) auto
next
  case (6 k xs q rid' i' ss)
  then show ?case by (cases j) auto
qed (auto simp: nth_Cons')

lemma flows_sieve: "flows k xs ss \<Longrightarrow> prefix (keeps_numbers ss) (sieve xs)"
proof (induction k xs ss rule: flows.induct)
  case (6 k xs q rid i ss)
  then obtain t where "xs = q # t @ [i]" "prefix (keeps_numbers ss) (sieve (passed q t))" by auto
  moreover have "prefix (sieve (passed q t)) (sieve (passed q (t @ [i])))" by (intro sieve_mono) simp
  ultimately show ?case by (auto dest: prefix_order.trans)
qed auto

lemma flows_settled: "flows k xs ss \<Longrightarrow> list_all waiting ss \<Longrightarrow> keeps_numbers ss = sieve xs"
  by (induction k xs ss rule: flows.induct) auto

text \<open>The numbers the feeder has sent, and the invariant of the whole program.\<close>

fun fed :: "feeder_pc \<Rightarrow> int" where
  "fed (Feeding rid i) = i - 1"
| "fed _ = 1"

definition pipeline_ok :: "pipeline \<Rightarrow> bool" where
  "pipeline_ok s \<longleftrightarrow> printed s = keeps_numbers (stages s) \<and> (case feeder s of
     Feeding rid i \<Rightarrow> rid = 0 \<and> 2 \<le> i \<and> flows 0 [2..i - 1] (stages s) | _ \<Rightarrow> stages s = [])"

lemma pstep_ok: "pstep room s s' \<Longrightarrow> pipeline_ok s \<Longrightarrow> pipeline_ok s'"
proof (induction rule: pstep.induct)
  case (feed s rid i t out)
  then obtain st ss where ss: "stages s = st # ss" by (cases "stages s") auto
  have "[2..i] = [2..i - 1] @ [i]" using feed by (intro upto_rec2) (auto simp: pipeline_ok_def)
  then show ?case using feed ss flows_deliver [of 0 "[2..i - 1]" st ss i t out] by (auto simp: pipeline_ok_def)
next
  case (forks k s p)
  then show ?case using flows_forks [of 0 _ "stages s" k p]
    by (auto simp: pipeline_ok_def split: feeder_pc.splits)
next
  case (fork_fails k s p)
  then show ?case using flows_forks [of 0 _ "stages s" k p]
    by (auto simp: pipeline_ok_def split: feeder_pc.splits)
next
  case (sends k s p rid i t out)
  then show ?case using flows_right [of 0 _ "stages s" k p rid i] flows_sends [of 0 _ "stages s" k p rid i t out]
    by (auto simp: pipeline_ok_def split: feeder_pc.splits)
qed (auto simp: pipeline_ok_def)

lemma reachable_pipeline_ok: "reachable_pipeline room s \<Longrightarrow> pipeline_ok s"
proof (induction rule: rtranclp_induct)
  case base
  show ?case by (simp add: start_def pipeline_ok_def)
next
  case (step s s')
  then show ?case using pstep_ok by blast
qed

lemma reachable_room: "reachable_pipeline room s \<Longrightarrow> length (stages s) \<le> room"
proof (induction rule: rtranclp_induct)
  case base
  show ?case by (simp add: start_def)
next
  case (step s s')
  from step(2,3) show ?case by cases auto
qed

lemma kept_length: "length (keeps_numbers ss) \<le> length ss"
proof (induction ss)
  case (Cons st ss)
  then show ?case by (cases st) auto
qed simp

section \<open>Termination of the chain between two numbers\<close>

text \<open>A step of the chain: the feeder stays where it is.\<close>

definition chain_step :: "nat \<Rightarrow> pipeline \<Rightarrow> pipeline \<Rightarrow> bool" where
  "chain_step room s s' \<longleftrightarrow> pstep room s s' \<and> feeder s' = feeder s"

fun weight :: "nat \<Rightarrow> stage \<Rightarrow> nat" where
  "weight n (Sending p rid i) = 2 * n"
| "weight n (Printed p) = 1"
| "weight n _ = 0"

fun work :: "stage list \<Rightarrow> nat" where
  "work [] = 0"
| "work (st # ss) = weight (Suc (length ss)) st + work ss"

lemma work_update:
  "j < length ss \<Longrightarrow> work (ss[j := st]) + weight (length ss - j) (ss ! j) = work ss + weight (length ss - j) st"
proof (induction ss arbitrary: j)
  case (Cons a ss)
  then show ?case by (cases j) auto
qed simp

lemma deliver_weight:
  "deliver st i = Some (t, out) \<Longrightarrow> 0 < n \<Longrightarrow> weight n st = 0 \<and> weight n t \<le> 2 * n"
  by (cases st) auto

lemma sends_work:
  assumes "Suc j < length ss" "ss ! j = Sending p rid i" "deliver (ss ! Suc j) i = Some (t, out)"
  shows "work (ss[j := Filter p rid, Suc j := t]) < work ss"
proof -
  let ?ss = "ss[j := Filter p rid]"
  have "work ?ss + 2 * (length ss - j) = work ss"
    using work_update [of j ss "Filter p rid"] assms by simp
  moreover have "work (?ss[Suc j := t]) + weight (length ss - Suc j) (ss ! Suc j) = work ?ss + weight (length ss - Suc j) t"
    using work_update [of "Suc j" ?ss t] assms(1) by simp
  ultimately show ?thesis using deliver_weight [OF assms(3), of "length ss - Suc j"] assms(1) by auto
qed

definition chain_order :: "nat \<Rightarrow> (pipeline \<times> pipeline) set" where
  "chain_order room = inv_image (less_than <*lex*> less_than) (\<lambda>s. (room - length (stages s), work (stages s)))"

lemma chain_step_decreases:
  assumes "pipeline_ok s" "chain_step room s s'"
  shows "(s', s) \<in> chain_order room"
  using assms(2)[unfolded chain_step_def, THEN conjunct1] assms(2)[unfolded chain_step_def, THEN conjunct2]
proof cases
  case (fork_fails k p)
  then show ?thesis using work_update [of k "stages s" "Panicked p"] by (simp add: chain_order_def)
next
  case (sends k p rid i t out)
  then have r: "rid = Suc k" "Suc k < length (stages s)"
    using assms(1) flows_right [of 0 _ "stages s" k p rid i]
    by (auto simp: pipeline_ok_def split: feeder_pc.splits)
  have d: "deliver (stages s ! Suc k) i = Some (t, out)" using sends r by simp
  have "stages s' = (stages s)[k := Filter p rid, Suc k := t]" using sends r by simp
  then show ?thesis using sends_work [OF r(2) _ d] sends(3) by (simp add: chain_order_def)
qed (auto simp: chain_order_def)

lemma wf_chain_order: "wf (chain_order room)"
  by (simp add: chain_order_def wf_inv_image wf_lex_prod)

lemma chain_terminates: "wf {(s', s). reachable_pipeline room s \<and> chain_step room s s'}"
  by (rule wf_subset [OF wf_chain_order [of room]]) (use chain_step_decreases reachable_pipeline_ok in blast)

section \<open>Progress\<close>

lemma last_busy:
  assumes "\<not> list_all waiting ss"
  obtains j where "j < length ss" "\<not> waiting (ss ! j)" "Suc j < length ss \<Longrightarrow> waiting (ss ! Suc j)"
proof -
  let ?P = "\<lambda>j. j < length ss \<and> \<not> waiting (ss ! j)"
  from assms obtain l where l: "?P l" by (auto simp: list_all_length)
  have "?P (GREATEST j. ?P j)" by (rule GreatestI_nat [where P = ?P and k = l and b = "length ss"]) (use l in auto)
  moreover have "\<not> ?P (Suc (GREATEST j. ?P j))"
    using Greatest_le_nat [of ?P "Suc (GREATEST j. ?P j)" "length ss"] by auto
  ultimately show thesis using that by blast
qed

lemma waiting_deliver: "waiting st \<Longrightarrow> \<exists>t out. deliver st i = Some (t, out)"
  by (cases st) auto

lemma chain_progress:
  assumes "flows 0 xs (stages s)" "\<forall>p. Panicked p \<notin> set (stages s)" "length (stages s) < room"
    and "\<not> list_all waiting (stages s)"
  shows "\<exists>s'. chain_step room s s'"
proof -
  obtain j where j: "j < length (stages s)" "\<not> waiting (stages s ! j)"
    "Suc j < length (stages s) \<Longrightarrow> waiting (stages s ! Suc j)"
    using last_busy [OF assms(4)] by blast
  consider p where "stages s ! j = Printed p" | p rid i where "stages s ! j = Sending p rid i"
    using j(2) assms(2) nth_mem [OF j(1)] by (cases "stages s ! j") auto
  then show ?thesis
  proof cases
    case 1
    then show ?thesis using pstep.forks [OF j(1) _ assms(3)] by (fastforce simp: chain_step_def)
  next
    case 2
    then have r: "rid = Suc j" "Suc j < length (stages s)" using flows_right [OF assms(1) j(1)] by auto
    then obtain t out where "deliver (stages s ! rid) i = Some (t, out)" using waiting_deliver j(3) by blast
    then show ?thesis using pstep.sends [OF j(1) 2] r by (fastforce simp: chain_step_def)
  qed
qed

lemma settled_prints:
  assumes "reachable_pipeline room s" "\<forall>p. Panicked p \<notin> set (stages s)" "length (stages s) < room"
    and "\<forall>s'. \<not> chain_step room s s'"
  shows "printed s = filter is_prime [2..fed (feeder s)]
    \<and> (feeder s \<noteq> Stopped \<and> fed (feeder s) < 2 ^ 31 - 2 \<longrightarrow> (\<exists>s'. pstep room s s'))"
proof -
  note ok = reachable_pipeline_ok [OF assms(1)]
  show ?thesis
  proof (cases "feeder s")
    case (Feeding rid i)
    then have f: "flows 0 [2..i - 1] (stages s)" and p: "printed s = keeps_numbers (stages s)"
      using ok by (auto simp: pipeline_ok_def)
    have "list_all waiting (stages s)"
      using chain_progress [OF f assms(2,3)] assms(4) by blast
    from flows_settled [OF f this] have "printed s = filter is_prime [2..fed (feeder s)]"
      by (simp add: p Feeding sieve_primes)
    moreover have "\<exists>s'. pstep room s s'" if "fed (feeder s) < 2 ^ 31 - 2"
    proof -
      have z: "rid = 0" "0 < length (stages s)" "i < 2 ^ 31 - 1"
        using ok f Feeding that by (cases "stages s"; simp add: pipeline_ok_def)+
      then obtain t out where "deliver (stages s ! rid) i = Some (t, out)"
        using waiting_deliver list_all_length \<open>list_all waiting (stages s)\<close> by metis
      then show ?thesis using pstep.feed [OF Feeding z(3)] z by blast
    qed
    ultimately show ?thesis by blast
  next
    case Starting
    then show ?thesis using ok pstep.first_fork [OF Starting assms(3)] by (auto simp: pipeline_ok_def)
  qed (use ok in \<open>auto simp: pipeline_ok_def\<close>)
qed

text \<open>A run in which the first two primes are printed.\<close>

definition two_primes :: pipeline where
  "two_primes = \<lparr>feeder = Feeding 0 4, stages = [Filter 2 1, Printed 3], printed = [2, 3]\<rparr>"

lemma two_primes_reachable: "reachable_pipeline 4 two_primes"
proof -
  let ?a = "\<lparr>feeder = Feeding 0 2, stages = [Top], printed = []\<rparr>"
  let ?b = "\<lparr>feeder = Feeding 0 3, stages = [Printed 2], printed = [2]\<rparr>"
  let ?c = "\<lparr>feeder = Feeding 0 3, stages = [Filter 2 1, Top], printed = [2]\<rparr>"
  let ?d = "\<lparr>feeder = Feeding 0 4, stages = [Sending 2 1 3, Top], printed = [2]\<rparr>"
  have "pstep 4 start ?a" using pstep.first_fork [of start 4] by (simp add: start_def)
  moreover have "pstep 4 ?a ?b" using pstep.feed [of ?a 0 2 "Printed 2" "[2]" 4] by simp
  moreover have "pstep 4 ?b ?c" using pstep.forks [of 0 ?b 2 4] by simp
  moreover have "pstep 4 ?c ?d" using pstep.feed [of ?c 0 3 "Sending 2 1 3" "[]" 4] by simp
  moreover have "pstep 4 ?d two_primes"
    using pstep.sends [of 0 ?d 2 1 3 "Printed 3" "[3]" 4] by (simp add: two_primes_def)
  ultimately show ?thesis by (meson rtranclp.rtrancl_into_rtrancl rtranclp.rtrancl_refl)
qed

lemma two_primes_settle:
  "reachable_pipeline 4 (two_primes\<lparr>stages := [Filter 2 1, Filter 3 2, Top]\<rparr>)"
proof -
  have "pstep 4 two_primes (two_primes\<lparr>stages := [Filter 2 1, Filter 3 2, Top]\<rparr>)"
    using pstep.forks [of 1 two_primes 3 4] by (simp add: two_primes_def numeral_2_eq_2)
  then show ?thesis using two_primes_reachable by (rule rtranclp.rtrancl_into_rtrancl [rotated])
qed

section \<open>Properties\<close>

text \<open>C20: However the processes of the prime sieve are interleaved, and whichever forks fail, what they have
  printed is an initial part of the sequence of the primes, none missing and in order, no longer than the
  number of environments they could use.\<close>

theorem sieve_prints_primes:
  assumes "reachable_pipeline room s"
  shows "prefix (printed s) (filter is_prime [2..fed (feeder s)]) \<and> length (printed s) \<le> room"
proof -
  note ok = reachable_pipeline_ok [OF assms]
  have "prefix (printed s) (filter is_prime [2..fed (feeder s)])"
    using ok flows_sieve [of 0 _ "stages s"]
    by (cases "feeder s") (auto simp: pipeline_ok_def simp flip: sieve_primes)
  moreover have "length (printed s) \<le> room"
    using ok kept_length [of "stages s"] reachable_room [OF assms] by (simp add: pipeline_ok_def)
  ultimately show ?thesis by blast
qed

theorem sieve_prints_primes_witness:
  "prefix [2, 3] (filter is_prime [2..3]) \<and> printed two_primes = [2, 3]"
  using sieve_prints_primes [OF two_primes_reachable] by (simp add: two_primes_def)

text \<open>C21: Between two numbers of the feeder the chain comes to rest after finitely many steps, whatever their
  order; and when it rests, no fork having failed and an environment being left, every prime among the
  numbers sent has been printed, and the feeder can send the next one.\<close>

theorem sieve_settles:
  "wf {(s', s). reachable_pipeline room s \<and> chain_step room s s'}
   \<and> (reachable_pipeline room s \<and> (\<forall>p. Panicked p \<notin> set (stages s)) \<and> length (stages s) < room
       \<and> (\<forall>s'. \<not> chain_step room s s') \<longrightarrow> printed s = filter is_prime [2..fed (feeder s)]
       \<and> (feeder s \<noteq> Stopped \<and> fed (feeder s) < 2 ^ 31 - 2 \<longrightarrow> (\<exists>s'. pstep room s s')))"
  using chain_terminates settled_prints by blast

theorem sieve_settles_witness:
  "printed (two_primes\<lparr>stages := [Filter 2 1, Filter 3 2, Top]\<rparr>) = filter is_prime [2..3]"
proof -
  let ?s = "two_primes\<lparr>stages := [Filter 2 1, Filter 3 2, Top]\<rparr>"
  have "\<not> chain_step 4 ?s s'" for s'
  proof
    assume "chain_step 4 ?s s'"
    then have "pstep 4 ?s s'" "feeder s' = feeder ?s" by (simp_all add: chain_step_def)
    then show False by cases (auto simp: two_primes_def less_Suc_eq numeral_3_eq_3)
  qed
  then show ?thesis using sieve_settles [of 4 ?s] two_primes_settle by (auto simp: two_primes_def)
qed

end
