(* ===== verification/Ports.thy ===== *)
theory Ports
  imports Trap
begin

text \<open>
  The machine around the kernel's memory: I/O ports and memory-mapped registers, and the drivers that
  use them (kern/kclock.c, kern/picirq.c and the device side of kern/console.c; theory Lapic adds kern/lapic.c).

  \<^item> \<open>machine\<close> extends the state of the kernel by the globals of these files and of kern/mpconfig.c and
    by \<open>io_log\<close>, every access to a device, the newest first. What a device answers is a function of
    that history: \<open>port_value\<close> and \<open>reg_value\<close> are arbitrary.
  \<^item> \<open>has_cga\<close> says whether the memory at CGA\_BUF keeps what is stored there.
  \<^item> The register file of the local APIC is reached through \<open>lapic\<close>, 0 as long as it is not mapped.
\<close>

section \<open>State\<close>

datatype io_event = Out u16 u8 | In u16 | RegWrite nat u32 | RegRead nat

text \<open>The segment registers of a processor, with the local descriptor table.\<close>

record Segregs =
  sr_cs :: u16
  sr_ds :: u16
  sr_es :: u16
  sr_fs :: u16
  sr_gs :: u16
  sr_ss :: u16
  sr_ldt :: u16

record machine =
  kernel :: kst
  io_log :: "io_event list"
  port_value :: "io_event list \<Rightarrow> u16 \<Rightarrow> u8"
  reg_value :: "io_event list \<Rightarrow> nat \<Rightarrow> u32"
  has_cga :: bool
  irq_mask_8259A :: u16
  didinit :: bool
  addr_6845 :: u32
  ismp :: bool
  ncpu :: nat
  bootcpu :: nat
  cpu_id :: "nat \<Rightarrow> u8"
  lapicaddr :: u32
  lapic :: u32
  mpentry_kstack :: u32
  boot_stack :: "nat \<Rightarrow> u32"
  nextfree :: u32
  npages_basemem :: u32
  cr0 :: u32
  idt :: "nat \<Rightarrow> Gatedesc"
  gdt :: "nat \<Rightarrow> Segdesc"
  cpu_ts :: "nat \<Rightarrow> Taskstate"
  task_register :: "nat \<Rightarrow> u16"
  segment_registers :: "nat \<Rightarrow> Segregs"
  panicstr :: "string option"

type_synonym 'a M = "(machine, kexit, 'a) kmon"

text \<open>An operation of the kernel, run on the machine.\<close>

definition kern :: "'a K \<Rightarrow> 'a M" where
  "kern m = (\<lambda>M. case m (kernel M) of (r, s) \<Rightarrow> (r, M\<lparr>kernel := s\<rparr>))"

definition log_io :: "io_event \<Rightarrow> machine \<Rightarrow> machine" where
  "log_io e M = M\<lparr>io_log := e # io_log M\<rparr>"

definition inb :: "u16 \<Rightarrow> u8 M" where
  "inb port = bnd (gets (\<lambda>M. port_value M (io_log M) port)) (\<lambda>v. thn (modify (log_io (In port))) (ret v))"

definition outb :: "u16 \<Rightarrow> u8 \<Rightarrow> unit M" where
  "outb port data = modify (log_io (Out port data))"

definition outs :: "(u16 \<times> u8) list \<Rightarrow> unit M" where
  "outs ps = for_each ps (\<lambda>(port, data). outb port data)"

lemma inb_exec [simp]: "inb p M = (Inr (port_value M (io_log M) p), log_io (In p) M)"
  by (simp add: inb_def bnd_def)

lemma bnd_inb [simp]: "bnd (inb p) f M = f (port_value M (io_log M) p) (log_io (In p) M)"
  by (simp add: bnd_def)

lemma outb_exec [simp]: "outb p v M = (Inr (), log_io (Out p v) M)"
  by (simp add: outb_def)

lemma thn_outb [simp]: "thn (outb p v) n M = n (log_io (Out p v) M)"
  by (simp add: thn_def bnd_def)

lemma outs_exec: "outs ps M = (Inr (), fold (\<lambda>(p, v). log_io (Out p v)) ps M)"
  by (induction ps arbitrary: M) (auto simp: outs_def)

lemma log_io_simps [simp]:
  "io_log (log_io e M) = e # io_log M" "kernel (log_io e M) = kernel M"
  "port_value (log_io e M) = port_value M" "reg_value (log_io e M) = reg_value M"
  "has_cga (log_io e M) = has_cga M" "irq_mask_8259A (log_io e M) = irq_mask_8259A M"
  "didinit (log_io e M) = didinit M" "addr_6845 (log_io e M) = addr_6845 M"
  "ismp (log_io e M) = ismp M" "ncpu (log_io e M) = ncpu M" "bootcpu (log_io e M) = bootcpu M"
  "cpu_id (log_io e M) = cpu_id M" "lapicaddr (log_io e M) = lapicaddr M" "lapic (log_io e M) = lapic M"
  "nextfree (log_io e M) = nextfree M" "npages_basemem (log_io e M) = npages_basemem M"
  "mpentry_kstack (log_io e M) = mpentry_kstack M"
  by (simp_all add: log_io_def)

lemma kern_exec: "m (kernel M) = (r, s) \<Longrightarrow> kern m M = (r, M\<lparr>kernel := s\<rparr>)"
  by (simp add: kern_def)

text \<open>Printing changes the trace only.\<close>

definition with_trace :: "event list \<Rightarrow> machine \<Rightarrow> machine" where
  "with_trace t M = M\<lparr>kernel := (kernel M)\<lparr>trace := t\<rparr>\<rparr>"

lemma with_trace_simps [simp]:
  "with_trace t (with_trace u M) = with_trace t M" "with_trace (trace (kernel M)) M = M"
  "io_log (with_trace t M) = io_log M" "didinit (with_trace t M) = didinit M"
  "irq_mask_8259A (with_trace t M) = irq_mask_8259A M" "kernel (with_trace t M) = (kernel M)\<lparr>trace := t\<rparr>"
  by (simp_all add: with_trace_def)

lemma kern_cprintf: "kern (cprintf f a) M = (Inr (), with_trace (Cprintf f a # trace (kernel M)) M)"
  by (simp add: kern_def with_trace_def)

lemma kprint_then: "thn (kern (cprintf f a)) n M = n (with_trace (Cprintf f a # trace (kernel M)) M)"
  by (rule thn_Inr) (rule kern_cprintf)

lemma returns_kern: "returns m \<Longrightarrow> returns (kern m)"
  unfolding returns_def kern_def by (metis (mono_tags, lifting) case_prod_conv)

lemma returns_io [simp, intro]: "returns (inb p)" "returns (outb p v)" "returns (outs ps)"
  "returns (kern (cprintf f a))"
  by (simp_all add: returns_def outs_exec kern_cprintf)

section \<open>The real-time clock and its memory (kern/kclock.c)\<close>

definition IO_RTC :: u16 where [simp]: "IO_RTC = 0x70"
definition NVRAM_BASELO :: u32 where [simp]: "NVRAM_BASELO = 0x15"
definition NVRAM_EXTLO :: u32 where [simp]: "NVRAM_EXTLO = 0x17"
definition NVRAM_EXT16LO :: u32 where [simp]: "NVRAM_EXT16LO = 0x34"

definition mc146818_read :: "u32 \<Rightarrow> u32 M" where
  "mc146818_read reg = thn (outb IO_RTC (ucast reg)) (bnd (inb (IO_RTC + 1)) (\<lambda>v. ret (ucast v)))"

definition mc146818_write :: "u32 \<Rightarrow> u32 \<Rightarrow> unit M" where
  "mc146818_write reg datum = thn (outb IO_RTC (ucast reg)) (outb (IO_RTC + 1) (ucast datum))"

text \<open>
  The documented behaviour of the clock chip: the data port shows the byte of its memory whose address
  was written last to the index port.
\<close>

fun last_out :: "u16 \<Rightarrow> io_event list \<Rightarrow> u8 option" where
  "last_out p [] = None"
| "last_out p (Out q v # log) = (if q = p then Some v else last_out p log)"
| "last_out p (_ # log) = last_out p log"

definition clock_chip :: "machine \<Rightarrow> (u8 \<Rightarrow> u8) \<Rightarrow> bool" where
  "clock_chip M cmos \<longleftrightarrow> (\<forall>log r. last_out IO_RTC log = Some r \<longrightarrow> port_value M log (IO_RTC + 1) = cmos r)"

lemma mc146818_read_exec:
  assumes "clock_chip M cmos"
  shows "mc146818_read reg M = (Inr (ucast (cmos (ucast reg))), log_io (In 0x71) (log_io (Out 0x70 (ucast reg)) M))"
  using assms by (simp add: mc146818_read_def clock_chip_def)

section \<open>The interrupt controllers (kern/picirq.c)\<close>

definition IO_PIC1 :: u16 where [simp]: "IO_PIC1 = 0x20"
definition IO_PIC2 :: u16 where [simp]: "IO_PIC2 = 0xA0"
definition IRQ_SLAVE :: nat where [simp]: "IRQ_SLAVE = 2"
definition IRQ_KBD :: nat where [simp]: "IRQ_KBD = 1"
definition IRQ_ERROR :: u32 where [simp]: "IRQ_ERROR = 19"

definition initial_irq_mask :: u16 where
  "initial_irq_mask = 0xFFFF AND NOT (push_bit IRQ_SLAVE 1)"

definition irq_setmask_8259A :: "u16 \<Rightarrow> unit M" where
  "irq_setmask_8259A irqs =
     thn (modify (\<lambda>M. M\<lparr>irq_mask_8259A := irqs\<rparr>))
     (bnd (gets didinit) (\<lambda>di.
      if \<not> di then ret ()
      else thn (outb (IO_PIC1 + 1) (ucast irqs))
        (thn (outb (IO_PIC2 + 1) (ucast (drop_bit 8 irqs)))
        (thn (kern (cprintf ''enabled interrupts:'' []))
        (thn (for_each [0..<16] (\<lambda>i. whenM (NOT irqs AND push_bit i 1 \<noteq> 0) (kern (cprintf '' %d'' [of_nat i]))))
        (kern (cprintf ''\<newline>'' [])))))))"

definition pic_commands :: "(u16 \<times> u8) list" where
  "pic_commands =
     [(IO_PIC1 + 1, 0xFF), (IO_PIC2 + 1, 0xFF),
      (IO_PIC1, 0x11), (IO_PIC1 + 1, ucast IRQ_OFFSET), (IO_PIC1 + 1, push_bit IRQ_SLAVE 1), (IO_PIC1 + 1, 0x3),
      (IO_PIC2, 0x11), (IO_PIC2 + 1, ucast (IRQ_OFFSET + 8)), (IO_PIC2 + 1, of_nat IRQ_SLAVE), (IO_PIC2 + 1, 0x01),
      (IO_PIC1, 0x68), (IO_PIC1, 0x0A), (IO_PIC2, 0x68), (IO_PIC2, 0x0A)]"

definition pic_init :: "unit M" where
  "pic_init =
     thn (modify (\<lambda>M. M\<lparr>didinit := True\<rparr>))
     (thn (outs pic_commands)
     (bnd (gets irq_mask_8259A) (\<lambda>irqs. whenM (irqs \<noteq> 0xFFFF) (irq_setmask_8259A irqs))))"

text \<open>
  The command protocol of one 8259A: a command with bit 4 starts an initialisation, the next bytes to
  the data port are ICW2 (the vector base), ICW3 (unless the chip is alone) and ICW4 (if announced);
  after that, a byte to the data port is the interrupt mask.
\<close>

datatype pic_phase = Ready | Want2 | Want3 | Want4

record pic =
  phase :: pic_phase
  single :: bool
  need4 :: bool
  vbase :: u8
  imask :: u8

definition pic_command :: "u8 \<Rightarrow> pic \<Rightarrow> pic" where
  "pic_command v q = (if bit v 4
     then q\<lparr>phase := Want2, single := bit v 1, need4 := bit v 0, imask := 0\<rparr> else q)"

definition pic_data :: "u8 \<Rightarrow> pic \<Rightarrow> pic" where
  "pic_data v q = (let last = (if need4 q then Want4 else Ready) in case phase q of
     Ready \<Rightarrow> q\<lparr>imask := v\<rparr>
   | Want2 \<Rightarrow> q\<lparr>vbase := v AND 0xF8, phase := (if single q then last else Want3)\<rparr>
   | Want3 \<Rightarrow> q\<lparr>phase := last\<rparr>
   | Want4 \<Rightarrow> q\<lparr>phase := Ready\<rparr>)"

text \<open>The chip at a port after a history of accesses, from any state \<open>q\<close>.\<close>

fun pic_after :: "u16 \<Rightarrow> pic \<Rightarrow> io_event list \<Rightarrow> pic" where
  "pic_after p q [] = q"
| "pic_after p q (Out r v # log) = (let q' = pic_after p q log in
     if r = p then pic_command v q' else if r = p + 1 then pic_data v q' else q')"
| "pic_after p q (_ # log) = pic_after p q log"

lemma irq_print_exec:
  "\<exists>t. for_each is (\<lambda>i. whenM (b i) (kern (cprintf (f i) (a i)))) M = (Inr (), with_trace t M)"
proof (induction "is" arbitrary: M)
  case Nil
  show ?case by (rule exI [of _ "trace (kernel M)"]) simp
next
  case (Cons i "is")
  have "\<exists>t. whenM (b i) (kern (cprintf (f i) (a i))) M = (Inr (), with_trace t M)"
    unfolding whenM_def using kern_cprintf with_trace_simps(2) ret_exec by metis
  then obtain t where "whenM (b i) (kern (cprintf (f i) (a i))) M = (Inr (), with_trace t M)" by blast
  moreover obtain t2 where "for_each is (\<lambda>i. whenM (b i) (kern (cprintf (f i) (a i)))) (with_trace t M)
      = (Inr (), with_trace t2 M)"
    using Cons [of "with_trace t M"] by (simp only: with_trace_simps) blast
  ultimately show ?case by (simp only: for_each.simps thn_def bnd_def prod.case sum.case) blast
qed

lemma irq_setmask_exec:
  assumes "didinit M"
  shows "\<exists>t. irq_setmask_8259A irqs M = (Inr (), with_trace t (log_io (Out 0xA1 (ucast (drop_bit 8 irqs)))
     (log_io (Out 0x21 (ucast irqs)) (M\<lparr>irq_mask_8259A := irqs\<rparr>))))"
proof -
  let ?M = "log_io (Out 0xA1 (ucast (drop_bit 8 irqs))) (log_io (Out 0x21 (ucast irqs)) (M\<lparr>irq_mask_8259A := irqs\<rparr>))"
  let ?M1 = "with_trace (Cprintf ''enabled interrupts:'' [] # trace (kernel ?M)) ?M"
  obtain t where t: "for_each [0..<16] (\<lambda>i. whenM (NOT irqs AND push_bit i 1 \<noteq> 0) (kern (cprintf '' %d'' [of_nat i]))) ?M1
      = (Inr (), with_trace t ?M1)"
    using irq_print_exec [of "[0..<16]" "\<lambda>i. NOT irqs AND push_bit i 1 \<noteq> 0" "\<lambda>_. '' %d''" "\<lambda>i. [of_nat i]" ?M1] by blast
  have "irq_setmask_8259A irqs M = thn (kern (cprintf ''enabled interrupts:'' []))
        (thn (for_each [0..<16] (\<lambda>i. whenM (NOT irqs AND push_bit i 1 \<noteq> 0) (kern (cprintf '' %d'' [of_nat i]))))
        (kern (cprintf ''\<newline>'' []))) ?M"
    using assms by (simp add: irq_setmask_8259A_def)
  also have "\<dots> = (Inr (), with_trace (Cprintf ''\<newline>'' [] # t) ?M)"
    using t by (simp only: kprint_then kern_cprintf thn_def [of "for_each _ _"] bnd_def prod.case sum.case) simp
  finally show ?thesis by blast
qed

text \<open>pic\_init programs both controllers, whatever state they were in: they end the initialisation
  sequence ready, line \<open>k\<close> raises vector \<open>IRQ_OFFSET + k\<close>, and exactly the lines of the kernel's mask
  are masked.\<close>

theorem pic_init_programs:
  assumes "irq_mask_8259A M = irqs" "irqs \<noteq> 0xFFFF"
  shows "\<exists>M'. pic_init M = (Inr (), M') \<and> didinit M'
    \<and> (let q1 = pic_after IO_PIC1 p1 (io_log M'); q2 = pic_after IO_PIC2 p2 (io_log M') in
         phase q1 = Ready \<and> phase q2 = Ready
       \<and> (\<forall>k < 16. ucast (if k < 8 then vbase q1 + of_nat k else vbase q2 + of_nat (k - 8)) = IRQ_OFFSET + of_nat k)
       \<and> (\<forall>k < 16. bit (if k < 8 then imask q1 else imask q2) (k mod 8) = bit irqs k))"
proof -
  let ?M = "fold (\<lambda>(p, v). log_io (Out p v)) pic_commands (M\<lparr>didinit := True\<rparr>)"
  have M: "didinit ?M" "irq_mask_8259A ?M = irqs" using assms(1) by (simp_all add: pic_commands_def)
  obtain t where t: "irq_setmask_8259A irqs ?M = (Inr (), with_trace t (log_io (Out 0xA1 (ucast (drop_bit 8 irqs)))
     (log_io (Out 0x21 (ucast irqs)) (?M\<lparr>irq_mask_8259A := irqs\<rparr>))))"
    using irq_setmask_exec [OF M(1)] by blast
  let ?M' = "with_trace t (log_io (Out 0xA1 (ucast (drop_bit 8 irqs)))
     (log_io (Out 0x21 (ucast irqs)) (?M\<lparr>irq_mask_8259A := irqs\<rparr>)))"
  have r: "pic_init M = (Inr (), ?M')"
    using outs_exec [of pic_commands "M\<lparr>didinit := True\<rparr>"] M(2) assms(2) t
    by (simp add: pic_init_def thn_def bnd_def)
  let ?q1 = "pic_after IO_PIC1 p1 (io_log ?M')" and ?q2 = "pic_after IO_PIC2 p2 (io_log ?M')"
  have q: "phase ?q1 = Ready" "phase ?q2 = Ready" "vbase ?q1 = 32" "vbase ?q2 = 40"
    "imask ?q1 = ucast irqs" "imask ?q2 = ucast (drop_bit 8 irqs)"
    by (simp_all add: pic_commands_def pic_command_def pic_data_def split: pic_phase.splits)
  have v: "ucast (if k < 8 then vbase ?q1 + of_nat k else vbase ?q2 + of_nat (k - 8)) = IRQ_OFFSET + of_nat k"
    if "k < 16" for k
    using that unfolding q
    by (simp add: word_unat_eq_iff unsigned_ucast_eq unat_word_ariths unat_of_nat take_bit_nat_eq_self)
  have m: "bit (if k < 8 then imask ?q1 else imask ?q2) (k mod 8) = bit irqs k" if "k < 16" for k
  proof (cases "k < 8")
    case False
    then have "k mod 8 = k - 8" "8 + (k - 8) = k" "k - 8 < 8" using that by (simp_all add: mod_if)
    then show ?thesis unfolding q using that False by (simp add: bit_simps)
  next
    case True
    then show ?thesis unfolding q by (simp add: bit_simps)
  qed
  have "didinit ?M'" using M(1) by simp
  then show ?thesis unfolding Let_def using r q(1,2) v m by blast
qed

definition zero_machine :: machine where
  "zero_machine = \<lparr>kernel = zero_kst, io_log = [], port_value = (\<lambda>_ _. 0), reg_value = (\<lambda>_ _. 0), has_cga = True,
     irq_mask_8259A = initial_irq_mask, didinit = False, addr_6845 = 0, ismp = False, ncpu = 0, bootcpu = 0,
     cpu_id = (\<lambda>_. 0), lapicaddr = 0, lapic = 0, mpentry_kstack = 0, boot_stack = (\<lambda>_. 0), nextfree = 0, npages_basemem = 0, cr0 = 0,
     idt = (\<lambda>_. zero_gate), gdt = (\<lambda>_. \<lparr>sd_base = 0, sd_lim = 0, sd_type = 0, sd_s = False, sd_dpl = 0\<rparr>),
     cpu_ts = (\<lambda>_. \<lparr>ts_esp0 = 0, ts_ss0 = 0, ts_iomb = 0\<rparr>), task_register = (\<lambda>_. 0),
     segment_registers = (\<lambda>_. \<lparr>sr_cs = 0, sr_ds = 0, sr_es = 0, sr_fs = 0, sr_gs = 0, sr_ss = 0, sr_ldt = 0\<rparr>),
     panicstr = None\<rparr>"

theorem pic_init_programs_witness:
  "\<exists>M'. pic_init zero_machine = (Inr (), M') \<and> bit (imask (pic_after IO_PIC1 q (io_log M'))) 1
     \<and> \<not> bit (imask (pic_after IO_PIC1 q (io_log M'))) 2"
proof -
  have m: "irq_mask_8259A zero_machine = 0xFFFB" "(0xFFFB :: u16) \<noteq> 0xFFFF"
    by (simp_all add: zero_machine_def initial_irq_mask_def)
  from pic_init_programs [OF m, of q q] obtain M' where "pic_init zero_machine = (Inr (), M')"
    "\<forall>k < 16. bit (if k < 8 then imask (pic_after IO_PIC1 q (io_log M')) else imask (pic_after IO_PIC2 q (io_log M'))) (k mod 8)
       = bit (0xFFFB :: u16) k"
    unfolding Let_def by blast
  from this(1) this(2) [THEN spec, of 1] this(2) [THEN spec, of 2] show ?thesis by (simp add: bit_numeral_rec)
qed

section \<open>The devices of the console (kern/console.c)\<close>

definition COM1 :: u16 where [simp]: "COM1 = 0x3F8"
definition COM_TX :: u16 where [simp]: "COM_TX = 0"
definition COM_RX :: u16 where [simp]: "COM_RX = 0"
definition COM_DLL :: u16 where [simp]: "COM_DLL = 0"
definition COM_DLM :: u16 where [simp]: "COM_DLM = 1"
definition COM_IER :: u16 where [simp]: "COM_IER = 1"
definition COM_IIR :: u16 where [simp]: "COM_IIR = 2"
definition COM_FCR :: u16 where [simp]: "COM_FCR = 2"
definition COM_LCR :: u16 where [simp]: "COM_LCR = 3"
definition COM_MCR :: u16 where [simp]: "COM_MCR = 4"
definition COM_LSR :: u16 where [simp]: "COM_LSR = 5"
definition COM_IER_RDI :: u8 where [simp]: "COM_IER_RDI = 1"
definition COM_LCR_DLAB :: u8 where [simp]: "COM_LCR_DLAB = 0x80"
definition COM_LCR_WLEN8 :: u8 where [simp]: "COM_LCR_WLEN8 = 3"
definition COM_LSR_TXRDY :: u8 where [simp]: "COM_LSR_TXRDY = 0x20"

definition on_console :: "(console \<Rightarrow> console) \<Rightarrow> unit M" where
  "on_console f = modify (\<lambda>M. M\<lparr>kernel := (kernel M)\<lparr>con := f (con (kernel M))\<rparr>\<rparr>)"

definition delay :: "unit M" where
  "delay = for_each [0..<4] (\<lambda>_. bnd (inb 0x84) (\<lambda>_. ret ()))"

text \<open>The wait of serial\_putc and lpt\_putc: at most \<open>n\<close> delays, until the device shows one of the bits.\<close>

primrec wait_ready :: "u16 \<Rightarrow> u8 \<Rightarrow> nat \<Rightarrow> unit M" where
  "wait_ready port bits 0 = bnd (inb port) (\<lambda>_. ret ())"
| "wait_ready port bits (Suc n) = bnd (inb port) (\<lambda>v.
     if v AND bits \<noteq> 0 then ret () else thn delay (wait_ready port bits n))"

definition serial_putc :: "u32 \<Rightarrow> unit M" where
  "serial_putc c = thn (wait_ready (COM1 + COM_LSR) COM_LSR_TXRDY 12800) (outb (COM1 + COM_TX) (ucast c))"

definition serial_init :: "unit M" where
  "serial_init =
     thn (outs [(COM1 + COM_FCR, 0), (COM1 + COM_LCR, COM_LCR_DLAB), (COM1 + COM_DLL, ucast ((115200 :: u32) div 9600)),
                (COM1 + COM_DLM, 0), (COM1 + COM_LCR, COM_LCR_WLEN8 AND NOT COM_LCR_DLAB),
                (COM1 + COM_MCR, 0), (COM1 + COM_IER, COM_IER_RDI)])
     (bnd (inb (COM1 + COM_LSR)) (\<lambda>v.
      thn (on_console (\<lambda>st. st\<lparr>serial_exists := v \<noteq> 0xFF\<rparr>))
     (bnd (inb (COM1 + COM_IIR)) (\<lambda>_.
      bnd (inb (COM1 + COM_RX)) (\<lambda>_. ret ())))))"

definition lpt_putc :: "u32 \<Rightarrow> unit M" where
  "lpt_putc c = thn (wait_ready 0x379 0x80 12800) (outs [(0x378, ucast c), (0x37A, 0x0D), (0x37A, 0x08)])"

definition MONO_BASE :: u32 where [simp]: "MONO_BASE = 0x3B4"
definition CGA_BASE :: u32 where [simp]: "CGA_BASE = 0x3D4"

definition cga_init :: "unit M" where
  "cga_init = thn (modify (\<lambda>M. M\<lparr>addr_6845 := (if has_cga M then CGA_BASE else MONO_BASE)\<rparr>))
     (bnd (gets (\<lambda>M. ucast (addr_6845 M))) (\<lambda>base.
      thn (outb base 14) (bnd (inb (base + 1)) (\<lambda>hi.
      thn (outb base 15) (bnd (inb (base + 1)) (\<lambda>lo.
      on_console (\<lambda>st. st\<lparr>crt_pos := push_bit 8 (ucast hi) OR ucast lo\<rparr>)))))))"

definition cga_cursor :: "unit M" where
  "cga_cursor = bnd (gets (\<lambda>M. (ucast (addr_6845 M), crt_pos (con (kernel M))))) (\<lambda>(base, pos).
     outs [(base, 14), (base + 1, ucast (drop_bit 8 pos)), (base, 15), (base + 1, ucast pos)])"

text \<open>cons\_putc and cga\_putc on the devices: the screen memory is that of theory Console.\<close>

definition put_lines :: "u32 \<Rightarrow> unit M" where
  "put_lines c = thn (serial_putc c) (thn (lpt_putc c) (on_console (send_char c)))"

definition put_space :: "unit M" where
  "put_space = thn (put_lines 0x20) (thn (on_console (\<lambda>st. cga_scroll (cga_cell (with_attr 0x20) st))) cga_cursor)"

definition dev_cga_putc :: "u32 \<Rightarrow> unit M" where
  "dev_cga_putc c = (let c' = with_attr c in
     thn (if c' AND 0xFF = 9 then for_each [0..<5] (\<lambda>_. put_space) else on_console (cga_cell c'))
     (thn (on_console cga_scroll) cga_cursor))"

definition dev_cons_putc :: "u32 \<Rightarrow> unit M" where
  "dev_cons_putc c = thn (put_lines c) (dev_cga_putc c)"

text \<open>The keyboard interrupt drains the controller; it always returns (theory Console).\<close>

definition kbd_init :: "unit M" where
  "kbd_init =
     thn (bnd (gets (\<lambda>M. kbd_intr (con (kernel M)))) (\<lambda>r. case r of
            None \<Rightarrow> exit_with Spin | Some st \<Rightarrow> on_console (\<lambda>_. st)))
     (bnd (gets irq_mask_8259A) (\<lambda>m. irq_setmask_8259A (m AND NOT (push_bit IRQ_KBD 1))))"

definition cons_init :: "unit M" where
  "cons_init = thn cga_init (thn kbd_init (thn serial_init
     (bnd (gets (\<lambda>M. serial_exists (con (kernel M)))) (\<lambda>e.
      whenM (\<not> e) (kern (cprintf ''Serial port does not exist!\<newline>'' []))))))"

text \<open>What was sent to a port, the newest first.\<close>

fun written :: "u16 \<Rightarrow> io_event list \<Rightarrow> u8 list" where
  "written p [] = []"
| "written p (Out q v # log) = (if q = p then v # written p log else written p log)"
| "written p (_ # log) = written p log"

text \<open>
  \<open>prints m f cs ds\<close>: \<open>m\<close> returns, changes the console state by \<open>f\<close> and the rest of the kernel not at
  all, and sends \<open>cs\<close> to the serial line and \<open>ds\<close> to the parallel port.
\<close>

definition prints :: "unit M \<Rightarrow> (console \<Rightarrow> console) \<Rightarrow> u8 list \<Rightarrow> u8 list \<Rightarrow> bool" where
  "prints m f cs ds \<longleftrightarrow> (\<forall>M. addr_6845 M \<in> {MONO_BASE, CGA_BASE} \<longrightarrow> (\<exists>M'. m M = (Inr (), M')
     \<and> kernel M' = (kernel M)\<lparr>con := f (con (kernel M))\<rparr> \<and> addr_6845 M' = addr_6845 M
     \<and> written 0x3F8 (io_log M') = cs @ written 0x3F8 (io_log M)
     \<and> written 0x378 (io_log M') = ds @ written 0x378 (io_log M)))"

lemma prints_thn:
  assumes "prints m f cs ds" "prints n g cs' ds'"
  shows "prints (thn m n) (\<lambda>st. g (f st)) (cs' @ cs) (ds' @ ds)"
  unfolding prints_def
proof (intro allI impI)
  fix M :: machine assume a: "addr_6845 M \<in> {MONO_BASE, CGA_BASE}"
  then obtain M1 where 1: "m M = (Inr (), M1)" "kernel M1 = (kernel M)\<lparr>con := f (con (kernel M))\<rparr>"
    "addr_6845 M1 = addr_6845 M" "written 0x3F8 (io_log M1) = cs @ written 0x3F8 (io_log M)"
    "written 0x378 (io_log M1) = ds @ written 0x378 (io_log M)"
    using assms(1) unfolding prints_def by blast
  obtain M2 where 2: "n M1 = (Inr (), M2)" "kernel M2 = (kernel M1)\<lparr>con := g (con (kernel M1))\<rparr>"
    "addr_6845 M2 = addr_6845 M1" "written 0x3F8 (io_log M2) = cs' @ written 0x3F8 (io_log M1)"
    "written 0x378 (io_log M2) = ds' @ written 0x378 (io_log M1)"
    using assms(2) a 1(3) unfolding prints_def by metis
  show "\<exists>M'. thn m n M = (Inr (), M') \<and> kernel M' = (kernel M)\<lparr>con := g (f (con (kernel M)))\<rparr>
      \<and> addr_6845 M' = addr_6845 M \<and> written 0x3F8 (io_log M') = (cs' @ cs) @ written 0x3F8 (io_log M)
      \<and> written 0x378 (io_log M') = (ds' @ ds) @ written 0x378 (io_log M)"
    using thn_Inr [of m M "()" M1 n] 1 2 by simp
qed

lemma prints_console: "prints (on_console f) f [] []"
  by (simp add: prints_def on_console_def)

lemma prints_ret: "prints (ret ()) (\<lambda>st. st) [] []"
  by (simp add: prints_def)

lemma prints_inb: "(\<And>v. prints (m v) f cs ds) \<Longrightarrow> prints (bnd (inb p) m) f cs ds"
proof (unfold prints_def, intro allI impI)
  fix M :: machine
  assume m: "\<And>v. \<forall>M. addr_6845 M \<in> {MONO_BASE, CGA_BASE} \<longrightarrow> (\<exists>M'. m v M = (Inr (), M')
     \<and> kernel M' = (kernel M)\<lparr>con := f (con (kernel M))\<rparr> \<and> addr_6845 M' = addr_6845 M
     \<and> written 0x3F8 (io_log M') = cs @ written 0x3F8 (io_log M)
     \<and> written 0x378 (io_log M') = ds @ written 0x378 (io_log M))" and a: "addr_6845 M \<in> {MONO_BASE, CGA_BASE}"
  show "\<exists>M'. bnd (inb p) m M = (Inr (), M')
     \<and> kernel M' = (kernel M)\<lparr>con := f (con (kernel M))\<rparr> \<and> addr_6845 M' = addr_6845 M
     \<and> written 0x3F8 (io_log M') = cs @ written 0x3F8 (io_log M)
     \<and> written 0x378 (io_log M') = ds @ written 0x378 (io_log M)"
    using m [of "port_value M (io_log M) p", THEN spec, of "log_io (In p) M"] a
    by (simp only: bnd_inb log_io_simps written.simps simp_thms)
qed

lemma prints_outs:
  "prints (outs ps) (\<lambda>st. st) (rev (map snd (filter (\<lambda>q. fst q = 0x3F8) ps))) (rev (map snd (filter (\<lambda>q. fst q = 0x378) ps)))"
proof (induction ps)
  case Nil
  show ?case unfolding outs_def for_each.simps list.map filter.simps rev.simps by (rule prints_ret)
next
  case (Cons q ps)
  have "prints (outb (fst q) (snd q)) (\<lambda>st. st) (if fst q = 0x3F8 then [snd q] else []) (if fst q = 0x378 then [snd q] else [])"
    by (simp add: prints_def)
  from prints_thn [OF this Cons] show ?case by (cases q) (auto simp: outs_def simp del: thn_outb)
qed

lemma prints_outs_other:
  assumes "fst ` set ps \<inter> {0x3F8, 0x378} = {}"
  shows "prints (outs ps) (\<lambda>st. st) [] []"
proof -
  have "filter (\<lambda>q. fst q = 0x3F8) ps = []" "filter (\<lambda>q. fst q = 0x378) ps = []"
    using assms by (auto simp: filter_empty_conv)
  with prints_outs [of ps] show ?thesis by (simp only: list.map rev.simps)
qed

lemma upt_4: "[0..<4] = [0, 1, 2, 3 :: nat]"
  by code_simp

lemma prints_wait: "prints (wait_ready p b n) (\<lambda>st. st) [] []"
proof (induction n)
  case 0
  show ?case unfolding wait_ready.simps by (intro prints_inb prints_ret)
next
  case (Suc n)
  have d: "prints (bnd (inb q) (\<lambda>_. ret ())) (\<lambda>st. st) [] []" for q by (rule prints_inb, rule prints_ret)
  have "prints delay (\<lambda>st. st) (((([] @ []) @ []) @ []) @ []) (((([] @ []) @ []) @ []) @ [])"
    unfolding delay_def upt_4 for_each.simps by (intro prints_thn d prints_ret)
  from prints_thn [OF this Suc] have w: "prints (thn delay (wait_ready p b n)) (\<lambda>st. st) [] []" by simp
  show ?case unfolding wait_ready.simps
  proof (rule prints_inb)
    fix v show "prints (if v AND b \<noteq> 0 then ret () else thn delay (wait_ready p b n)) (\<lambda>st. st) [] []"
      using w prints_ret by (cases "v AND b = 0") (simp_all only: if_True if_False simp_thms)
  qed
qed

lemma prints_serial: "prints (serial_putc c) (\<lambda>st. st) [ucast c] []"
proof -
  have "prints (outb (COM1 + COM_TX) (ucast c)) (\<lambda>st. st) [ucast c] []" by (simp add: prints_def)
  from prints_thn [OF prints_wait this] show ?thesis by (simp add: serial_putc_def)
qed

lemma prints_lpt: "prints (lpt_putc c) (\<lambda>st. st) [] [ucast c]"
  using prints_thn [OF prints_wait [of "0x379" "0x80" 12800] prints_outs [of "[(0x378, ucast c), (0x37A, 0x0D), (0x37A, 0x08)]"]]
  by (simp add: lpt_putc_def)

lemma prints_cursor: "prints cga_cursor (\<lambda>st. st) [] []"
proof (unfold prints_def, intro allI impI)
  fix M :: machine
  assume a: "addr_6845 M \<in> {MONO_BASE, CGA_BASE}"
  let ?b = "ucast (addr_6845 M) :: u16" and ?p = "crt_pos (con (kernel M))"
  have "prints (outs [(?b, 14), (?b + 1, ucast (drop_bit 8 ?p)), (?b, 15), (?b + 1, ucast ?p)]) (\<lambda>st. st) [] []"
    by (rule prints_outs_other) (use a in auto)
  then show "\<exists>M'. cga_cursor M = (Inr (), M') \<and> kernel M' = (kernel M)\<lparr>con := con (kernel M)\<rparr>
     \<and> addr_6845 M' = addr_6845 M \<and> written 0x3F8 (io_log M') = [] @ written 0x3F8 (io_log M)
     \<and> written 0x378 (io_log M') = [] @ written 0x378 (io_log M)"
    using a unfolding prints_def by (simp only: cga_cursor_def bnd_gets prod.case)
qed

lemma prints_lines: "prints (put_lines c) (send_char c) [ucast c] [ucast c]"
  using prints_thn [OF prints_serial [of c] prints_thn [OF prints_lpt [of c] prints_console [of "send_char c"]]]
  by (simp add: put_lines_def)

lemma prints_space: "prints put_space cons_space [0x20] [0x20]"
proof -
  have "prints put_space (\<lambda>st. cga_scroll (cga_cell (with_attr 0x20) (send_char 0x20 st))) [0x20] [0x20]"
    using prints_thn [OF prints_lines [of "0x20"] prints_thn [OF prints_console prints_cursor]]
    by (simp add: put_space_def)
  then show ?thesis by (simp add: cons_space_def [abs_def])
qed

lemma prints_spaces:
  "prints (for_each xs (\<lambda>_. put_space)) (cons_space ^^ length xs) (replicate (length xs) 0x20) (replicate (length xs) 0x20)"
proof (induction xs)
  case Nil
  show ?case unfolding for_each.simps list.size funpow.simps replicate.simps id_def by (rule prints_ret)
next
  case (Cons x xs)
  from prints_thn [OF prints_space this] show ?case
    by (simp add: replicate_append_same funpow_swap1 comp_def)
qed

text \<open>C30: A character printed by the kernel goes to the screen and, unchanged, to both lines, a tab also as five
  spaces; whatever the devices answer, the waits end and nothing else changes.\<close>

theorem dev_cons_putc_refines:
  assumes "addr_6845 M \<in> {MONO_BASE, CGA_BASE}"
  shows "\<exists>M'. dev_cons_putc c M = (Inr (), M')
    \<and> kernel M' = (kernel M)\<lparr>con := cons_putc c (con (kernel M))\<rparr>
    \<and> written 0x3F8 (io_log M') = (if c AND 0xFF = 9 then replicate 5 0x20 else []) @ ucast c # written 0x3F8 (io_log M)
    \<and> written 0x378 (io_log M') = (if c AND 0xFF = 9 then replicate 5 0x20 else []) @ ucast c # written 0x378 (io_log M)"
proof -
  let ?c = "with_attr c" and ?t = "if c AND 0xFF = 9 then replicate 5 0x20 else [] :: u8 list"
  have a: "?c AND 0xFF = c AND 0xFF"
    by (auto simp: with_attr_def bit.conj_disj_distrib2 intro!: bit_word_eqI)
  have "prints (if ?c AND 0xFF = 9 then for_each [0..<5] (\<lambda>_. put_space) else on_console (cga_cell ?c))
      (\<lambda>st. if ?c AND 0xFF = 9 then (cons_space ^^ 5) st else cga_cell ?c st) ?t ?t"
    using prints_spaces [of "[0..<5]"] prints_console [of "cga_cell ?c"] unfolding a by (cases "c AND 0xFF = 9") simp_all
  from prints_thn [OF prints_lines [of c] prints_thn [OF this prints_thn [OF prints_console [of cga_scroll] prints_cursor]]]
  have "prints (dev_cons_putc c) (cons_putc c) (?t @ [ucast c]) (?t @ [ucast c])"
    by (simp add: dev_cons_putc_def dev_cga_putc_def cons_putc_def [abs_def] cga_putc_def [abs_def])
  then show ?thesis using assms unfolding prints_def append_assoc append_Cons append_Nil by blast
qed

theorem dev_cons_putc_refines_witness:
  "\<exists>M'. dev_cons_putc 9 (zero_machine\<lparr>addr_6845 := CGA_BASE\<rparr>) = (Inr (), M')
     \<and> written 0x3F8 (io_log M') = [0x20, 0x20, 0x20, 0x20, 0x20, 9]"
proof -
  obtain M' where "dev_cons_putc 9 (zero_machine\<lparr>addr_6845 := CGA_BASE\<rparr>) = (Inr (), M')"
    "written 0x3F8 (io_log M') = (if (9 :: u32) AND 0xFF = 9 then replicate 5 0x20 else [])
       @ ucast (9 :: u32) # written 0x3F8 (io_log (zero_machine\<lparr>addr_6845 := CGA_BASE\<rparr>))"
    using dev_cons_putc_refines [of "zero_machine\<lparr>addr_6845 := CGA_BASE\<rparr>" 9] by auto
  moreover have "replicate 5 (0x20 :: u8) = [0x20, 0x20, 0x20, 0x20, 0x20]" by code_simp
  ultimately show ?thesis by (simp add: zero_machine_def)
qed

end
