(* ===== verification/KernMap.thy ===== *)
theory KernMap
  imports PageTable
begin

text \<open>
  The kernel's own mappings (kern/pmap.c, boot\_map\_region and mmio\_map\_region): how they change the
  translation of addresses from UTOP up, in a directory whose tables are all distinct and that maps itself
  at UVPT (entry 957).
\<close>

section \<open>Directories of the kernel\<close>

text \<open>
  \<open>kdir s fl d\<close>: every table of the directory is a frame in use, distinct from the directory and from
  the other tables; entry 957 is the directory itself. \<open>room\<close>: there are enough free frames for the
  tables above UTOP that do not exist yet.
\<close>

definition kdir :: "kst \<Rightarrow> nat list \<Rightarrow> nat \<Rightarrow> bool" where
  "kdir s fl d \<longleftrightarrow> free_pages s fl \<and> d < npages s \<and> d \<notin> set fl
     \<and> (pmem s d 957 \<noteq> 0 \<longrightarrow> PGNUM (pmem s d 957) = d)
     \<and> (\<forall>i < 1024. i \<noteq> 957 \<longrightarrow> pmem s d i \<noteq> 0 \<longrightarrow>
          PGNUM (pmem s d i) < npages s \<and> PGNUM (pmem s d i) \<notin> set fl \<and> PGNUM (pmem s d i) \<noteq> d
        \<and> (\<forall>j < 1024. j \<noteq> 957 \<longrightarrow> j \<noteq> i \<longrightarrow> pmem s d j \<noteq> 0 \<longrightarrow> PGNUM (pmem s d j) \<noteq> PGNUM (pmem s d i)))"

definition missing :: "kst \<Rightarrow> nat \<Rightarrow> nat set" where
  "missing s d = {i. 955 \<le> i \<and> i < 1024 \<and> i \<noteq> 957 \<and> pmem s d i = 0}"

definition room :: "kst \<Rightarrow> nat list \<Rightarrow> nat \<Rightarrow> bool" where
  "room s fl d \<longleftrightarrow> card (missing s d) \<le> length fl"

definition mem_only :: "kst \<Rightarrow> kst \<Rightarrow> bool" where
  "mem_only s s' \<longleftrightarrow> (\<exists>pg fl pm. s' = s\<lparr>pages := pg, page_free_list := fl, pmem := pm\<rparr>)"

lemma mem_onlyI: "s' = s\<lparr>pages := pages s', page_free_list := page_free_list s', pmem := pmem s'\<rparr> \<Longrightarrow> mem_only s s'"
  unfolding mem_only_def by blast

lemma mem_only_refl [simp]: "mem_only s s"
  by (rule mem_onlyI) simp

lemma mem_only_trans: "mem_only s s' \<Longrightarrow> mem_only s' s'' \<Longrightarrow> mem_only s s''"
  unfolding mem_only_def by (elim exE) (simp, blast)

lemma mem_only_fields:
  assumes "mem_only s s'"
  shows "npages s' = npages s" "kern_pgdir s' = kern_pgdir s" "mmio_base s' = mmio_base s" "curenv s' = curenv s"
    "envs s' = envs s" "trace s' = trace s" "cpus s' = cpus s" "klock s' = klock s"
proof -
  obtain pg fl pm where "s' = s\<lparr>pages := pg, page_free_list := fl, pmem := pm\<rparr>"
    using assms unfolding mem_only_def by blast
  then show "npages s' = npages s" "kern_pgdir s' = kern_pgdir s" "mmio_base s' = mmio_base s" "curenv s' = curenv s"
    "envs s' = envs s" "trace s' = trace s" "cpus s' = cpus s" "klock s' = klock s" by simp_all
qed

text \<open>\<open>maps_only d s s'\<close>: memory has changed, but not the entry of UVPT in the directory.\<close>

definition maps_only :: "nat \<Rightarrow> kst \<Rightarrow> kst \<Rightarrow> bool" where
  "maps_only d s s' \<longleftrightarrow> mem_only s s' \<and> pmem s' d 957 = pmem s d 957"

lemma maps_only_refl [simp]: "maps_only d s s"
  by (simp add: maps_only_def)

lemma maps_only_trans: "maps_only d s s' \<Longrightarrow> maps_only d s' s'' \<Longrightarrow> maps_only d s s''"
  unfolding maps_only_def using mem_only_trans by metis

lemma maps_only_mem: "maps_only d s s' \<Longrightarrow> mem_only s s'"
  by (simp add: maps_only_def)

lemma kdir_wf:
  assumes "kdir s fl d"
  shows "wf_pgdir s fl d"
proof -
  have d: "d < npages s" "d \<notin> set fl" "pmem s d 957 \<noteq> 0 \<Longrightarrow> PGNUM (pmem s d 957) = d"
    using assms by (auto simp: kdir_def)
  have t: "PGNUM (pmem s d i) < npages s" "PGNUM (pmem s d i) \<notin> set fl" "PGNUM (pmem s d i) \<noteq> d"
    if "i < 1024" "i \<noteq> 957" "pmem s d i \<noteq> 0" for i
    using assms that by (auto simp: kdir_def)
  have j: "PGNUM (pmem s d j) \<noteq> PGNUM (pmem s d i)"
    if "i < 955" "j < 1024" "j \<noteq> i" "pmem s d i \<noteq> 0" "pmem s d j \<noteq> 0" for i j
  proof (cases "j = 957")
    case True
    then show ?thesis using t(3) [of i] d(3) that by auto
  next
    case False
    then show ?thesis using assms that unfolding kdir_def by auto
  qed
  have "PGNUM (pmem s d i) < npages s \<and> PGNUM (pmem s d i) \<notin> set fl" if "i < 1024" "pmem s d i \<noteq> 0" for i
    using t [OF that(1)] d that by (cases "i = 957") auto
  then show ?thesis using d(1,2) t(3) j by (auto simp: wf_pgdir_def)
qed

lemma kdir_free: "kdir s fl d \<Longrightarrow> free_pages s fl"
  by (simp add: kdir_def)

lemma finite_missing [simp]: "finite (missing s d)"
  by (rule finite_subset [of _ "{..<1024}"]) (auto simp: missing_def)

lemma room_table:
  assumes "room s fl d" "955 \<le> PDX va" "PDX va \<noteq> 957"
  shows "pmem s d (PDX va) \<noteq> 0 \<or> fl \<noteq> []"
proof (rule ccontr)
  assume a: "\<not> (pmem s d (PDX va) \<noteq> 0 \<or> fl \<noteq> [])"
  then have "PDX va \<in> missing s d" using assms by (simp add: missing_def)
  then have "card (missing s d) > 0" by (auto simp: card_gt_0_iff)
  then show False using a assms(1) by (simp add: room_def)
qed

section \<open>One page\<close>

lemma kdir_walk_post:
  assumes k: "kdir s (x # xs) d" and z: "pmem s d (PDX va) = 0" and r: "room s (x # xs) d"
    and va: "955 \<le> PDX va" "PDX va \<noteq> 957"
  shows "kdir (walk_post d va x s) xs d" "room (walk_post d va x s) xs d" "maps_only d s (walk_post d va x s)"
    "PDX a \<noteq> 957 \<Longrightarrow> upte (walk_post d va x s) d a = upte s d a"
    "pmem (walk_post d va x s) d (PDX va) \<noteq> 0"
proof -
  have x: "x < npages s" "x < 2 ^ 20" "x \<notin> set xs" "d \<noteq> x" "d \<notin> set xs" "d < npages s"
    using k by (auto simp: kdir_def free_pages_def list_rep_def)
  have tab: "PGNUM (pmem s d i) \<noteq> x" if "i < 1024" "i \<noteq> 957" "pmem s d i \<noteq> 0" for i
    using k that by (auto simp: kdir_def)
  have dir: "pmem (walk_post d va x s) d = (pmem s d)(PDX va := new_pde x)" using x by (simp add: walk_post_pmem)
  note P = PGNUM_new_pde [OF x(2)]
  have "free_pages (walk_post d va x s) xs" by (rule free_pages_walk_post [OF kdir_free [OF k]])
  then show "kdir (walk_post d va x s) xs d"
    using k x va(2) tab unfolding kdir_def dir by (auto simp: P)
  have "missing (walk_post d va x s) d = missing s d - {PDX va}" "PDX va \<in> missing s d"
    using z va unfolding missing_def dir by auto
  then have "card (missing (walk_post d va x s) d) = card (missing s d) - 1" by simp
  then show "room (walk_post d va x s) xs d" using r by (simp add: room_def)
  show "maps_only d s (walk_post d va x s)"
    unfolding maps_only_def by (rule conjI, rule mem_onlyI) (use va(2) dir in \<open>simp_all add: walk_post_def upd_page_def page_alloc_post_def page_pop_def\<close>)
  show "pmem (walk_post d va x s) d (PDX va) \<noteq> 0" by (simp add: dir)
  show "upte (walk_post d va x s) d a = upte s d a" if a: "PDX a \<noteq> 957"
  proof -
    have "PGNUM (pmem s d (PDX a)) \<noteq> x \<and> PGNUM (pmem s d (PDX a)) \<noteq> d" if "pmem s d (PDX a) \<noteq> 0"
      using tab [OF PDX_less a that] k a that by (auto simp: kdir_def)
    then show ?thesis using x z P by (auto simp: upte_def walk_post_pmem)
  qed
qed

lemma kdir_store:
  assumes k: "kdir s fl d" and t: "pmem s d (PDX va) \<noteq> 0" and va: "PDX va \<noteq> 957"
    and s': "s' = s\<lparr>pmem := (pmem s)(PGNUM (pmem s d (PDX va)) := (pmem s (PGNUM (pmem s d (PDX va))))(PTX va := w))\<rparr>"
  shows "kdir s' fl d" "pmem s' d = pmem s d" "maps_only d s s'"
    "PDX a \<noteq> 957 \<Longrightarrow> upte s' d a = (if PGNUM a = PGNUM va then w else upte s d a)"
proof -
  let ?t = "PGNUM (pmem s d (PDX va))"
  have d: "?t \<noteq> d" using k t va by (auto simp: kdir_def)
  show dir: "pmem s' d = pmem s d" using d by (simp add: s')
  show "kdir s' fl d" using k unfolding kdir_def dir by (simp add: s')
  show "maps_only d s s'" unfolding maps_only_def dir by (rule conjI, rule mem_onlyI) (simp_all add: s')
  show "upte s' d a = (if PGNUM a = PGNUM va then w else upte s d a)" if a: "PDX a \<noteq> 957"
  proof -
    have "PGNUM (pmem s d (PDX a)) = ?t \<longleftrightarrow> PDX a = PDX va" if "pmem s d (PDX a) \<noteq> 0"
      using k t va a that PDX_less [of a] PDX_less [of va] unfolding kdir_def by metis
    then show ?thesis using t d by (auto simp: s' upte_def same_page_iff)
  qed
qed

lemma boot_map_page_exec:
  assumes k: "kdir s fl d" "room s fl d" and va: "955 \<le> PDX va" "PDX va \<noteq> 957" and z: "upte s d va = 0"
  obtains s' fl' where "boot_map_page (Some d) va pa perm s = (Inr (), s')" "kdir s' fl' d" "room s' fl' d" "maps_only d s s'"
    "\<And>a. PDX a \<noteq> 957 \<Longrightarrow> upte s' d a = (if PGNUM a = PGNUM va then pa OR perm OR PTE_P else upte s d a)"
proof -
  obtain s0 fl0 where b: "pgdir_walk (Some d) va True s = (Inr (Some (PGNUM (pmem s0 d (PDX va)), PTX va)), s0)"
    "kdir s0 fl0 d" "room s0 fl0 d" "maps_only d s s0" "pmem s0 d (PDX va) \<noteq> 0"
    "\<And>a. PDX a \<noteq> 957 \<Longrightarrow> upte s0 d a = upte s d a"
  proof (cases "pmem s d (PDX va) = 0")
    case False
    then show ?thesis using that [of s fl] walk_present [OF kdir_wf [OF k(1)]] k by simp
  next
    case True
    then obtain x xs where fl: "fl = x # xs" using room_table [OF k(2) va] by (cases fl) auto
    note K = k [unfolded fl]
    have x: "x < 2 ^ 20" "d \<noteq> x" using K(1) by (auto simp: kdir_def free_pages_def)
    have "pmem (walk_post d va x s) d (PDX va) = new_pde x" using x by (simp add: walk_post_pmem)
    then show ?thesis
      using that [of "walk_post d va x s" xs] kdir_walk_post [OF K(1) True K(2) va]
        walk_create [OF kdir_free [OF K(1)] kdir_wf [OF K(1)] True] PGNUM_new_pde [OF x(1)] by simp
  qed
  have z0: "upte s0 d va = 0" using b(6) [OF va(2)] z by simp
  have rm: "page_remove (Some d) va s0 = (Inr (), s0)"
    using page_remove_exec [OF kdir_free [OF b(2)] kdir_wf [OF b(2)], of va] z0 by (simp add: wf_mapped_def remove_post_def)
  let ?s = "s0\<lparr>pmem := (pmem s0)(PGNUM (pmem s0 d (PDX va)) := (pmem s0 (PGNUM (pmem s0 d (PDX va))))(PTX va := pa OR perm OR PTE_P))\<rparr>"
  note st = kdir_store [OF b(2,5) va(2) refl, where w = "pa OR perm OR PTE_P"]
  have run: "boot_map_page (Some d) va pa perm s = (Inr (), ?s)"
    using b(1) rm by (simp add: boot_map_page_def bnd_def thn_def)
  have rm': "room ?s fl0 d" using b(3) st(2) by (simp only: room_def missing_def)
  have "upte ?s d a = (if PGNUM a = PGNUM va then pa OR perm OR PTE_P else upte s d a)" if "PDX a \<noteq> 957" for a
    using st(4) [OF that] b(6) [OF that] by (simp only:)
  then show ?thesis using that [OF run st(1) rm' maps_only_trans [OF b(4) st(3)]] by blast
qed

section \<open>A region\<close>

lemma boot_map_list:
  assumes "kdir s fl d" "room s fl d" "distinct (map (\<lambda>k. PGNUM (f k)) ks)"
    and "\<And>k. k \<in> set ks \<Longrightarrow> 955 \<le> PDX (f k) \<and> PDX (f k) \<noteq> 957 \<and> upte s d (f k) = 0"
  shows "\<exists>s' fl'. for_each ks (\<lambda>k. boot_map_page (Some d) (f k) (g k) perm) s = (Inr (), s')
    \<and> kdir s' fl' d \<and> room s' fl' d \<and> maps_only d s s'
    \<and> (\<forall>a. PDX a \<noteq> 957 \<longrightarrow> upte s' d a = (case List.find (\<lambda>k. PGNUM (f k) = PGNUM a) ks of
          Some k \<Rightarrow> g k OR perm OR PTE_P | None \<Rightarrow> upte s d a))"
  using assms
proof (induction ks arbitrary: s fl)
  case Nil
  then show ?case by (intro exI [of _ s] exI [of _ fl]) simp
next
  case (Cons k ks)
  have va: "955 \<le> PDX (f k)" "PDX (f k) \<noteq> 957" "upte s d (f k) = 0" using Cons.prems(4) by auto
  obtain s1 fl1 where 1: "boot_map_page (Some d) (f k) (g k) perm s = (Inr (), s1)" "kdir s1 fl1 d" "room s1 fl1 d" "maps_only d s s1"
    "\<And>a. PDX a \<noteq> 957 \<Longrightarrow> upte s1 d a = (if PGNUM a = PGNUM (f k) then g k OR perm OR PTE_P else upte s d a)"
    using boot_map_page_exec [OF Cons.prems(1,2) va] by blast
  have u: "upte s1 d (f j) = 0" if "j \<in> set ks" for j
    using Cons.prems(3,4) 1(5) [of "f j"] that by (auto simp: image_iff)
  obtain s' fl' where 2: "for_each ks (\<lambda>k. boot_map_page (Some d) (f k) (g k) perm) s1 = (Inr (), s')"
    "kdir s' fl' d" "room s' fl' d" "maps_only d s1 s'"
    "\<forall>a. PDX a \<noteq> 957 \<longrightarrow> upte s' d a = (case List.find (\<lambda>k. PGNUM (f k) = PGNUM a) ks of
          Some k \<Rightarrow> g k OR perm OR PTE_P | None \<Rightarrow> upte s1 d a)"
    using Cons.IH [OF 1(2,3)] Cons.prems(3,4) u by auto
  have f: "List.find (\<lambda>j. PGNUM (f j) = PGNUM a) ks = None" if "PGNUM a = PGNUM (f k)" for a
    using Cons.prems(3) that by (auto simp: find_None_iff image_iff)
  have "for_each (k # ks) (\<lambda>k. boot_map_page (Some d) (f k) (g k) perm) s = (Inr (), s')"
    using 2(1) by (simp only: for_each.simps thn_def bnd_def 1(1) prod.case sum.case)
  moreover have "upte s' d a = (case List.find (\<lambda>k. PGNUM (f k) = PGNUM a) (k # ks) of
          Some k \<Rightarrow> g k OR perm OR PTE_P | None \<Rightarrow> upte s d a)" if "PDX a \<noteq> 957" for a
    using 2(5) 1(5) [OF that] that f [of a] by (auto split: option.splits)
  ultimately show ?case using 2 maps_only_trans [OF 1(4) 2(4)] by blast
qed

text \<open>The pages of a region that starts at \<open>va\<close> and does not wrap.\<close>

lemma PGNUM_region:
  assumes "unat va mod 4096 = 0" "unat va + n * 4096 \<le> 4294967296" "k < n"
  shows "PGNUM (va + of_nat k * PGSIZE) = PGNUM va + k"
proof -
  have "unat (of_nat k * PGSIZE :: u32) = k * 4096" using assms unat_page [of k] by simp
  then have "unat (va + of_nat k * PGSIZE) = unat va + k * 4096" using assms by (simp add: unat_word_ariths)
  then show ?thesis using assms(1) by (simp add: PGNUM_div)
qed

lemma find_from:
  "List.find (\<lambda>k. p + k = q) [m..<n] = (if p + m \<le> q \<and> q < p + n then Some (q - p) else (None :: nat option))"
proof (induction "n - m" arbitrary: m)
  case (Suc l)
  then have "[m..<n] = m # [Suc m..<n]" "m < n" by (simp_all add: upt_conv_Cons)
  then show ?case using Suc.hyps(1) [of "Suc m"] Suc.hyps(2) by auto
qed simp

lemma find_region:
  "List.find (\<lambda>k. p + k = q) [0..<n] = (if p \<le> q \<and> q < p + n then Some (q - p) else (None :: nat option))"
  using find_from [of p q 0 n] by simp

lemma find_cong_set: "(\<And>x. x \<in> set xs \<Longrightarrow> P x = Q x) \<Longrightarrow> List.find P xs = List.find Q xs"
  by (induction xs) auto

definition in_region :: "u32 \<Rightarrow> u32 \<Rightarrow> nat \<Rightarrow> bool" where
  "in_region a va n \<longleftrightarrow> PGNUM va \<le> PGNUM a \<and> PGNUM a < PGNUM va + n"

text \<open>boot\_map\_region maps exactly the pages of its region, each to its own frame, and no other.\<close>

lemma boot_map_region_exec:
  assumes k: "kdir s fl d" "room s fl d" and va: "unat va mod 4096 = 0" "unat va + unat sz \<le> 4294967296" "unat sz mod 4096 = 0"
    and n: "n = unat sz div 4096"
    and top: "\<And>a. in_region a va n \<Longrightarrow> 955 \<le> PDX a \<and> PDX a \<noteq> 957 \<and> upte s d a = 0"
  obtains s' fl' where "boot_map_region (Some d) va sz pa perm s = (Inr (), s')" "kdir s' fl' d" "room s' fl' d" "maps_only d s s'"
    "\<And>a. PDX a \<noteq> 957 \<Longrightarrow> upte s' d a = (if in_region a va n
        then (pa + of_nat (PGNUM a - PGNUM va) * PGSIZE) OR perm OR PTE_P else upte s d a)"
proof -
  let ?f = "\<lambda>k. va + of_nat k * PGSIZE" and ?g = "\<lambda>k. pa + of_nat k * PGSIZE"
  have n4: "unat va + n * 4096 \<le> 4294967296" using va n by (simp add: div_mult_mod_eq [of _ 4096, symmetric])
  note P = PGNUM_region [OF va(1) n4]
  have sz: "unat (sz div PGSIZE) = n" using n by (simp add: unat_div)
  have dist: "distinct (map (\<lambda>k. PGNUM (?f k)) [0..<n])"
    by (rule distinct_map [THEN iffD2]) (use P in \<open>auto simp: inj_on_def\<close>)
  have pages: "955 \<le> PDX (?f k) \<and> PDX (?f k) \<noteq> 957 \<and> upte s d (?f k) = 0" if "k \<in> set [0..<n]" for k
    using top [of "?f k"] P [of k] that unfolding in_region_def by auto
  obtain s' fl' where r: "for_each [0..<n] (\<lambda>k. boot_map_page (Some d) (?f k) (?g k) perm) s = (Inr (), s')"
    "kdir s' fl' d" "room s' fl' d" "maps_only d s s'"
    "\<forall>a. PDX a \<noteq> 957 \<longrightarrow> upte s' d a = (case List.find (\<lambda>k. PGNUM (?f k) = PGNUM a) [0..<n] of
          Some k \<Rightarrow> ?g k OR perm OR PTE_P | None \<Rightarrow> upte s d a)"
    using boot_map_list [OF k dist, where g = ?g and perm = perm] pages by blast
  have f: "List.find (\<lambda>k. PGNUM (?f k) = PGNUM a) [0..<n] = (if in_region a va n then Some (PGNUM a - PGNUM va) else None)" for a
    unfolding in_region_def find_region [symmetric] by (rule find_cong_set) (use P in simp)
  show ?thesis
  proof (rule that [OF _ r(2-4)])
    show "boot_map_region (Some d) va sz pa perm s = (Inr (), s')"
      using r(1) by (simp only: boot_map_region_def sz Let_def)
    show "upte s' d a = (if in_region a va n
        then (pa + of_nat (PGNUM a - PGNUM va) * PGSIZE) OR perm OR PTE_P else upte s d a)" if "PDX a \<noteq> 957" for a
      using r(5) [THEN spec, of a] that unfolding f by (cases "in_region a va n") simp_all
  qed
qed

text \<open>A list of regions that do not overlap.\<close>

type_synonym region = "u32 \<times> u32 \<times> u32 \<times> u32" \<comment> \<open>address, size, physical address, permissions\<close>

fun in_reg :: "u32 \<Rightarrow> region \<Rightarrow> bool" where
  "in_reg a (va, sz, pa, perm) = in_region a va (unat sz div 4096)"

fun reg_entry :: "u32 \<Rightarrow> region \<Rightarrow> u32" where
  "reg_entry a (va, sz, pa, perm) = (pa + of_nat (PGNUM a - PGNUM va) * PGSIZE) OR perm OR PTE_P"

fun reg_ok :: "region \<Rightarrow> bool" where
  "reg_ok (va, sz, pa, perm) \<longleftrightarrow> unat va mod 4096 = 0 \<and> unat va + unat sz \<le> 4294967296 \<and> unat sz mod 4096 = 0"

definition disjoint_regs :: "region \<Rightarrow> region \<Rightarrow> bool" where
  "disjoint_regs r r' \<longleftrightarrow> (\<forall>a. \<not> (in_reg a r \<and> in_reg a r'))"

definition map_regions :: "nat \<Rightarrow> region list \<Rightarrow> unit K" where
  "map_regions d rs = for_each rs (\<lambda>(va, sz, pa, perm). boot_map_region (Some d) va sz pa perm)"

lemma map_regions_exec:
  assumes "kdir s fl d" "room s fl d" "\<forall>r \<in> set rs. reg_ok r" "sorted_wrt disjoint_regs rs"
    and "\<And>r a. r \<in> set rs \<Longrightarrow> in_reg a r \<Longrightarrow> 955 \<le> PDX a \<and> PDX a \<noteq> 957 \<and> upte s d a = 0"
  shows "\<exists>s' fl'. map_regions d rs s = (Inr (), s') \<and> kdir s' fl' d \<and> room s' fl' d \<and> maps_only d s s'
    \<and> (\<forall>a. PDX a \<noteq> 957 \<longrightarrow> upte s' d a = (case List.find (in_reg a) rs of Some r \<Rightarrow> reg_entry a r | None \<Rightarrow> upte s d a))"
  using assms
proof (induction rs arbitrary: s fl)
  case Nil
  then show ?case by (intro exI [of _ s] exI [of _ fl]) (simp add: map_regions_def)
next
  case (Cons r rs)
  obtain va sz pa perm where r: "r = (va, sz, pa, perm)" by (cases r)
  have ok: "unat va mod 4096 = 0" "unat va + unat sz \<le> 4294967296" "unat sz mod 4096 = 0" using Cons.prems(3) r by auto
  have top: "955 \<le> PDX a \<and> PDX a \<noteq> 957 \<and> upte s d a = 0" if "in_region a va (unat sz div 4096)" for a
    using Cons.prems(5) [of r a] that by (simp add: r)
  obtain s1 fl1 where 1: "boot_map_region (Some d) va sz pa perm s = (Inr (), s1)" "kdir s1 fl1 d" "room s1 fl1 d" "maps_only d s s1"
    "\<And>a. PDX a \<noteq> 957 \<Longrightarrow> upte s1 d a = (if in_reg a r then reg_entry a r else upte s d a)"
    using boot_map_region_exec [OF Cons.prems(1,2) ok refl top, of pa perm] unfolding r in_reg.simps reg_entry.simps by blast
  have ap: "\<not> in_reg a r" if "q \<in> set rs" "in_reg a q" for q a using Cons.prems(4) that by (auto simp: disjoint_regs_def)
  have top1: "955 \<le> PDX a \<and> PDX a \<noteq> 957 \<and> upte s1 d a = 0" if "q \<in> set rs" "in_reg a q" for q a
    using Cons.prems(5) [of q a] ap [OF that] 1(5) [of a] that by auto
  have oks: "\<forall>r \<in> set rs. reg_ok r" "sorted_wrt disjoint_regs rs" using Cons.prems(3,4) by simp_all
  obtain s' fl' where 2: "map_regions d rs s1 = (Inr (), s')" "kdir s' fl' d" "room s' fl' d" "maps_only d s1 s'"
    "\<forall>a. PDX a \<noteq> 957 \<longrightarrow> upte s' d a = (case List.find (in_reg a) rs of Some r \<Rightarrow> reg_entry a r | None \<Rightarrow> upte s1 d a)"
    using Cons.IH [OF 1(2,3) oks] top1 by blast
  have "map_regions d (r # rs) s = (Inr (), s')"
    using 2(1) by (simp only: map_regions_def for_each.simps thn_def bnd_def r prod.case 1(1) sum.case)
  moreover have none: "List.find (in_reg a) rs = None" if "in_reg a r" for a using ap that by (auto simp: find_None_iff)
  have "upte s' d a = (case List.find (in_reg a) (r # rs) of Some r \<Rightarrow> reg_entry a r | None \<Rightarrow> upte s d a)" if "PDX a \<noteq> 957" for a
    using 2(5) 1(5) [OF that] that none [of a] by (auto split: option.splits)
  ultimately show ?case using 2(2-4) maps_only_trans [OF 1(4) 2(4)] by blast
qed

section \<open>Device memory\<close>

lemma mmio_map_region_exec:
  assumes "kdir s fl (kern_pgdir s)" "room s fl (kern_pgdir s)" and b: "b = mmio_base s" "MMIOBASE \<le> b" "unat b mod 4096 = 0"
    and sz: "n = (unat sz + 4095) div 4096" "unat b + n * 4096 < unat MMIOLIM"
    and free: "\<And>a. in_region a b n \<Longrightarrow> upte s (kern_pgdir s) a = 0"
  shows "\<exists>s' fl'. mmio_map_region pa sz s = (Inr b, s') \<and> mmio_base s' = b + of_nat n * PGSIZE
    \<and> kdir s' fl' (kern_pgdir s) \<and> room s' fl' (kern_pgdir s) \<and> mem_only (s\<lparr>mmio_base := b + of_nat n * PGSIZE\<rparr>) s'
    \<and> (\<forall>a. PDX a \<noteq> 957 \<longrightarrow> upte s' (kern_pgdir s) a = (if in_region a b n
        then (ROUNDDOWN pa PGSIZE + of_nat (PGNUM a - PGNUM b) * PGSIZE) OR (PTE_W OR PTE_P OR PTE_PCD OR PTE_PWT) OR PTE_P
        else upte s (kern_pgdir s) a))"
proof -
  let ?d = "kern_pgdir s" and ?sz = "ROUNDUP sz PGSIZE" and ?p = "PTE_W OR PTE_P OR PTE_PCD OR PTE_PWT"
  have lo: "unat MMIOBASE \<le> unat b" using b(2) by (simp add: word_le_nat_alt)
  have "n * 4096 < 4194304" using sz(2) lo by simp
  then have s0: "unat sz + 4095 < 4294967296" using sz(1) by linarith
  have us: "unat ?sz = n * 4096" using unat_ROUNDUP [OF s0] sz(1) by simp
  then have ss: "?sz = of_nat n * PGSIZE" "n = unat ?sz div 4096" "unat ?sz mod 4096 = 0"
    using unat_page [of n] \<open>n * 4096 < 4194304\<close> by (simp_all add: word_unat_eq_iff)
  have le: "unat b + unat ?sz \<le> 4294967296" using sz(2) us by simp
  have top: "955 \<le> PDX a \<and> PDX a \<noteq> 957 \<and> upte s ?d a = 0" if "in_region a b n" for a
  proof -
    have "958 * 1024 \<le> PGNUM a" "PGNUM a < 959 * 1024"
      using that lo sz(2) b(3) by (auto simp: in_region_def PGNUM_div)
    then have "PDX a = 958" by (simp add: PDX_div)
    then show ?thesis using free [OF that] by simp
  qed
  obtain s' fl' where r: "boot_map_region (Some ?d) b ?sz (ROUNDDOWN pa PGSIZE) ?p s = (Inr (), s')" "mem_only s s'"
    "kdir s' fl' ?d" "room s' fl' ?d"
    "\<And>a. PDX a \<noteq> 957 \<Longrightarrow> upte s' ?d a = (if in_region a b n
        then (ROUNDDOWN pa PGSIZE + of_nat (PGNUM a - PGNUM b) * PGSIZE) OR ?p OR PTE_P else upte s ?d a)"
    using boot_map_region_exec [OF assms(1,2) b(3) le ss(3,2) top] maps_only_mem by metis
  have "unat (b + ?sz) = unat b + n * 4096" using us sz(2) by (simp add: unat_word_ariths)
  then have lim: "\<not> b + ?sz \<ge> MMIOLIM" using sz(2) by (simp add: word_le_nat_alt)
  have run: "mmio_map_region pa sz s = (Inr b, s'\<lparr>mmio_base := b + ?sz\<rparr>)"
    using lim b(1) r(1) by (simp add: mmio_map_region_def thn_def [of "boot_map_region _ _ _ _ _"] bnd_def [of "boot_map_region _ _ _ _ _"])
  have "upte (s'\<lparr>mmio_base := b + ?sz\<rparr>) ?d a = upte s' ?d a" for a by (simp add: upte_def)
  moreover have "kdir (s'\<lparr>mmio_base := x\<rparr>) fl' ?d" "room (s'\<lparr>mmio_base := x\<rparr>) fl' ?d" for x
    using r(3,4) by (simp_all add: kdir_def room_def missing_def free_pages_def)
  moreover have "mem_only (s\<lparr>mmio_base := x\<rparr>) (s'\<lparr>mmio_base := x\<rparr>)" for x
    using r(2) unfolding mem_only_def [of s] by (auto intro!: mem_onlyI)
  ultimately show ?thesis using run r(5) ss(1) by (intro exI [of _ "s'\<lparr>mmio_base := b + ?sz\<rparr>"] exI [of _ fl']) auto
qed

text \<open>A machine with 80 frames and an empty directory in frame 0, enough for all the kernel's tables.\<close>

definition map80 :: kst where
  "map80 = page_init 0 (zero_kst\<lparr>npages := 80\<rparr>)"

definition free80 :: "nat list" where
  "free80 = rev (filter (\<lambda>i. \<not> page_reserved 0 i) [0..<80])"

lemma map80_kdir: "kdir map80 free80 0" "room map80 free80 0" "kern_pgdir map80 = 0" "mmio_base map80 = 0xEF800000"
proof -
  have f: "free_pages map80 free80"
    using page_init_rep [of "zero_kst\<lparr>npages := 80\<rparr>" 0] by (simp add: map80_def free80_def zero_kst_def)
  have n: "npages map80 = 80" "pmem map80 = (\<lambda>_ _. 0)" "kern_pgdir map80 = 0"
    by (simp_all add: map80_def zero_kst_def)
  then show "kdir map80 free80 0" "kern_pgdir map80 = 0"
    using f by (simp_all add: kdir_def free80_def page_reserved_def)
  have "missing map80 0 = {955..<1024} - {957}" using n(2) by (auto simp: missing_def)
  then have c: "card (missing map80 0) = 68" by simp
  have "filter (\<lambda>i. \<not> page_reserved 0 i) [0..<80] = filter (\<lambda>i. i \<noteq> 0 \<and> i \<noteq> 7) [0..<80]"
    by (rule filter_cong) (auto simp: page_reserved_def PGNUM_div)
  moreover have "length (filter (\<lambda>i. i \<noteq> 0 \<and> i \<noteq> 7) [0..<80]) = 78" by code_simp
  ultimately show "room map80 free80 0" using c by (simp add: room_def free80_def)
  have "mmio_base (page_init_step 0 i s) = mmio_base s" for i s
    by (simp add: page_init_step_def page_push_def)
  then have "mmio_base (fold (page_init_step 0) is s) = mmio_base s" for "is" s
    by (induction "is" arbitrary: s) simp_all
  then show "mmio_base map80 = 0xEF800000" by (simp add: map80_def page_init_def zero_kst_def)
qed

lemma map80_mmio: "\<exists>s'. mmio_map_region 0xFEE00000 4096 map80 = (Inr 0xEF800000, s')"
proof -
  have b: "(0xEF800000 :: u32) = mmio_base map80" "1 = (unat (4096 :: u32) + 4095) div 4096" using map80_kdir by simp_all
  have z: "in_region a 0xEF800000 1 \<Longrightarrow> upte map80 0 a = 0" for a by (simp add: upte_def map80_def zero_kst_def)
  show ?thesis
    using mmio_map_region_exec [of map80 free80, OF _ _ b(1) _ _ b(2), of "0xFEE00000"] map80_kdir z by auto
qed

text \<open>mmio\_map\_region hands out the next pages of the window for devices: the region it returns is mapped,
  uncached, to the physical pages asked for, the rest of the address space is unchanged, and the next
  call continues behind it.\<close>

theorem mmio_map_region_maps:
  assumes "kdir s fl (kern_pgdir s)" "room s fl (kern_pgdir s)" and b: "b = mmio_base s" "MMIOBASE \<le> b" "unat b mod 4096 = 0"
    and sz: "n = (unat sz + 4095) div 4096" "unat b + n * 4096 < unat MMIOLIM"
    and free: "\<And>a. in_region a b n \<Longrightarrow> upte s (kern_pgdir s) a = 0"
  shows "\<exists>s'. mmio_map_region pa sz s = (Inr b, s') \<and> mmio_base s' = b + of_nat n * PGSIZE
    \<and> (\<forall>a. PDX a \<noteq> 957 \<longrightarrow> upte s' (kern_pgdir s) a = (if in_region a b n
        then (ROUNDDOWN pa PGSIZE + of_nat (PGNUM a - PGNUM b) * PGSIZE) OR (PTE_W OR PTE_P OR PTE_PCD OR PTE_PWT) OR PTE_P
        else upte s (kern_pgdir s) a))"
  using mmio_map_region_exec [OF assms] by blast

theorem mmio_map_region_maps_witness:
  "\<exists>s'. mmio_map_region 0xFEE00000 4096 map80 = (Inr 0xEF800000, s') \<and> upte s' 0 0xEF800020 = 0xFEE0001B"
proof -
  have b: "(0xEF800000 :: u32) = mmio_base map80" "1 = (unat (4096 :: u32) + 4095) div 4096" using map80_kdir by simp_all
  have z: "in_region a 0xEF800000 1 \<Longrightarrow> upte map80 0 a = 0" for a by (simp add: upte_def map80_def zero_kst_def)
  obtain s' where r: "mmio_map_region 0xFEE00000 4096 map80 = (Inr 0xEF800000, s')"
    "\<forall>a. PDX a \<noteq> 957 \<longrightarrow> upte s' 0 a = (if in_region a 0xEF800000 1
        then (ROUNDDOWN 0xFEE00000 PGSIZE + of_nat (PGNUM a - PGNUM 0xEF800000) * PGSIZE) OR (PTE_W OR PTE_P OR PTE_PCD OR PTE_PWT) OR PTE_P
        else upte map80 0 a)"
    using mmio_map_region_maps [of map80 free80, OF _ _ b(1) _ _ b(2), of "0xFEE00000"] map80_kdir z by auto
  have "PDX 0xEF800020 = 958" "in_region 0xEF800020 0xEF800000 1" "PGNUM 0xEF800020 = PGNUM 0xEF800000"
    by (simp_all add: PDX_div PGNUM_div in_region_def)
  then show ?thesis using r by (simp add: ROUNDDOWN_def)
qed

end
