(* ===== verification/Lapic.thy ===== *)
theory Lapic
  imports Ports KernMap
begin

text \<open>
  The local interrupt controllers (kern/lapic.c), through which a processor gets its timer interrupts and
  wakes the others, and bytes of physical memory, in which the boot code leaves its messages to them.
  The loops that wait for the device are \<open>partial_function\<close>s: they end when it stops being busy.
\<close>

section \<open>Bytes of physical memory\<close>

definition phys_byte :: "kst \<Rightarrow> u32 \<Rightarrow> u8" where
  "phys_byte s pa = ucast (drop_bit (8 * (unat pa mod 4)) (pmem s (PGNUM pa) (unat pa mod 4096 div 4)))"

definition put_byte :: "nat \<Rightarrow> u8 \<Rightarrow> u32 \<Rightarrow> u32" where
  "put_byte k v w = (w AND NOT (push_bit (8 * k) (mask 8))) OR push_bit (8 * k) (ucast v)"

definition store_byte :: "u32 \<Rightarrow> u8 \<Rightarrow> kst \<Rightarrow> kst" where
  "store_byte pa v s = (let f = PGNUM pa; i = unat pa mod 4096 div 4 in
     s\<lparr>pmem := (pmem s)(f := (pmem s f)(i := put_byte (unat pa mod 4) v (pmem s f i)))\<rparr>)"

lemma get_put_byte:
  assumes "k < 4" "j < 4"
  shows "ucast (drop_bit (8 * j) (put_byte k v w)) = (if j = k then v else (ucast (drop_bit (8 * j) w) :: u8))"
proof (rule bit_word_eqI)
  fix n assume "n < LENGTH(8)"
  then show "bit (ucast (drop_bit (8 * j) (put_byte k v w)) :: u8) n
      = bit (if j = k then v else (ucast (drop_bit (8 * j) w) :: u8)) n"
    using assms by (auto simp: put_byte_def bit_simps dest: bit_imp_le_length)
qed

lemma phys_byte_store: "phys_byte (store_byte pa v s) qa = (if qa = pa then v else phys_byte s qa)"
proof -
  have "qa = pa \<longleftrightarrow> unat qa = unat pa" by (simp add: word_unat_eq_iff)
  also have "\<dots> \<longleftrightarrow> unat qa div 4096 = unat pa div 4096 \<and> unat qa mod 4096 = unat pa mod 4096"
    by (metis div_mult_mod_eq)
  also have "unat qa mod 4096 = unat pa mod 4096 \<longleftrightarrow>
      unat qa mod 4096 div 4 = unat pa mod 4096 div 4 \<and> unat qa mod 4096 mod 4 = unat pa mod 4096 mod 4"
    by (metis div_mult_mod_eq)
  finally have e: "qa = pa \<longleftrightarrow> PGNUM qa = PGNUM pa \<and> unat qa mod 4096 div 4 = unat pa mod 4096 div 4
      \<and> unat qa mod 4 = unat pa mod 4"
    by (simp add: PGNUM_div mod_mod_cancel)
  show ?thesis using e by (auto simp: phys_byte_def store_byte_def get_put_byte)
qed

section \<open>The local interrupt controllers (kern/lapic.c)\<close>

definition ID :: nat where [simp]: "ID = 0x0020 div 4"
definition VER :: nat where [simp]: "VER = 0x0030 div 4"
definition TPR :: nat where [simp]: "TPR = 0x0080 div 4"
definition EOI :: nat where [simp]: "EOI = 0x00B0 div 4"
definition SVR :: nat where [simp]: "SVR = 0x00F0 div 4"
definition ENABLE :: u32 where [simp]: "ENABLE = 0x100"
definition ESR :: nat where [simp]: "ESR = 0x0280 div 4"
definition ICRLO :: nat where [simp]: "ICRLO = 0x0300 div 4"
definition INIT :: u32 where [simp]: "INIT = 0x500"
definition STARTUP :: u32 where [simp]: "STARTUP = 0x600"
definition DELIVS :: u32 where [simp]: "DELIVS = 0x1000"
definition ASSERT :: u32 where [simp]: "ASSERT = 0x4000"
definition LEVEL :: u32 where [simp]: "LEVEL = 0x8000"
definition BCAST :: u32 where [simp]: "BCAST = 0x80000"
definition OTHERS :: u32 where [simp]: "OTHERS = 0xC0000"
definition FIXED :: u32 where [simp]: "FIXED = 0"
definition ICRHI :: nat where [simp]: "ICRHI = 0x0310 div 4"
definition TIMER :: nat where [simp]: "TIMER = 0x0320 div 4"
definition X1 :: u32 where [simp]: "X1 = 0xB"
definition PERIODIC :: u32 where [simp]: "PERIODIC = 0x20000"
definition PCINT :: nat where [simp]: "PCINT = 0x0340 div 4"
definition LINT0 :: nat where [simp]: "LINT0 = 0x0350 div 4"
definition LINT1 :: nat where [simp]: "LINT1 = 0x0360 div 4"
definition ERROR :: nat where [simp]: "ERROR = 0x0370 div 4"
definition MASKED :: u32 where [simp]: "MASKED = 0x10000"
definition TICR :: nat where [simp]: "TICR = 0x0380 div 4"
definition TDCR :: nat where [simp]: "TDCR = 0x03E0 div 4"

definition lapicr :: "nat \<Rightarrow> u32 M" where
  "lapicr i = bnd (gets (\<lambda>M. reg_value M (io_log M) i)) (\<lambda>v. thn (modify (log_io (RegRead i))) (ret v))"

definition lapicw :: "nat \<Rightarrow> u32 \<Rightarrow> unit M" where
  "lapicw i v = thn (modify (log_io (RegWrite i v))) (bnd (lapicr ID) (\<lambda>_. ret ()))"

definition lapic_cpunum :: "nat M" where
  "lapic_cpunum = bnd (gets lapic) (\<lambda>l.
     if l \<noteq> 0 then bnd (lapicr ID) (\<lambda>v. ret (unat (drop_bit 24 v))) else ret 0)"

definition lapic_eoi :: "unit M" where
  "lapic_eoi = bnd (gets lapic) (\<lambda>l. whenM (l \<noteq> 0) (lapicw EOI 0))"

text \<open>Waiting for an interrupt to be delivered: as long as the device says so.\<close>

partial_function (option) lapic_wait :: "machine \<Rightarrow> machine option" where
  "lapic_wait M = (if reg_value M (io_log M) ICRLO AND DELIVS \<noteq> 0 then lapic_wait (log_io (RegRead ICRLO) M)
     else Some (log_io (RegRead ICRLO) M))"

definition lapic_setup :: "unit M" where
  "lapic_setup = bnd (gets lapicaddr) (\<lambda>pa. bnd (kern (mmio_map_region pa 4096)) (\<lambda>va.
     thn (modify (\<lambda>M. M\<lparr>lapic := va\<rparr>))
     (thn (lapicw SVR (ENABLE OR (IRQ_OFFSET + IRQ_SPURIOUS)))
     (thn (lapicw TDCR X1)
     (thn (lapicw TIMER (PERIODIC OR (IRQ_OFFSET + IRQ_TIMER)))
     (thn (lapicw TICR 10000000)
     (bnd lapic_cpunum (\<lambda>me. bnd (gets bootcpu) (\<lambda>boot.
      thn (whenM (me \<noteq> boot) (lapicw LINT0 MASKED))
     (thn (lapicw LINT1 MASKED)
     (bnd (lapicr VER) (\<lambda>ver.
      thn (whenM (drop_bit 16 ver AND 0xFF \<ge> 4) (lapicw PCINT MASKED))
     (thn (lapicw ERROR (IRQ_OFFSET + IRQ_ERROR))
     (thn (lapicw ESR 0) (thn (lapicw ESR 0)
     (thn (lapicw EOI 0)
     (thn (lapicw ICRHI 0)
     (lapicw ICRLO (BCAST OR INIT OR LEVEL)))))))))))))))))))"

definition lapic_init :: "machine \<Rightarrow> ((kexit + unit) \<times> machine) option" where
  "lapic_init M = (if lapicaddr M = 0 then Some (Inr (), M) else (case lapic_setup M of
     (Inl e, M') \<Rightarrow> Some (Inl e, M')
   | (Inr _, M') \<Rightarrow> map_option (lapicw TPR 0) (lapic_wait M')))"

definition lapic_startap :: "u8 \<Rightarrow> u32 \<Rightarrow> unit M" where
  "lapic_startap apicid addr =
     thn (outb IO_RTC 0xF) (thn (outb (IO_RTC + 1) 0x0A)
     (thn (kern (bnd (KADDR 0x467) (\<lambda>_. modify (store_byte 0x46A (ucast (drop_bit 12 addr))
           \<circ> store_byte 0x469 (ucast (drop_bit 4 addr)) \<circ> store_byte 0x468 0 \<circ> store_byte 0x467 0))))
     (thn (lapicw ICRHI (push_bit 24 (ucast apicid)))
     (thn (lapicw ICRLO (INIT OR LEVEL OR ASSERT))
     (thn (lapicw ICRLO (INIT OR LEVEL))
     (for_each [0..<2] (\<lambda>_. thn (lapicw ICRHI (push_bit 24 (ucast apicid)))
       (lapicw ICRLO (STARTUP OR drop_bit 12 addr)))))))))"

definition lapic_ipi :: "u32 \<Rightarrow> machine \<Rightarrow> machine option" where
  "lapic_ipi vector M = lapic_wait (snd (lapicw ICRLO (OTHERS OR FIXED OR vector) M))"

lemma lapicr_exec [simp]: "lapicr i M = (Inr (reg_value M (io_log M) i), log_io (RegRead i) M)"
  by (simp add: lapicr_def bnd_def)

lemma bnd_lapicr [simp]: "bnd (lapicr i) f M = f (reg_value M (io_log M) i) (log_io (RegRead i) M)"
  by (simp add: bnd_def)

lemma lapicw_exec [simp]: "lapicw i v M = (Inr (), log_io (RegRead ID) (log_io (RegWrite i v) M))"
  by (simp add: lapicw_def)

lemma thn_lapicw [simp]: "thn (lapicw i v) n M = n (log_io (RegRead ID) (log_io (RegWrite i v) M))"
  by (simp add: thn_def bnd_def)

lemma thn_whenM: "thn (whenM b m) n s = (if b then thn m n s else n s)"
  by (simp add: whenM_def)

lemma bnd_cpunum: "bnd lapic_cpunum f M = (if lapic M \<noteq> 0
     then f (unat (drop_bit 24 (reg_value M (io_log M) ID))) (log_io (RegRead ID) M) else f 0 M)"
  by (simp add: lapic_cpunum_def bnd_def)

fun last_reg :: "nat \<Rightarrow> io_event list \<Rightarrow> u32 option" where
  "last_reg i [] = None"
| "last_reg i (RegWrite j v # log) = (if j = i then Some v else last_reg i log)"
| "last_reg i (_ # log) = last_reg i log"

lemma last_reg_reads: "last_reg i (replicate n (RegRead j) @ log) = last_reg i log"
  by (induction n) simp_all

text \<open>The wait ends when the device stops being busy, after however many polls.\<close>

lemma lapic_wait_ends:
  "reg_value M (replicate n (RegRead ICRLO) @ io_log M) ICRLO AND DELIVS = 0
   \<Longrightarrow> \<exists>k. lapic_wait M = Some (M\<lparr>io_log := replicate k (RegRead ICRLO) @ io_log M\<rparr>)"
proof (induction n arbitrary: M)
  case 0
  then show ?case by (subst lapic_wait.simps) (auto simp: log_io_def intro: exI [of _ 1])
next
  case (Suc n)
  show ?case
  proof (cases "reg_value M (io_log M) ICRLO AND DELIVS = 0")
    case True
    then show ?thesis by (subst lapic_wait.simps) (auto simp: log_io_def intro: exI [of _ 1])
  next
    case False
    have "\<exists>k. lapic_wait (log_io (RegRead ICRLO) M) = Some ((log_io (RegRead ICRLO) M)\<lparr>io_log :=
        replicate k (RegRead ICRLO) @ io_log (log_io (RegRead ICRLO) M)\<rparr>)"
      by (rule Suc.IH) (use Suc.prems in \<open>simp add: replicate_app_Cons_same\<close>)
    then obtain k where "lapic_wait (log_io (RegRead ICRLO) M) = Some (M\<lparr>io_log := replicate (Suc k) (RegRead ICRLO) @ io_log M\<rparr>)"
      by (auto simp: log_io_def replicate_app_Cons_same)
    then show ?thesis using False by (subst lapic_wait.simps) (simp only: simp_thms if_True, blast)
  qed
qed

lemma lapic_init_exec:
  assumes "lapicaddr M \<noteq> 0" "mmio_map_region (lapicaddr M) 4096 (kernel M) = (Inr va, s)" "va \<noteq> 0"
    and id: "\<forall>log. reg_value M log ID = idr"
    and deliver: "\<forall>log. \<exists>n. reg_value M (replicate n (RegRead ICRLO) @ log) ICRLO AND DELIVS = 0"
  shows "\<exists>log. lapic_init M = Some (Inr (), M\<lparr>kernel := s, lapic := va, io_log := log\<rparr>)
    \<and> last_reg SVR log = Some (ENABLE OR 39) \<and> last_reg TPR log = Some 0
    \<and> last_reg TIMER log = Some (PERIODIC OR 32) \<and> last_reg TICR log = Some 10000000
    \<and> last_reg LINT0 log = (if unat (drop_bit 24 idr) \<noteq> bootcpu M then Some MASKED else last_reg LINT0 (io_log M))
    \<and> last_reg LINT1 log = Some MASKED"
proof -
  have k: "bnd (kern (mmio_map_region (lapicaddr M) 4096)) f M = f va (M\<lparr>kernel := s\<rparr>)" for f :: "u32 \<Rightarrow> unit M"
    using assms(2) by (simp add: bnd_def kern_def)
  have "\<exists>M1. lapic_setup M = (Inr (), M1) \<and> M1 = M\<lparr>kernel := s, lapic := va, io_log := io_log M1\<rparr>
    \<and> last_reg SVR (io_log M1) = Some (ENABLE OR 39)
    \<and> last_reg TIMER (io_log M1) = Some (PERIODIC OR 32) \<and> last_reg TICR (io_log M1) = Some 10000000
    \<and> last_reg LINT0 (io_log M1) = (if unat (drop_bit 24 idr) \<noteq> bootcpu M then Some MASKED else last_reg LINT0 (io_log M))
    \<and> last_reg LINT1 (io_log M1) = Some MASKED"
    using id assms(3) by (simp add: lapic_setup_def k bnd_cpunum thn_whenM log_io_def)
  then obtain log where 1: "lapic_setup M = (Inr (), M\<lparr>kernel := s, lapic := va, io_log := log\<rparr>)"
    "last_reg SVR log = Some (ENABLE OR 39)"
    "last_reg TIMER log = Some (PERIODIC OR 32)" "last_reg TICR log = Some 10000000"
    "last_reg LINT0 log = (if unat (drop_bit 24 idr) \<noteq> bootcpu M then Some MASKED else last_reg LINT0 (io_log M))"
    "last_reg LINT1 log = Some MASKED"
    by metis
  let ?M1 = "M\<lparr>kernel := s, lapic := va, io_log := log\<rparr>"
  obtain n where "reg_value ?M1 (replicate n (RegRead ICRLO) @ io_log ?M1) ICRLO AND DELIVS = 0"
    using deliver by auto
  from lapic_wait_ends [OF this] obtain j where
    "lapic_wait ?M1 = Some (?M1\<lparr>io_log := replicate j (RegRead ICRLO) @ log\<rparr>)" by auto
  then have "lapic_init M = Some (Inr (), M\<lparr>kernel := s, lapic := va,
      io_log := RegRead ID # RegWrite TPR 0 # replicate j (RegRead ICRLO) @ log\<rparr>)"
    using assms(1) 1(1) by (simp add: lapic_init_def log_io_def)
  then show ?thesis
    using 1(2-) by (intro exI [of _ "RegRead ID # RegWrite TPR 0 # replicate j (RegRead ICRLO) @ log"]) (simp add: last_reg_reads)
qed

text \<open>lapic\_init, once the registers are mapped and whenever the controller delivers its interrupts, ends with
  the controller enabled and accepting, its timer running, and the lines of the 8259A masked on
  every processor but the one that booted.\<close>

theorem lapic_init_configures:
  assumes "lapicaddr M \<noteq> 0" "mmio_map_region (lapicaddr M) 4096 (kernel M) = (Inr va, s)" "va \<noteq> 0"
    and id: "\<forall>log. reg_value M log ID = idr"
    and deliver: "\<forall>log. \<exists>n. reg_value M (replicate n (RegRead ICRLO) @ log) ICRLO AND DELIVS = 0"
  shows "\<exists>M'. lapic_init M = Some (Inr (), M') \<and> lapic M' = va \<and> kernel M' = s
    \<and> last_reg SVR (io_log M') = Some (ENABLE OR 39) \<and> last_reg TPR (io_log M') = Some 0
    \<and> last_reg TIMER (io_log M') = Some (PERIODIC OR 32) \<and> last_reg TICR (io_log M') = Some 10000000
    \<and> last_reg LINT0 (io_log M') = (if unat (drop_bit 24 idr) \<noteq> bootcpu M then Some MASKED else last_reg LINT0 (io_log M))
    \<and> last_reg LINT1 (io_log M') = Some MASKED"
  using lapic_init_exec [OF assms] by auto

theorem lapic_init_configures_witness:
  "\<exists>M'. lapic_init (zero_machine\<lparr>kernel := map80, lapicaddr := 0xFEE00000, bootcpu := 1\<rparr>) = Some (Inr (), M')
     \<and> last_reg LINT0 (io_log M') = Some MASKED"
proof -
  let ?M = "zero_machine\<lparr>kernel := map80, lapicaddr := 0xFEE00000, bootcpu := 1\<rparr>"
  obtain s where s: "mmio_map_region (lapicaddr ?M) 4096 (kernel ?M) = (Inr 0xEF800000, s)"
    using map80_mmio by auto
  have h: "lapicaddr ?M \<noteq> 0" "(0xEF800000 :: u32) \<noteq> 0" "\<forall>log. reg_value ?M log ID = 0"
    "\<forall>log. \<exists>n. reg_value ?M (replicate n (RegRead ICRLO) @ log) ICRLO AND DELIVS = 0"
    by (simp_all add: zero_machine_def)
  from lapic_init_configures [OF h(1) s h(2-4)] show ?thesis by auto
qed

fun icr_log :: "io_event list \<Rightarrow> (nat \<times> u32) list" where
  "icr_log [] = []"
| "icr_log (RegWrite i v # log) = (i, v) # icr_log log"
| "icr_log (_ # log) = icr_log log"

definition warm_reset :: "u32 \<Rightarrow> kst \<Rightarrow> kst" where
  "warm_reset addr = store_byte 0x46A (ucast (drop_bit 12 addr)) \<circ> store_byte 0x469 (ucast (drop_bit 4 addr))
     \<circ> store_byte 0x468 0 \<circ> store_byte 0x467 0"

lemma lapic_startap_exec:
  assumes "0 < npages (kernel M)"
  shows "\<exists>M'. lapic_startap apicid addr M = (Inr (), M') \<and> M' = M\<lparr>kernel := warm_reset addr (kernel M), io_log := io_log M'\<rparr>
    \<and> (let to_ap = (ICRHI, push_bit 24 (ucast apicid)); go = (ICRLO, STARTUP OR drop_bit 12 addr) in
         icr_log (io_log M') = [go, to_ap, go, to_ap, (ICRLO, INIT OR LEVEL), (ICRLO, INIT OR LEVEL OR ASSERT), to_ap] @ icr_log (io_log M))"
proof -
  have two: "[0..<2] = [0, 1 :: nat]" by code_simp
  have "KADDR 0x467 (kernel M) = (Inr 0, kernel M)" using KADDR_exec [of "0x467" "kernel M"] assms by (simp add: PGNUM_div)
  then have v: "thn (kern (bnd (KADDR 0x467) (\<lambda>_. modify f))) n (log_io e1 (log_io e2 M))
      = n ((log_io e1 (log_io e2 M))\<lparr>kernel := f (kernel M)\<rparr>)" for f e1 e2 and n :: "unit M"
    by (simp add: thn_def bnd_def kern_def)
  have assoc: "thn (thn a b) c = thn a (thn b c)" for a b c :: "unit M" by (simp add: thn_def bnd_assoc)
  show ?thesis
    by (simp add: lapic_startap_def two v assoc warm_reset_def) (simp add: log_io_def)
qed

text \<open>
  lapic\_startap leaves the warm reset vector pointing at the entry code, and sends one INIT and two
  STARTUP interrupts that name the page of the code, all to the processor asked for.
\<close>

theorem lapic_startap_wakes:
  assumes "0 < npages (kernel M)"
  shows "\<exists>M'. lapic_startap apicid addr M = (Inr (), M')
    \<and> (\<forall>pa. phys_byte (kernel M') pa = (if pa = 0x467 \<or> pa = 0x468 then 0 else if pa = 0x469 then ucast (drop_bit 4 addr)
         else if pa = 0x46A then ucast (drop_bit 12 addr) else phys_byte (kernel M) pa))
    \<and> (let to_ap = (ICRHI, push_bit 24 (ucast apicid)); go = (ICRLO, STARTUP OR drop_bit 12 addr) in
         icr_log (io_log M') = [go, to_ap, go, to_ap, (ICRLO, INIT OR LEVEL), (ICRLO, INIT OR LEVEL OR ASSERT), to_ap] @ icr_log (io_log M))"
proof -
  obtain M' where "lapic_startap apicid addr M = (Inr (), M')" "M' = M\<lparr>kernel := warm_reset addr (kernel M), io_log := io_log M'\<rparr>"
    "let to_ap = (ICRHI, push_bit 24 (ucast apicid)); go = (ICRLO, STARTUP OR drop_bit 12 addr) in
       icr_log (io_log M') = [go, to_ap, go, to_ap, (ICRLO, INIT OR LEVEL), (ICRLO, INIT OR LEVEL OR ASSERT), to_ap] @ icr_log (io_log M)"
    using lapic_startap_exec [OF assms] by blast
  moreover have "kernel M' = warm_reset addr (kernel M)" using arg_cong [OF calculation(2), of kernel] by simp
  ultimately show ?thesis by (simp add: warm_reset_def phys_byte_store)
qed

theorem lapic_startap_wakes_witness:
  "\<exists>M'. lapic_startap 3 0x7000 (zero_machine\<lparr>kernel := map80\<rparr>) = (Inr (), M') \<and> phys_byte (kernel M') 0x46A = 7
     \<and> phys_byte (kernel M') 0x469 = 0"
proof -
  have "0 < npages (kernel (zero_machine\<lparr>kernel := map80\<rparr>))" by (simp add: map80_def zero_kst_def)
  from lapic_startap_wakes [OF this, of 3 "0x7000"] show ?thesis by auto
qed

end
