(* ===== verification/MpConf.thy ===== *)
theory MpConf
  imports Lapic CString
begin

text \<open>
  The multiprocessor tables of the BIOS (kern/mpconfig.c): the search for the floating pointer, the
  checks of the configuration table, and mp\_init, which fills in \<open>cpus\<close>, \<open>ncpu\<close> and \<open>bootcpu\<close>.

  \<^item> A pointer is a physical address; the memory read is that of the kernel state, byte by byte. Of
    the mapping at KERNBASE only \<open>KADDR\<close>'s check is left, and the order of kernel addresses.
  \<^item> \<open>bootcpu\<close> and \<open>ncpu\<close> are indices of \<open>cpus\<close>.
\<close>

section \<open>The tables in memory\<close>

definition NCPU :: nat where [simp]: "NCPU = 8"
definition MPPROC_BOOT :: u8 where [simp]: "MPPROC_BOOT = 2"
definition MPPROC :: u8 where [simp]: "MPPROC = 0"
definition MPBUS :: u8 where [simp]: "MPBUS = 1"
definition MPIOAPIC :: u8 where [simp]: "MPIOAPIC = 2"
definition MPIOINTR :: u8 where [simp]: "MPIOINTR = 3"
definition MPLINTR :: u8 where [simp]: "MPLINTR = 4"

definition phys16 :: "kst \<Rightarrow> u32 \<Rightarrow> u16" where
  "phys16 s p = ucast (phys_byte s p) OR push_bit 8 (ucast (phys_byte s (p + 1)))"

definition phys32 :: "kst \<Rightarrow> u32 \<Rightarrow> u32" where
  "phys32 s p = ucast (phys16 s p) OR push_bit 16 (ucast (phys16 s (p + 2)))"

text \<open>The fields of struct mp and struct mpconf, at the offsets of the packed structures.\<close>

record mp =
  mp_physaddr :: u32
  mp_type :: u8
  mp_imcrp :: u8

definition read_mp :: "kst \<Rightarrow> u32 \<Rightarrow> mp" where
  "read_mp s p = \<lparr>mp_physaddr = phys32 s (p + 4), mp_type = phys_byte s (p + 11), mp_imcrp = phys_byte s (p + 12)\<rparr>"

record mpconf =
  mc_length :: u16
  mc_version :: u8
  mc_entry :: u16
  mc_lapicaddr :: u32
  mc_xlength :: u16
  mc_xchecksum :: u8
  mc_entries :: u32

definition read_mpconf :: "kst \<Rightarrow> u32 \<Rightarrow> mpconf" where
  "read_mpconf s p = \<lparr>mc_length = phys16 s (p + 4), mc_version = phys_byte s (p + 6),
     mc_entry = phys16 s (p + 34), mc_lapicaddr = phys32 s (p + 36), mc_xlength = phys16 s (p + 40),
     mc_xchecksum = phys_byte s (p + 42), mc_entries = p + 44\<rparr>"

record mpproc =
  pr_apicid :: u8
  pr_flags :: u8

definition read_mpproc :: "kst \<Rightarrow> u32 \<Rightarrow> mpproc" where
  "read_mpproc s p = \<lparr>pr_apicid = phys_byte s (p + 1), pr_flags = phys_byte s (p + 3)\<rparr>"

section \<open>Search and checks\<close>

definition mp_sum :: "kst \<Rightarrow> u32 \<Rightarrow> nat \<Rightarrow> u8" where
  "mp_sum s addr len = of_nat (sum_list (map (\<lambda>i. unat (phys_byte s (addr + of_nat i))) [0..<len]))"

definition signed_with :: "kst \<Rightarrow> u32 \<Rightarrow> string \<Rightarrow> bool" where
  "signed_with s p sig = (\<forall>i < length sig. phys_byte s (p + of_nat i) = of_char (sig ! i))"

text \<open>The loop steps through \<open>len\<close> bytes (a multiple of 16 at every call) in structures of 16.\<close>

definition mpsearch1 :: "u32 \<Rightarrow> nat \<Rightarrow> u32 option K" where
  "mpsearch1 a len = bnd (KADDR a) (\<lambda>_. bnd (KADDR (a + of_nat len)) (\<lambda>_.
     gets (\<lambda>s. List.find (\<lambda>p. signed_with s p ''_MP_'' \<and> mp_sum s p 16 = 0)
       (takeWhile (\<lambda>p. p + KERNBASE < a + of_nat len + KERNBASE) (map (\<lambda>k. a + 16 * of_nat k) [0..<len div 16])))))"

definition mpsearch :: "u32 option K" where
  "mpsearch = bnd (KADDR 0x400) (\<lambda>_. bnd (gets (\<lambda>s. (phys16 s 0x40E, phys16 s 0x413))) (\<lambda>(ebda, base).
     bnd (if ebda \<noteq> 0 then mpsearch1 (push_bit 4 (ucast ebda)) 1024
          else mpsearch1 (ucast base * 1024 - 1024) 1024) (\<lambda>mp. case mp of
       Some p \<Rightarrow> ret (Some p)
     | None \<Rightarrow> mpsearch1 0xF0000 0x10000)))"

text \<open>The result is the floating pointer and the configuration table.\<close>

definition mpconfig :: "(u32 \<times> u32) option K" where
  "mpconfig = bnd mpsearch (\<lambda>found. case found of None \<Rightarrow> ret None | Some p \<Rightarrow>
     bnd (gets (\<lambda>s. read_mp s p)) (\<lambda>mp.
     if mp_physaddr mp = 0 \<or> mp_type mp \<noteq> 0
     then thn (cprintf ''SMP: Default configurations not implemented\<newline>'' []) (ret None)
     else let c = mp_physaddr mp in bnd (KADDR c) (\<lambda>_. bnd (gets (\<lambda>s. s)) (\<lambda>s.
       let conf = read_mpconf s c in
       if \<not> signed_with s c ''PCMP''
       then thn (cprintf ''SMP: Incorrect MP configuration table signature\<newline>'' []) (ret None)
       else if mp_sum s c (unat (mc_length conf)) \<noteq> 0
       then thn (cprintf ''SMP: Bad MP configuration checksum\<newline>'' []) (ret None)
       else if mc_version conf \<noteq> 1 \<and> mc_version conf \<noteq> 4
       then thn (cprintf ''SMP: Unsupported MP version %d\<newline>'' [ucast (mc_version conf)]) (ret None)
       else if mp_sum s (c + ucast (mc_length conf)) (unat (mc_xlength conf)) + mc_xchecksum conf \<noteq> 0
       then thn (cprintf ''SMP: Bad MP configuration extended checksum\<newline>'' []) (ret None)
       else ret (Some (p, c))))))"

section \<open>mp\_init\<close>

definition add_cpu :: "mpproc \<Rightarrow> unit M" where
  "add_cpu proc =
     thn (modify (\<lambda>M. if pr_flags proc AND MPPROC_BOOT \<noteq> 0 then M\<lparr>bootcpu := ncpu M\<rparr> else M))
     (bnd (gets ncpu) (\<lambda>n.
      if n < NCPU then modify (\<lambda>M. M\<lparr>cpu_id := (cpu_id M)(n := of_nat n), ncpu := n + 1\<rparr>)
      else kern (cprintf ''SMP: too many CPUs, CPU %d disabled\<newline>'' [ucast (pr_apicid proc)])))"

text \<open>The loop over the entries, \<open>n\<close> still to go; an unknown type ends it.\<close>

primrec mp_entries :: "u32 \<Rightarrow> nat \<Rightarrow> unit M" where
  "mp_entries p 0 = ret ()"
| "mp_entries p (Suc n) = bnd (gets (\<lambda>M. phys_byte (kernel M) p)) (\<lambda>ty.
     if ty = MPPROC then bnd (gets (\<lambda>M. read_mpproc (kernel M) p)) (\<lambda>proc. thn (add_cpu proc) (mp_entries (p + 20) n))
     else if ty \<in> {MPBUS, MPIOAPIC, MPIOINTR, MPLINTR} then mp_entries (p + 8) n
     else thn (kern (cprintf ''mpinit: unknown config type %x\<newline>'' [ucast ty]))
       (modify (\<lambda>M. M\<lparr>ismp := False\<rparr>)))"

definition boot_started :: "unit M" where
  "boot_started = modify (\<lambda>M. M\<lparr>kernel := (kernel M)\<lparr>cpus :=
     (cpus (kernel M))(bootcpu M := (cpus (kernel M) (bootcpu M))\<lparr>cpu_status := CPU_STARTED\<rparr>)\<rparr>\<rparr>)"

definition mp_init :: "unit M" where
  "mp_init =
     thn (modify (\<lambda>M. M\<lparr>bootcpu := 0\<rparr>))
     (bnd (kern mpconfig) (\<lambda>found. case found of None \<Rightarrow> ret () | Some (p, c) \<Rightarrow>
      bnd (gets (\<lambda>M. (read_mp (kernel M) p, read_mpconf (kernel M) c))) (\<lambda>(mp, conf).
      thn (modify (\<lambda>M. M\<lparr>ismp := True, lapicaddr := mc_lapicaddr conf\<rparr>))
      (thn (mp_entries (mc_entries conf) (unat (mc_entry conf)))
      (thn boot_started
      (bnd (gets (\<lambda>M. (ismp M, ucast (cpu_id M (bootcpu M)), ncpu M))) (\<lambda>(smp, boot, n).
       if \<not> smp
       then thn (modify (\<lambda>M. M\<lparr>ncpu := 1, lapicaddr := 0\<rparr>))
            (kern (cprintf ''SMP: configuration not found, SMP disabled\<newline>'' []))
       else thn (kern (cprintf ''SMP: CPU %d found %d CPU(s)\<newline>'' [boot, of_nat n]))
            (whenM (mp_imcrp mp \<noteq> 0)
              (thn (kern (cprintf ''SMP: Setting IMCR to switch from PIC mode to symmetric I/O mode\<newline>'' []))
              (thn (outb 0x22 0x70) (bnd (inb 0x23) (\<lambda>v. outb 0x23 (v OR 1)))))))))))))"

section \<open>What the search finds\<close>

definition mp_valid :: "kst \<Rightarrow> u32 \<Rightarrow> bool" where
  "mp_valid s p \<longleftrightarrow> signed_with s p ''_MP_'' \<and> mp_sum s p 16 = 0"

definition mp_places :: "kst \<Rightarrow> u32 list" where
  "mp_places s = (let ebda = phys16 s 0x40E; area = (if ebda \<noteq> 0 then push_bit 4 (ucast ebda) else ucast (phys16 s 0x413) * 1024 - 1024)
     in map (\<lambda>k. area + 16 * of_nat k) [0..<64] @ map (\<lambda>k. 0xF0000 + 16 * of_nat k) [0..<4096])"

lemma mpsearch1_exec:
  assumes "256 < npages s" "unat a + len \<le> 0x100000" "16 dvd len"
  shows "mpsearch1 a len s = (Inr (List.find (mp_valid s) (map (\<lambda>k. a + 16 * of_nat k) [0..<len div 16])), s)"
proof -
  have e: "unat (a + of_nat len) = unat a + len" using assms(2) by (simp add: unat_word_ariths unat_of_nat)
  have ka: "KADDR a s = (Inr (PGNUM a), s)" "KADDR (a + of_nat len) s = (Inr (PGNUM (a + of_nat len)), s)"
    by (rule KADDR_exec, use assms(1,2) e in \<open>simp add: PGNUM_div\<close>)+
  have lt: "a + 16 * of_nat k + KERNBASE < a + of_nat len + KERNBASE" if "k < len div 16" for k
  proof -
    have k: "16 * k < len" using that assms(3) by auto
    then have u: "unat (16 * of_nat k :: u32) = 16 * k" using assms(2) by (simp add: unat_word_ariths unat_of_nat)
    then have "unat (a + 16 * of_nat k) = unat a + 16 * k" using k assms(2) by (simp add: unat_word_ariths)
    then have "unat (a + 16 * of_nat k + KERNBASE) = unat a + 16 * k + 0xF0000000"
      "unat (a + of_nat len + KERNBASE) = unat a + len + 0xF0000000"
      using e k assms(2) by (simp_all add: unat_word_ariths)
    then show ?thesis using k by (simp only: word_less_nat_alt)
  qed
  then have tw: "takeWhile (\<lambda>p. p + KERNBASE < a + of_nat len + KERNBASE) (map (\<lambda>k. a + 16 * of_nat k) [0..<len div 16])
      = map (\<lambda>k. a + 16 * of_nat k) [0..<len div 16]"
    by (intro takeWhile_eq_all_conv [THEN iffD2]) auto
  show ?thesis
    by (simp only: mpsearch1_def bnd_def [of "KADDR _"] ka prod.case sum.case gets_exec tw mp_valid_def [abs_def])
qed

lemma find_append: "List.find P (xs @ ys) = (case List.find P xs of None \<Rightarrow> List.find P ys | Some x \<Rightarrow> Some x)"
  by (induction xs) auto

lemma mpsearch_exec:
  assumes "256 < npages s" "unat (phys16 s 0x40E) \<le> 0xFFC0" "phys16 s 0x40E = 0 \<Longrightarrow> phys16 s 0x413 \<noteq> 0 \<and> phys16 s 0x413 \<le> 1024"
  shows "mpsearch s = (Inr (List.find (mp_valid s) (mp_places s)), s)"
proof -
  have b: "KADDR 0x400 s = (Inr 0, s)" using KADDR_exec [of "0x400" s] assms(1) by (simp add: PGNUM_div)
  let ?area = "if phys16 s 0x40E \<noteq> 0 then push_bit 4 (ucast (phys16 s 0x40E)) else ucast (phys16 s 0x413) * 1024 - 1024 :: u32"
  have "unat ?area + 1024 \<le> 0x100000"
  proof (cases "phys16 s 0x40E = 0")
    case False
    have "unat (push_bit 4 (ucast (phys16 s 0x40E)) :: u32) = 16 * unat (phys16 s 0x40E)"
      using assms(2) by (simp add: push_bit_eq_mult unat_word_ariths unsigned_ucast_eq take_bit_nat_eq_self)
    then show ?thesis using False assms(2) by simp
  next
    case True
    let ?k = "unat (phys16 s 0x413)"
    have k: "0 < ?k" "?k \<le> 1024" using assms(3) [OF True] by (simp_all add: word_le_nat_alt unat_gt_0)
    have "unat (ucast (phys16 s 0x413) * 1024 :: u32) = ?k * 1024"
      using k by (simp add: unat_word_ariths unsigned_ucast_eq take_bit_nat_eq_self)
    then have "unat (ucast (phys16 s 0x413) * 1024 - 1024 :: u32) = ?k * 1024 - 1024"
      using k by (subst unat_sub) (simp_all add: word_le_nat_alt)
    then show ?thesis using True k by simp
  qed
  then have 1: "mpsearch1 ?area 1024 s = (Inr (List.find (mp_valid s) (map (\<lambda>k. ?area + 16 * of_nat k) [0..<64])), s)"
    using mpsearch1_exec [OF assms(1), of ?area 1024] by simp
  have 2: "mpsearch1 0xF0000 0x10000 s = (Inr (List.find (mp_valid s) (map (\<lambda>k. 0xF0000 + 16 * of_nat k) [0..<4096])), s)"
    using mpsearch1_exec [OF assms(1), of "0xF0000" "0x10000"] by simp
  have "(if phys16 s 0x40E \<noteq> 0 then mpsearch1 (push_bit 4 (ucast (phys16 s 0x40E))) 1024
      else mpsearch1 (ucast (phys16 s 0x413) * 1024 - 1024) 1024) = mpsearch1 ?area 1024" by simp
  then have "mpsearch s = bnd (mpsearch1 ?area 1024) (\<lambda>mp. case mp of Some p \<Rightarrow> ret (Some p)
      | None \<Rightarrow> mpsearch1 0xF0000 0x10000) s"
    by (simp only: mpsearch_def bnd_def [of "KADDR _"] b prod.case sum.case bnd_gets)
  also have "\<dots> = (Inr (List.find (mp_valid s) (mp_places s)), s)"
    unfolding mp_places_def Let_def find_append
    by (simp only: bnd_def 1 prod.case sum.case) (simp only: 2 ret_exec split: option.splits, simp)
  finally show ?thesis .
qed

text \<open>mpsearch finds the first valid floating pointer structure, in the order of the specification: the
  first kilobyte of the extended BIOS data area, or the last of base memory when there is none, then
  the BIOS ROM.\<close>

theorem mpsearch_finds_first:
  assumes "256 < npages s" "unat (phys16 s 0x40E) \<le> 0xFFC0" "phys16 s 0x40E = 0 \<Longrightarrow> phys16 s 0x413 \<noteq> 0 \<and> phys16 s 0x413 \<le> 1024"
  shows "mpsearch s = (Inr (List.find (mp_valid s) (mp_places s)), s)"
  by (rule mpsearch_exec [OF assms])

section \<open>What mp\_init makes of a table\<close>

text \<open>Entries of a configuration table, and the bytes they are stored as.\<close>

datatype entry = Processor (apic: u8) (flags: u8) | Device u8

fun stored :: "kst \<Rightarrow> u32 \<Rightarrow> entry list \<Rightarrow> bool" where
  "stored s p [] \<longleftrightarrow> True"
| "stored s p (Processor a f # es) \<longleftrightarrow> phys_byte s p = MPPROC \<and> phys_byte s (p + 1) = a \<and> phys_byte s (p + 3) = f \<and> stored s (p + 20) es"
| "stored s p (Device ty # es) \<longleftrightarrow> phys_byte s p = ty \<and> ty \<in> {MPBUS, MPIOAPIC, MPIOINTR, MPLINTR} \<and> stored s (p + 8) es"

fun processors :: "entry list \<Rightarrow> entry list" where
  "processors [] = []"
| "processors (Processor a f # es) = Processor a f # processors es"
| "processors (Device ty # es) = processors es"

text \<open>Where the last processor flagged as the boot processor is, counting from \<open>n\<close>.\<close>

fun boot_index :: "nat \<Rightarrow> nat \<Rightarrow> entry list \<Rightarrow> nat" where
  "boot_index n b [] = b"
| "boot_index n b (Processor a f # es) = boot_index (min NCPU (n + 1)) (if f AND MPPROC_BOOT \<noteq> 0 then n else b) es"
| "boot_index n b (Device ty # es) = boot_index n b es"

definition same_but_trace :: "machine \<Rightarrow> machine \<Rightarrow> bool" where
  "same_but_trace M M' \<longleftrightarrow> (\<exists>t. kernel M' = (kernel M)\<lparr>trace := t\<rparr>)"

lemma same_but_trace_refl [simp]: "same_but_trace M M"
  unfolding same_but_trace_def by (rule exI [of _ "trace (kernel M)"]) simp

lemma same_but_trace_kernel: "kernel M' = kernel M \<Longrightarrow> same_but_trace M M'"
  unfolding same_but_trace_def by (rule exI [of _ "trace (kernel M)"]) simp

lemma same_but_trace_print: "same_but_trace M (with_trace t M)"
  by (auto simp: same_but_trace_def)

lemma same_but_trace_byte: "same_but_trace M M' \<Longrightarrow> phys_byte (kernel M') p = phys_byte (kernel M) p"
  by (auto simp: same_but_trace_def phys_byte_def)

lemma stored_cong: "(\<And>p. phys_byte s' p = phys_byte s p) \<Longrightarrow> stored s' p es = stored s p es"
  by (induction s p es rule: stored.induct) simp_all

lemma add_cpu_exec:
  assumes "ncpu M \<le> NCPU"
  shows "\<exists>M'. add_cpu (read_mpproc (kernel M) p) M = (Inr (), M') \<and> ncpu M' = min NCPU (ncpu M + 1)
    \<and> bootcpu M' = (if phys_byte (kernel M) (p + 3) AND MPPROC_BOOT \<noteq> 0 then ncpu M else bootcpu M)
    \<and> cpu_id M' = (if ncpu M < NCPU then (cpu_id M)(ncpu M := of_nat (ncpu M)) else cpu_id M)
    \<and> same_but_trace M M' \<and> ismp M' = ismp M \<and> lapicaddr M' = lapicaddr M \<and> port_value M' = port_value M"
  using assms
  by (simp add: add_cpu_def read_mpproc_def kern_cprintf same_but_trace_kernel) (auto simp: same_but_trace_def with_trace_def)

lemma mp_entries_exec:
  assumes "stored (kernel M) p es" "ncpu M \<le> NCPU"
  shows "\<exists>M'. mp_entries p (length es) M = (Inr (), M') \<and> ncpu M' = min NCPU (ncpu M + length (processors es))
    \<and> bootcpu M' = boot_index (ncpu M) (bootcpu M) es
    \<and> (\<forall>i < NCPU. cpu_id M' i = (if ncpu M \<le> i \<and> i < ncpu M + length (processors es) then of_nat i else cpu_id M i))
    \<and> same_but_trace M M' \<and> ismp M' = ismp M \<and> lapicaddr M' = lapicaddr M \<and> port_value M' = port_value M"
  using assms
proof (induction es arbitrary: p M)
  case Nil
  then show ?case by (intro exI [of _ M]) auto
next
  case (Cons e es)
  show ?case
  proof (cases e)
    case (Device ty)
    then show ?thesis using Cons.IH [of M "p + 8"] Cons.prems by auto
  next
    case (Processor a f)
    have st: "phys_byte (kernel M) p = 0" "phys_byte (kernel M) (p + 3) = f" "stored (kernel M) (p + 20) es"
      using Cons.prems(1) Processor by simp_all
    obtain M1 where 1: "add_cpu (read_mpproc (kernel M) p) M = (Inr (), M1)" "ncpu M1 = min NCPU (ncpu M + 1)"
      "bootcpu M1 = (if f AND MPPROC_BOOT \<noteq> 0 then ncpu M else bootcpu M)"
      "cpu_id M1 = (if ncpu M < NCPU then (cpu_id M)(ncpu M := of_nat (ncpu M)) else cpu_id M)"
      "same_but_trace M M1" "ismp M1 = ismp M" "lapicaddr M1 = lapicaddr M" "port_value M1 = port_value M"
      using add_cpu_exec [OF Cons.prems(2), of p] st(2) by auto
    have "stored (kernel M1) (p + 20) es" using st(3) stored_cong same_but_trace_byte [OF 1(5)] by blast
    moreover have "ncpu M1 \<le> NCPU" using 1(2) by simp
    ultimately obtain M2 where 2: "mp_entries (p + 20) (length es) M1 = (Inr (), M2)"
      "ncpu M2 = min NCPU (ncpu M1 + length (processors es))" "bootcpu M2 = boot_index (ncpu M1) (bootcpu M1) es"
      "\<forall>i < NCPU. cpu_id M2 i = (if ncpu M1 \<le> i \<and> i < ncpu M1 + length (processors es) then of_nat i else cpu_id M1 i)"
      "same_but_trace M1 M2" "ismp M2 = ismp M1" "lapicaddr M2 = lapicaddr M1" "port_value M2 = port_value M1"
      using Cons.IH [of M1 "p + 20"] by blast
    have "mp_entries p (length (e # es)) M = (Inr (), M2)"
      using st(1) by (simp add: thn_def bnd_def [of "add_cpu _"] 1(1) 2(1))
    moreover have "same_but_trace M M2" using 1(5) 2(5) by (auto simp: same_but_trace_def)
    moreover have "cpu_id M2 i = (if ncpu M \<le> i \<and> i < ncpu M + length (processors (e # es)) then of_nat i else cpu_id M i)"
      if "i < NCPU" for i
      using 2(4) that 1(2,4) Cons.prems(2) Processor by (auto simp: min_def)
    ultimately show ?thesis
      using 1 2 Processor Cons.prems(2) by (intro exI [of _ M2]) (simp add: min_def)
  qed
qed

text \<open>A configuration table that mpconfig accepts has the signature, a supported version, and bytes that sum
  up to zero, in the table and in its extension; nothing but the trace changes.\<close>

theorem mpconfig_checked:
  assumes "mpconfig s = (Inr (Some (p, c)), s')" "256 < npages s" "unat (phys16 s 0x40E) \<le> 0xFFC0"
    "phys16 s 0x40E = 0 \<Longrightarrow> phys16 s 0x413 \<noteq> 0 \<and> phys16 s 0x413 \<le> 1024"
  shows "s' = s \<and> p \<in> set (mp_places s) \<and> mp_valid s p \<and> c = mp_physaddr (read_mp s p) \<and> c \<noteq> 0
    \<and> PGNUM c < npages s \<and> signed_with s c ''PCMP''
    \<and> (let conf = read_mpconf s c in mp_sum s c (unat (mc_length conf)) = 0 \<and> mc_version conf \<in> {1, 4}
       \<and> mp_sum s (c + ucast (mc_length conf)) (unat (mc_xlength conf)) + mc_xchecksum conf = 0)"
proof -
  note f = mpsearch_exec [OF assms(2-4)]
  obtain q where q: "List.find (mp_valid s) (mp_places s) = Some q"
    using assms(1) f by (cases "List.find (mp_valid s) (mp_places s)") (simp_all add: mpconfig_def bnd_def)
  then have v: "q \<in> set (mp_places s)" "mp_valid s q" by (auto simp: find_Some_iff)
  have k: "KADDR a s = (if PGNUM a < npages s then (Inr (PGNUM a), s) else (Inl (Panic ''KADDR called with invalid pa''), s))" for a
    by (simp add: KADDR_def)
  show ?thesis
    using assms(1) v unfolding mpconfig_def
    by (simp only: bnd_def [of mpsearch] f q prod.case sum.case option.case bnd_gets)
       (auto simp: k bnd_def [of "KADDR _"] split: if_splits)
qed

definition boot_status :: "nat \<Rightarrow> (nat \<Rightarrow> CpuInfo) \<Rightarrow> nat \<Rightarrow> CpuInfo" where
  "boot_status b cs = cs(b := (cs b)\<lparr>cpu_status := CPU_STARTED\<rparr>)"

lemma mp_init_exec:
  assumes conf: "mpconfig (kernel M) = (Inr (Some (p, c)), kernel M)"
    and es: "stored (kernel M) (c + 44) es" "length es = unat (mc_entry (read_mpconf (kernel M) c))" "ncpu M = 0"
  shows "\<exists>M'. mp_init M = (Inr (), M') \<and> ismp M' \<and> lapicaddr M' = mc_lapicaddr (read_mpconf (kernel M) c)
    \<and> ncpu M' = min NCPU (length (processors es)) \<and> (\<forall>i < ncpu M'. cpu_id M' i = of_nat i)
    \<and> bootcpu M' = boot_index 0 0 es \<and> cpus (kernel M') = boot_status (bootcpu M') (cpus (kernel M))"
proof -
  let ?conf = "read_mpconf (kernel M) c" and ?mp = "read_mp (kernel M) p"
  let ?M0 = "M\<lparr>bootcpu := 0, ismp := True, lapicaddr := mc_lapicaddr ?conf\<rparr>"
  have ent: "mc_entries ?conf = c + 44" by (simp add: read_mpconf_def)
  obtain M1 where 1: "mp_entries (c + 44) (length es) ?M0 = (Inr (), M1)" "ncpu M1 = min NCPU (length (processors es))"
    "bootcpu M1 = boot_index 0 0 es" "\<forall>i < NCPU. cpu_id M1 i = (if i < length (processors es) then of_nat i else cpu_id M i)"
    "same_but_trace ?M0 M1" "ismp M1" "lapicaddr M1 = mc_lapicaddr ?conf"
    using mp_entries_exec [of ?M0 "c + 44" es] es by auto
  let ?M2 = "M1\<lparr>kernel := (kernel M1)\<lparr>cpus := boot_status (bootcpu M1) (cpus (kernel M1))\<rparr>\<rparr>"
  have cp: "cpus (kernel M1) = cpus (kernel M)" using 1(5) by (auto simp: same_but_trace_def)
  have k: "kern mpconfig (M\<lparr>bootcpu := 0\<rparr>) = (Inr (Some (p, c)), M\<lparr>bootcpu := 0\<rparr>)"
    using conf by (simp add: kern_def)
  define fin where "fin = thn (kern (cprintf ''SMP: CPU %d found %d CPU(s)\<newline>'' [ucast (cpu_id ?M2 (bootcpu ?M2)), of_nat (ncpu ?M2)]))
            (whenM (mp_imcrp ?mp \<noteq> 0)
              (thn (kern (cprintf ''SMP: Setting IMCR to switch from PIC mode to symmetric I/O mode\<newline>'' []))
              (thn (outb 0x22 0x70) (bnd (inb 0x23) (\<lambda>v. outb 0x23 (v OR 1))))))"
  have "mp_init M = fin ?M2"
    unfolding mp_init_def fin_def
    using k ent es(2) 1(6)
    by (simp only: thn_modify bnd_def [of "kern mpconfig"] prod.case sum.case option.case bnd_gets machine.select_convs
      machine.update_convs machine.simps thn_def [of "mp_entries _ _"] bnd_def [of "mp_entries _ _"] 1(1) boot_started_def boot_status_def
      simp_thms if_False if_True)
       (simp add: 1(1) [unfolded es(2)] boot_status_def)
  moreover have "\<exists>M'. fin ?M2 = (Inr (), M') \<and> ismp M' = ismp ?M2 \<and> lapicaddr M' = lapicaddr ?M2 \<and> ncpu M' = ncpu ?M2
     \<and> cpu_id M' = cpu_id ?M2 \<and> bootcpu M' = bootcpu ?M2 \<and> cpus (kernel M') = cpus (kernel ?M2)"
    unfolding fin_def by (cases "mp_imcrp ?mp = 0") (simp_all add: kprint_then kern_cprintf with_trace_def)
  ultimately obtain M' where "mp_init M = (Inr (), M')" "ismp M' = ismp M1" "lapicaddr M' = lapicaddr M1" "ncpu M' = ncpu M1"
     "cpu_id M' = cpu_id M1" "bootcpu M' = bootcpu M1" "cpus (kernel M') = boot_status (bootcpu M1) (cpus (kernel M1))"
    by auto
  then show ?thesis using 1 cp by auto
qed

text \<open>
  A BIOS for the witnesses: the floating pointer in the extended BIOS data area, the configuration table
  behind it with \<open>e\<close> entries, and the boot flag at \<open>a\<close>.
\<close>

definition bios_bytes :: "(u32 \<times> u8) list" where
  "bios_bytes = [(0x40F, 1), (0x1000, 0x5F), (0x1001, 0x4D), (0x1002, 0x50), (0x1003, 0x5F), (0x1004, 0x10), (0x1005, 0x10),
     (0x100A, 0x85), (0x1010, 0x50), (0x1011, 0x43), (0x1012, 0x4D), (0x1013, 0x50), (0x1014, 8), (0x1016, 4), (0x1017, 0xC4),
     (0x1036, 0xE0), (0x1037, 0xFE)]"

definition bios_kst :: "u8 \<Rightarrow> u32 \<Rightarrow> kst" where
  "bios_kst e a = fold (\<lambda>(p, v). store_byte p v) (bios_bytes @ [(0x1032, e), (a, 2)]) (zero_kst\<lparr>npages := 512\<rparr>)"

lemma stored_bytes: "phys_byte (fold (\<lambda>(p, v). store_byte p v) bs s) q
    = (case map_of (rev bs) q of Some v \<Rightarrow> v | None \<Rightarrow> phys_byte s q)"
  by (induction bs arbitrary: s) (auto simp: phys_byte_store map_add_def split: option.splits)

lemma bios_byte: "phys_byte (bios_kst e a) p = (if p = a then 2 else if p = 0x1032 then e
    else case map_of (rev bios_bytes) p of Some v \<Rightarrow> v | None \<Rightarrow> 0)"
proof -
  have "phys_byte (zero_kst\<lparr>npages := 512\<rparr>) p = 0" by (simp add: phys_byte_def zero_kst_def)
  then show ?thesis unfolding bios_kst_def stored_bytes by (simp split: option.split)
qed

lemma bios_npages: "npages (bios_kst e a) = 512"
proof -
  have "npages (fold (\<lambda>(p, v). store_byte p v) bs s) = npages s" for bs s
    by (induction bs arbitrary: s) (auto simp: store_byte_def)
  then show ?thesis by (simp only: bios_kst_def) (simp add: zero_kst_def)
qed

lemma bios_config:
  assumes "0x103C \<le> a"
  shows "mpconfig (bios_kst e a) = (Inr (Some (0x1000, 0x1010)), bios_kst e a)"
    "mc_entry (read_mpconf (bios_kst e a) 0x1010) = ucast e" "mc_lapicaddr (read_mpconf (bios_kst e a) 0x1010) = 0xFEE00000"
proof -
  have b: "phys_byte (bios_kst e a) p = (if p = 0x1032 then e else case map_of (rev bios_bytes) p of Some v \<Rightarrow> v | None \<Rightarrow> 0)"
    if "p < 0x103C" for p
    using that assms by (auto simp: bios_byte)
  have e: "phys16 (bios_kst e a) 0x40E = 0x100" by (simp add: phys16_def b bios_bytes_def)
  have u16: "[0..<16] = [0, 1, 2, 3, 4, 5, 6, 7, 8, 9, 10, 11, 12, 13, 14, 15 :: nat]" by code_simp
  have u8: "[0..<8] = [0, 1, 2, 3, 4, 5, 6, 7 :: nat]" by code_simp
  have v: "mp_valid (bios_kst e a) 0x1000"
    by (simp add: mp_valid_def signed_with_def mp_sum_def b bios_bytes_def u16 All_less_Suc)
  have "[0..<64] = 0 # [1..<64 :: nat]" by (simp add: upt_conv_Cons)
  then have "List.find (mp_valid (bios_kst e a)) (mp_places (bios_kst e a)) = Some 0x1000"
    using v by (simp add: mp_places_def e)
  then have s: "mpsearch (bios_kst e a) = (Inr (Some 0x1000), bios_kst e a)"
    using mpsearch_exec [of "bios_kst e a"] e by (simp add: bios_npages)
  show "mc_entry (read_mpconf (bios_kst e a) 0x1010) = ucast e" "mc_lapicaddr (read_mpconf (bios_kst e a) 0x1010) = 0xFEE00000"
    by (simp_all add: read_mpconf_def phys16_def phys32_def b bios_bytes_def)
  have m: "mp_physaddr (read_mp (bios_kst e a) 0x1000) = 0x1010" "mp_type (read_mp (bios_kst e a) 0x1000) = 0"
    by (simp_all add: read_mp_def phys16_def phys32_def b bios_bytes_def)
  have c: "signed_with (bios_kst e a) 0x1010 ''PCMP''" "mp_sum (bios_kst e a) 0x1010 8 = 0"
    "mc_length (read_mpconf (bios_kst e a) 0x1010) = 8" "mc_version (read_mpconf (bios_kst e a) 0x1010) = 4"
    "mc_xlength (read_mpconf (bios_kst e a) 0x1010) = 0" "mc_xchecksum (read_mpconf (bios_kst e a) 0x1010) = 0"
    by (simp_all add: signed_with_def mp_sum_def read_mpconf_def phys16_def b bios_bytes_def u8 All_less_Suc)
  have "KADDR 0x1010 (bios_kst e a) = (Inr 1, bios_kst e a)"
    using KADDR_exec [of "0x1010" "bios_kst e a"] by (simp add: bios_npages PGNUM_div)
  then show "mpconfig (bios_kst e a) = (Inr (Some (0x1000, 0x1010)), bios_kst e a)"
    using c m by (simp add: mpconfig_def bnd_def s mp_sum_def [of _ _ 0])
qed

section \<open>Properties of mp\_init\<close>

text \<open>C24: From a table whose entries are all known, mp\_init numbers the processors listed, up to the maximum, takes
  the one flagged for the boot processor, marks it started, and turns multiprocessing on; buses and
  interrupt lines in between are stepped over by their own size.\<close>

theorem mp_init_numbers_processors:
  assumes "mpconfig (kernel M) = (Inr (Some (p, c)), kernel M)" "stored (kernel M) (c + 44) es"
    "length es = unat (mc_entry (read_mpconf (kernel M) c))" "ncpu M = 0"
  shows "\<exists>M'. mp_init M = (Inr (), M') \<and> ismp M' \<and> lapicaddr M' = mc_lapicaddr (read_mpconf (kernel M) c)
    \<and> ncpu M' = min NCPU (length (processors es)) \<and> (\<forall>i < ncpu M'. cpu_id M' i = of_nat i)
    \<and> bootcpu M' = boot_index 0 0 es \<and> cpu_status (cpus (kernel M') (bootcpu M')) = CPU_STARTED
    \<and> (\<forall>i. i \<noteq> bootcpu M' \<longrightarrow> cpus (kernel M') i = cpus (kernel M) i)"
proof -
  obtain M' where "mp_init M = (Inr (), M')" "ismp M'" "lapicaddr M' = mc_lapicaddr (read_mpconf (kernel M) c)"
    "ncpu M' = min NCPU (length (processors es))" "\<forall>i < ncpu M'. cpu_id M' i = of_nat i"
    "bootcpu M' = boot_index 0 0 es" "cpus (kernel M') = boot_status (bootcpu M') (cpus (kernel M))"
    using mp_init_exec [OF assms] by blast
  then show ?thesis by (intro exI [of _ M']) (simp add: boot_status_def)
qed

definition bios_machine :: "u8 \<Rightarrow> u32 \<Rightarrow> machine" where
  "bios_machine e a = zero_machine\<lparr>kernel := bios_kst e a\<rparr>"

lemma replicate_8: "replicate 8 x = [x, x, x, x, x, x, x, x]"
  by (simp add: numeral_eq_Suc)

lemma bios_entries:
  "stored (bios_kst 1 0x103F) 0x103C [Processor 0 2]"
  "stored (bios_kst 9 0x10DF) 0x103C (replicate 8 (Processor 0 0) @ [Processor 0 2])"
  by (simp_all only: replicate_8 append.simps) (simp_all add: bios_byte bios_bytes_def)

theorem mp_init_numbers_processors_witness:
  "\<exists>M'. mp_init (bios_machine 1 0x103F) = (Inr (), M') \<and> ismp M' \<and> ncpu M' = 1 \<and> lapicaddr M' = 0xFEE00000"
proof -
  have k: "kernel (bios_machine 1 0x103F) = bios_kst 1 0x103F" "ncpu (bios_machine 1 0x103F) = 0"
    by (simp_all add: bios_machine_def zero_machine_def)
  note c = bios_config [of "0x103F" 1]
  have "length [Processor 0 2] = unat (mc_entry (read_mpconf (bios_kst 1 0x103F) 0x1010))" using c(2) by simp
  with mp_init_numbers_processors [of "bios_machine 1 0x103F" "0x1000" "0x1010" "[Processor 0 2]"] show ?thesis
    using c bios_entries(1) unfolding k by auto
qed

lemma boot_index_later:
  assumes "NCPU \<le> length (processors es1)" "f AND MPPROC_BOOT \<noteq> 0"
    and "\<forall>g \<in> set es2. \<forall>b h. g = Processor b h \<longrightarrow> h AND MPPROC_BOOT = 0"
  shows "boot_index 0 0 (es1 @ [Processor a f] @ es2) = NCPU"
proof -
  have rest: "boot_index n b es2 = b" for n b
    using assms(3) by (induction n b es2 rule: boot_index.induct) auto
  have "boot_index n b (es1 @ [Processor a f] @ es2) = min NCPU (n + length (processors es1))" if "n \<le> NCPU" for n b
    using that assms(2) by (induction n b es1 rule: boot_index.induct) (auto simp: min_def rest)
  then show ?thesis using assms(1) by simp
qed

text \<open>C29: when the entry of the bootstrap processor comes anywhere in the table after those of NCPU others (and no later
  entry carries its flag), mp\_init takes \<open>cpus[NCPU]\<close>, which is behind the end of the array, for the boot
  processor, and marks it as started. In C that write hits whatever lies there; in the model the slot NCPU
  stands for it.\<close>

theorem bootcpu_past_the_end:
  assumes "mpconfig (kernel M) = (Inr (Some (p, c)), kernel M)" "stored (kernel M) (c + 44) (es1 @ [Processor a f] @ es2)"
    "length (es1 @ [Processor a f] @ es2) = unat (mc_entry (read_mpconf (kernel M) c))" "ncpu M = 0"
    "NCPU \<le> length (processors es1)" "f AND MPPROC_BOOT \<noteq> 0"
    "\<forall>g \<in> set es2. \<forall>b h. g = Processor b h \<longrightarrow> h AND MPPROC_BOOT = 0"
  shows "\<exists>M'. mp_init M = (Inr (), M') \<and> bootcpu M' = NCPU \<and> cpu_status (cpus (kernel M') NCPU) = CPU_STARTED"
proof -
  note b = boot_index_later [OF assms(5-7), of a]
  from mp_init_exec [OF assms(1-4)] obtain M' where "mp_init M = (Inr (), M')"
    "bootcpu M' = boot_index 0 0 (es1 @ [Processor a f] @ es2)" "cpus (kernel M') = boot_status (bootcpu M') (cpus (kernel M))" by blast
  then show ?thesis unfolding b by (intro exI [of _ M']) (simp add: boot_status_def)
qed

theorem bootcpu_past_the_end_witness:
  "\<exists>M'. mp_init (bios_machine 9 0x10DF) = (Inr (), M') \<and> bootcpu M' = 8"
proof -
  have k: "kernel (bios_machine 9 0x10DF) = bios_kst 9 0x10DF" "ncpu (bios_machine 9 0x10DF) = 0"
    by (simp_all add: bios_machine_def zero_machine_def)
  note c = bios_config [of "0x10DF" 9]
  have "processors (replicate n (Processor a f)) = replicate n (Processor a f)" for n a f by (induction n) simp_all
  then have n: "length (replicate 8 (Processor 0 0)) + 1 = unat (mc_entry (read_mpconf (bios_kst 9 0x10DF) 0x1010))"
    "NCPU \<le> length (processors (replicate 8 (Processor 0 0)))" using c(2) by simp_all
  show ?thesis
    using bootcpu_past_the_end [of "bios_machine 9 0x10DF" "0x1000" "0x1010" "replicate 8 (Processor 0 0)" 0 2 "[]"]
      c(1) bios_entries(2) n unfolding k by auto
qed

end
