(* ===== verification/Boot.thy ===== *)
theory Boot
  imports MpConf
begin

text \<open>
  Memory at boot (kern/pmap.c): the amount of memory the clock chip reports, the allocator that hands out
  memory before there are page lists, and mem\_init up to page\_init.

  \<^item> The kernel address of the end of the kernel image and of the per-CPU stacks come from the linker:
    \<open>end_kva\<close> and \<open>kstacks\<close> are parameters.
  \<^item> The arrays \<open>pages\<close> and \<open>envs\<close> live in the kernel state; what is allocated for them is the memory
    they would take.
\<close>

section \<open>Memory detection\<close>

definition nvram_read :: "u32 \<Rightarrow> u32 M" where
  "nvram_read r = bnd (mc146818_read r) (\<lambda>lo. bnd (mc146818_read (r + 1)) (\<lambda>hi. ret (lo OR push_bit 8 hi)))"

definition total_memory :: "u32 \<Rightarrow> u32 \<Rightarrow> u32 \<Rightarrow> u32" where
  "total_memory basemem extmem ext16mem =
     (if ext16mem \<noteq> 0 then 16 * 1024 + ext16mem else if extmem \<noteq> 0 then 1 * 1024 + extmem else basemem)"

definition i386_detect_memory :: "unit M" where
  "i386_detect_memory =
     bnd (nvram_read NVRAM_BASELO) (\<lambda>basemem.
     bnd (nvram_read NVRAM_EXTLO) (\<lambda>extmem.
     bnd (nvram_read NVRAM_EXT16LO) (\<lambda>e16.
     let totalmem = total_memory basemem extmem (e16 * 64) in
     thn (modify (\<lambda>M. M\<lparr>kernel := (kernel M)\<lparr>npages := unat (totalmem div (PGSIZE div 1024))\<rparr>,
          npages_basemem := basemem div (PGSIZE div 1024)\<rparr>))
     (kern (cprintf ''Physical memory: %uK available, base = %uK, extended = %uK\<newline>''
        [totalmem, basemem, totalmem - basemem])))))"

section \<open>boot\_alloc\<close>

definition PADDR_kva :: "u32 \<Rightarrow> u32 K" where
  "PADDR_kva kva = (if kva < KERNBASE then panic ''PADDR called with invalid kva %08lx'' else ret (kva - KERNBASE))"

definition KADDR_kva :: "u32 \<Rightarrow> u32 K" where
  "KADDR_kva pa = bnd (gets npages) (\<lambda>n.
     if PGNUM pa \<ge> n then panic ''KADDR called with invalid pa %08lx'' else ret (pa + KERNBASE))"

definition boot_alloc :: "u32 \<Rightarrow> u32 \<Rightarrow> u32 M" where
  "boot_alloc end_kva n =
     thn (modify (\<lambda>M. if nextfree M = 0 then M\<lparr>nextfree := ROUNDUP end_kva PGSIZE\<rparr> else M))
     (bnd (gets nextfree) (\<lambda>result.
      bnd (kern (PADDR_kva (result + n))) (\<lambda>last.
      bnd (gets (\<lambda>M. npages (kernel M))) (\<lambda>np.
      if last \<ge> PGSIZE * of_nat np then kern (panic ''boot_alloc: Not enough memory\<newline>'')
      else bnd (kern (KADDR_kva last)) (\<lambda>kva.
        thn (modify (\<lambda>M. M\<lparr>nextfree := ROUNDUP kva PGSIZE\<rparr>)) (ret result))))))"

section \<open>The kernel's data structures\<close>

text \<open>\<open>sizeof\<close> of the structures of inc/memlayout.h and inc/env.h.\<close>

definition sizeof_PageInfo :: u32 where [simp]: "sizeof_PageInfo = 8"
definition sizeof_Env :: u32 where [simp]: "sizeof_Env = 136"

text \<open>
  The first part of mem\_init, from the directory to page\_init; the result is where \<open>pages\<close> and \<open>envs\<close>
  are. page\_init asks boot\_alloc for the first free page, again for every frame above the kernel: the
  answer is the same each time.
\<close>

definition page_init_boot :: "u32 \<Rightarrow> unit M" where
  "page_init_boot end_kva = bnd (boot_alloc end_kva 0) (\<lambda>nf.
     bnd (kern (PADDR_kva nf)) (\<lambda>pa. kern (modify (page_init (PGNUM pa)))))"

definition boot_pgdir :: "u32 \<Rightarrow> unit M" where
  "boot_pgdir end_kva = bnd (boot_alloc end_kva PGSIZE) (\<lambda>kpd. bnd (kern (PADDR_kva kpd)) (\<lambda>kpa.
     kern (thn (modify (\<lambda>s. s\<lparr>kern_pgdir := PGNUM kpa\<rparr>))
          (thn (zero_frame (PGNUM kpa))
          (store_word (PGNUM kpa) (PDX UVPT) (kpa OR PTE_U OR PTE_P))))))"

definition boot_pages :: "u32 \<Rightarrow> u32 M" where
  "boot_pages end_kva = bnd (gets (\<lambda>M. of_nat (npages (kernel M)) * sizeof_PageInfo)) (\<lambda>pages_size.
     bnd (boot_alloc end_kva pages_size) (\<lambda>kva.
     thn (kern (modify (\<lambda>s. s\<lparr>pages := (\<lambda>_. \<lparr>pp_link = None, pp_ref = 0\<rparr>)\<rparr>))) (ret kva)))"

definition boot_envs :: "u32 \<Rightarrow> u32 M" where
  "boot_envs end_kva = bnd (boot_alloc end_kva (of_nat NENV * sizeof_Env)) (\<lambda>kva.
     thn (kern (modify (\<lambda>s. s\<lparr>envs := (\<lambda>_. zero_env)\<rparr>))) (ret kva))"

definition mem_init_alloc :: "u32 \<Rightarrow> (u32 \<times> u32) M" where
  "mem_init_alloc end_kva =
     thn (boot_pgdir end_kva)
     (bnd (boot_pages end_kva) (\<lambda>pages_kva.
      bnd (boot_envs end_kva) (\<lambda>envs_kva.
      thn (page_init_boot end_kva)
     (ret (pages_kva, envs_kva)))))"

section \<open>The mappings above UTOP\<close>

definition mem_init_mp :: "u32 \<Rightarrow> unit K" where
  "mem_init_mp kstacks = bnd (gets kern_pgdir) (\<lambda>d. for_each [0..<NCPU] (\<lambda>i.
     let stack_start = KSTACKTOP - of_nat i * (KSTKSIZE + KSTKGAP) - KSTKSIZE in
     bnd (PADDR_kva (kstacks + of_nat i * KSTKSIZE)) (\<lambda>pa.
     boot_map_region (Some d) stack_start KSTKSIZE pa (PTE_W OR PTE_P))))"

definition mem_init_map :: "u32 \<Rightarrow> u32 \<Rightarrow> u32 \<Rightarrow> unit K" where
  "mem_init_map pages_kva envs_kva kstacks =
     bnd (gets (\<lambda>s. (kern_pgdir s, of_nat (npages s) * sizeof_PageInfo))) (\<lambda>(d, pages_size).
     bnd (PADDR_kva pages_kva) (\<lambda>pages_pa.
     thn (boot_map_region (Some d) UPAGES (ROUNDUP pages_size PGSIZE) pages_pa (PTE_U OR PTE_P))
     (bnd (PADDR_kva envs_kva) (\<lambda>envs_pa.
     thn (boot_map_region (Some d) UENVS (ROUNDUP (of_nat NENV * sizeof_Env) PGSIZE) envs_pa (PTE_U OR PTE_P))
     (thn (boot_map_region (Some d) KERNBASE 0x10000000 0 (PTE_W OR PTE_P))
     (mem_init_mp kstacks))))))"

section \<open>What memory detection finds\<close>

text \<open>The 16-bit numbers the clock chip holds.\<close>

definition cmos16 :: "(u8 \<Rightarrow> u8) \<Rightarrow> u8 \<Rightarrow> nat" where
  "cmos16 cmos r = unat (cmos r) + 256 * unat (cmos (r + 1))"

definition memory_pages :: "(u8 \<Rightarrow> u8) \<Rightarrow> nat" where
  "memory_pages cmos = (if cmos16 cmos 0x34 \<noteq> 0 then 4096 + 16 * cmos16 cmos 0x34
     else if cmos16 cmos 0x17 \<noteq> 0 then (1024 + cmos16 cmos 0x17) div 4 else cmos16 cmos 0x15 div 4)"

lemma clock_chip_log: "clock_chip (log_io e M) cmos = clock_chip M cmos"
  by (simp add: clock_chip_def)

lemma nvram_value: "unat (ucast (a :: u8) OR push_bit 8 (ucast (b :: u8)) :: u32) = unat a + 256 * unat b"
proof -
  have "(ucast a :: u32) AND push_bit 8 (ucast b) = 0"
    by (rule bit_word_eqI) (auto simp: bit_simps dest: bit_imp_le_length)
  then have "ucast a OR push_bit 8 (ucast b) = (ucast a + push_bit 8 (ucast b) :: u32)"
    by (simp add: disjunctive_add_eq_or)
  moreover have "unat a < 256" "unat b < 256" using unsigned_less [where ?'a = nat, of a] unsigned_less [where ?'a = nat, of b] by simp_all
  ultimately show ?thesis
    by (simp add: unat_word_ariths unsigned_ucast_eq take_bit_nat_eq_self push_bit_eq_mult)
qed

lemma nvram_read_exec:
  assumes "clock_chip M cmos" "unat r + 1 < 256"
  shows "\<exists>M' v. nvram_read r M = (Inr v, M') \<and> unat v = cmos16 cmos (ucast r) \<and> kernel M' = kernel M
    \<and> nextfree M' = nextfree M \<and> clock_chip M' cmos"
proof -
  have "ucast (r + 1) = (ucast r + 1 :: u8)" 
    using assms(2) by (simp add: word_unat_eq_iff unat_word_ariths unsigned_ucast_eq take_bit_eq_mod)
  then show ?thesis
    using assms(1) by (simp add: nvram_read_def bnd_def mc146818_read_exec clock_chip_log nvram_value cmos16_def)
qed

text \<open>The number of frames the kernel uses is what the clock chip says, in all three cases.\<close>

theorem detect_memory_counts:
  assumes "clock_chip M cmos"
  shows "\<exists>M'. i386_detect_memory M = (Inr (), M') \<and> npages (kernel M') = memory_pages cmos
    \<and> unat (npages_basemem M') = cmos16 cmos 0x15 div 4 \<and> nextfree M' = nextfree M"
proof -
  obtain M1 b where 1: "nvram_read NVRAM_BASELO M = (Inr b, M1)" "unat b = cmos16 cmos 0x15" "kernel M1 = kernel M"
    "nextfree M1 = nextfree M" "clock_chip M1 cmos"
    using nvram_read_exec [OF assms, of NVRAM_BASELO] by auto
  obtain M2 e where 2: "nvram_read NVRAM_EXTLO M1 = (Inr e, M2)" "unat e = cmos16 cmos 0x17" "kernel M2 = kernel M1"
    "nextfree M2 = nextfree M1" "clock_chip M2 cmos"
    using nvram_read_exec [OF 1(5), of NVRAM_EXTLO] by auto
  obtain M3 x where 3: "nvram_read NVRAM_EXT16LO M2 = (Inr x, M3)" "unat x = cmos16 cmos 0x34" "kernel M3 = kernel M2"
    "nextfree M3 = nextfree M2"
    using nvram_read_exec [OF 2(5), of NVRAM_EXT16LO] by auto
  have lim: "cmos16 cmos r \<le> 65535" for r
    using unsigned_less [where ?'a = nat, of "cmos r"] unsigned_less [where ?'a = nat, of "cmos (r + 1)"]
    by (simp add: cmos16_def)
  have x: "unat (x * 64) = 64 * unat x" using 3(2) lim [of "0x34"] by (simp add: unat_word_ariths)
  then have x0: "x * 64 \<noteq> 0 \<longleftrightarrow> cmos16 cmos 0x34 \<noteq> 0" "e \<noteq> 0 \<longleftrightarrow> cmos16 cmos 0x17 \<noteq> 0"
    using 2(2) 3(2) by (auto simp: unat_eq_0 [symmetric])
  have "unat (total_memory b e (x * 64) div 4) = memory_pages cmos"
    using x x0 1(2) 2(2) 3(2) lim [of "0x34"] lim [of "0x17"]
    by (auto simp: total_memory_def memory_pages_def unat_div unat_word_ariths)
  then show ?thesis
    using 1 2 3 by (simp add: i386_detect_memory_def bnd_def [of "nvram_read _"] kern_cprintf unat_div with_trace_def)
qed

definition clock_machine :: "(u8 \<Rightarrow> u8) \<Rightarrow> machine" where
  "clock_machine cmos = zero_machine\<lparr>port_value := (\<lambda>log p. case last_out IO_RTC log of Some r \<Rightarrow> cmos r | None \<Rightarrow> 0)\<rparr>"

lemma clock_machine: "clock_chip (clock_machine cmos) cmos"
  by (simp add: clock_machine_def clock_chip_def)

theorem detect_memory_counts_witness:
  "\<exists>M'. i386_detect_memory (clock_machine (\<lambda>r. if r = 0x35 then 7 else 0)) = (Inr (), M') \<and> npages (kernel M') = 32768"
  using detect_memory_counts [OF clock_machine [of "\<lambda>r. if r = 0x35 then 7 else 0"]]
  by (auto simp: memory_pages_def cmos16_def)

section \<open>What boot\_alloc hands out\<close>

definition kva_of :: "nat \<Rightarrow> u32" where
  "kva_of f = KERNBASE + of_nat f * PGSIZE"

lemma unat_kva_of: "f < 65536 \<Longrightarrow> unat (kva_of f) = 0xF0000000 + f * 4096"
  using unat_page [of f] by (simp add: kva_of_def unat_word_ariths)

lemma kva_of_pa: "f < 65536 \<Longrightarrow> kva_of f - KERNBASE = page2pa f"
  by (simp add: kva_of_def page2pa_def push_bit_eq_mult)

lemma kva_of_neq_0: "f < 65536 \<Longrightarrow> kva_of f \<noteq> 0"
  using unat_kva_of [of f] by (auto simp: unat_eq_0 [symmetric])

text \<open>Consecutive calls hand out consecutive, page aligned memory above the kernel; \<open>f\<close> is the next free frame.\<close>

definition next_frame :: "u32 \<Rightarrow> machine \<Rightarrow> nat \<Rightarrow> bool" where
  "next_frame end_kva M f \<longleftrightarrow> (if nextfree M = 0 then ROUNDUP end_kva PGSIZE else nextfree M) = kva_of f"

lemma PADDR_kva_exec: "\<not> kva < KERNBASE \<Longrightarrow> kern (PADDR_kva kva) N = (Inr (kva - KERNBASE), N)"
  by (simp only: kern_def PADDR_kva_def if_False ret_exec prod.case) simp

lemma PADDR_kva_of: "f < 65536 \<Longrightarrow> kern (PADDR_kva (kva_of f)) N = (Inr (page2pa f), N)"
  using PADDR_kva_exec [of "kva_of f" N] unat_kva_of [of f] kva_of_pa [of f] by (simp add: word_less_nat_alt)

lemma boot_alloc_exec:
  assumes f: "next_frame end_kva M f" and fits: "f * 4096 + unat n + 4096 \<le> npages (kernel M) * 4096" "npages (kernel M) \<le> 65536"
  shows "boot_alloc end_kva n M = (Inr (kva_of f), M\<lparr>nextfree := kva_of (f + (unat n + 4095) div 4096)\<rparr>)"
proof -
  let ?np = "npages (kernel M)" and ?g = "f + (unat n + 4095) div 4096"
  have lt: "f < 65536" "?g < 65536" using fits by auto
  have sum: "unat (kva_of f + n) = 0xF0000000 + f * 4096 + unat n"
    using unat_kva_of [OF lt(1)] fits by (simp add: unat_word_ariths)
  then have ge: "\<not> kva_of f + n < KERNBASE" by (simp add: word_less_nat_alt)
  have last: "unat (kva_of f + n - KERNBASE) = f * 4096 + unat n"
    using sum by (subst unat_sub) (simp_all add: word_le_nat_alt)
  have "unat (PGSIZE * of_nat ?np) = ?np * 4096" using unat_page [of ?np] fits(2) by (simp add: mult.commute)
  then have mem: "\<not> kva_of f + n - KERNBASE \<ge> PGSIZE * of_nat ?np" using last fits(1) by (simp add: word_le_nat_alt)
  have k: "PGNUM (kva_of f + n - KERNBASE) < ?np" using last fits(1) by (simp add: PGNUM_div less_mult_imp_div_less)
  have bk: "kva_of f + n - KERNBASE + KERNBASE = kva_of f + n" by simp
  have "unat (ROUNDUP (kva_of f + n) PGSIZE) = (unat (kva_of f + n) + 4095) div 4096 * 4096"
    by (rule unat_ROUNDUP) (use sum fits in simp)
  also have "\<dots> = unat (kva_of ?g)" 
  proof -
    have "0xF0000000 + f * 4096 + unat n + 4095 = unat n + 4095 + (983040 + f) * 4096" by simp
    then have "(0xF0000000 + f * 4096 + unat n + 4095) div 4096 = (unat n + 4095) div 4096 + (983040 + f)"
      by (simp only: div_mult_self1)
    then show ?thesis unfolding sum unat_kva_of [OF lt(2)] by simp
  qed
  finally have r: "ROUNDUP (kva_of f + n) PGSIZE = kva_of ?g" by (simp add: word_unat_eq_iff)
  let ?M = "if nextfree M = 0 then M\<lparr>nextfree := ROUNDUP end_kva PGSIZE\<rparr> else M"
  have M: "nextfree ?M = kva_of f" "kernel ?M = kernel M" "?M\<lparr>nextfree := x\<rparr> = M\<lparr>nextfree := x\<rparr>" for x
    using f by (auto simp: next_frame_def)
  have "boot_alloc end_kva n M = bnd (kern (PADDR_kva (kva_of f + n))) (\<lambda>last.
      bnd (gets (\<lambda>M. npages (kernel M))) (\<lambda>np.
      if last \<ge> PGSIZE * of_nat np then kern (panic ''boot_alloc: Not enough memory\<newline>'')
      else bnd (kern (KADDR_kva last)) (\<lambda>kva.
        thn (modify (\<lambda>M. M\<lparr>nextfree := ROUNDUP kva PGSIZE\<rparr>)) (ret (kva_of f))))) ?M"
    using M(1) by (simp only: boot_alloc_def thn_modify bnd_gets)
  also have "\<dots> = (Inr (kva_of f), ?M\<lparr>nextfree := kva_of ?g\<rparr>)"
  proof -
    note pa = PADDR_kva_exec [OF ge]
    have ka: "kern (KADDR_kva (kva_of f + n - KERNBASE)) N = (Inr (kva_of f + n), N)" if "kernel N = kernel M" for N
    proof -
      have "KADDR_kva (kva_of f + n - KERNBASE) (kernel M) = (Inr (kva_of f + n), kernel M)"
        using k by (simp add: KADDR_kva_def)
      then show ?thesis by (simp add: kern_def that)
    qed
    show ?thesis
      using mem ka [OF M(2)] by (simp only: bnd_def [of "kern _"] pa prod.case sum.case bnd_gets M(2) if_False r thn_modify ret_exec)
  qed
  finally show ?thesis unfolding M(3) .
qed

text \<open>A machine with exactly 4 GB of memory never boots: \<open>PGSIZE * npages\<close> is 0 in 32 bits, and every call
  of boot\_alloc panics for lack of memory.\<close>

theorem boot_alloc_4G_panics:
  assumes "npages (kernel M) = 2 ^ 20" "nextfree M \<noteq> 0" "KERNBASE \<le> nextfree M + n"
  shows "boot_alloc end_kva n M = (Inl (Panic ''boot_alloc: Not enough memory\<newline>''), M)"
proof -
  have "(PGSIZE * of_nat (2 ^ 20) :: u32) = 0" by simp
  then have "\<not> nextfree M + n < KERNBASE" "nextfree M + n - KERNBASE \<ge> PGSIZE * of_nat (npages (kernel M))"
    using assms(1,3) by (simp_all only: not_less word_zero_le)
  from PADDR_kva_exec [OF this(1)] this(2) show ?thesis
    using assms(2) by (simp only: boot_alloc_def thn_modify if_False bnd_gets bnd_def [of "kern _"] prod.case sum.case if_True)
       (simp add: kern_def)
qed

theorem boot_alloc_4G_panics_witness:
  "memory_pages (\<lambda>r. if r = 0x35 then 255 else 0) = 2 ^ 20
   \<and> fst (boot_alloc 0 4096 (zero_machine\<lparr>kernel := zero_kst\<lparr>npages := 2 ^ 20\<rparr>, nextfree := 0xF0200000\<rparr>))
       = Inl (Panic ''boot_alloc: Not enough memory\<newline>'')"
  using boot_alloc_4G_panics [of "zero_machine\<lparr>kernel := zero_kst\<lparr>npages := 2 ^ 20\<rparr>, nextfree := 0xF0200000\<rparr>" 4096 0]
  by (simp add: memory_pages_def cmos16_def)

section \<open>The kernel's data structures\<close>

text \<open>The frames that \<open>pages\<close> and \<open>envs\<close> take.\<close>

definition pages_frames :: "nat \<Rightarrow> nat" where
  "pages_frames np = (8 * np + 4095) div 4096"

definition boot_frames :: "nat \<Rightarrow> nat \<Rightarrow> nat" where
  "boot_frames f np = f + 1 + pages_frames np + 34"

lemma UVPT_957: "PDX 0xEF400000 = 957"
  by (simp add: PDX_div PGNUM_div)

definition blank :: "kst \<Rightarrow> nat \<Rightarrow> kst" where
  "blank s d = s\<lparr>kern_pgdir := d, pmem := (pmem s)(d := (\<lambda>_. 0)(957 := page2pa d OR PTE_U OR PTE_P)),
     pages := (\<lambda>_. \<lparr>pp_link = None, pp_ref = 0\<rparr>), envs := (\<lambda>_. zero_env)\<rparr>"

lemma thn_kern_modify: "thn (kern (modify g)) n N = n (N\<lparr>kernel := g (kernel N)\<rparr>)"
  by (simp add: thn_def bnd_def kern_def)

lemma mem_init_alloc_exec:
  assumes f: "next_frame end_kva M f" and np: "npages (kernel M) = np" "np \<le> 65536" "boot_frames f np + 1 \<le> np"
  shows "\<exists>M'. mem_init_alloc end_kva M = (Inr (kva_of (f + 1), kva_of (f + 1 + pages_frames np)), M')
    \<and> kernel M' = page_init (boot_frames f np) (blank (kernel M) f) \<and> nextfree M' = kva_of (boot_frames f np)"
proof -
  have lt: "f < 65536" "f < 2 ^ 20" "boot_frames f np < 65536" using np by (auto simp: boot_frames_def)
  have kpa: "PGNUM (page2pa g) = g" if "g < 65536" for g using that by simp
  let ?M1 = "M\<lparr>nextfree := kva_of (f + 1)\<rparr>"
  have 1: "boot_alloc end_kva PGSIZE M = (Inr (kva_of f), ?M1)"
    using boot_alloc_exec [OF f, of PGSIZE] np by (simp add: boot_frames_def)
  let ?s2 = "(kernel M)\<lparr>kern_pgdir := f, pmem := (pmem (kernel M))(f := (\<lambda>_. 0)(957 := page2pa f OR PTE_U OR PTE_P))\<rparr>"
  let ?M2 = "M\<lparr>nextfree := kva_of (f + 1), kernel := ?s2\<rparr>"
  have s1: "boot_pgdir end_kva M = (Inr (), ?M2)"
    using 1 PADDR_kva_of [OF lt(1)] kpa [OF lt(1)]
    by (simp add: boot_pgdir_def bnd_def kern_def zero_frame_def UVPT_957)
  have ps: "unat (of_nat np * sizeof_PageInfo) = 8 * np"
    using np(2) by (simp add: unat_word_ariths unat_of_nat mult.commute)
  let ?p = "f + 1 + pages_frames np"
  have n2: "next_frame end_kva ?M2 (f + 1)" using kva_of_neq_0 [of "f + 1"] lt np by (simp add: next_frame_def boot_frames_def)
  have 2: "boot_alloc end_kva (of_nat np * sizeof_PageInfo) ?M2 = (Inr (kva_of (f + 1)), ?M2\<lparr>nextfree := kva_of ?p\<rparr>)"
    using boot_alloc_exec [OF n2, of "of_nat np * sizeof_PageInfo"] np unfolding ps
    by (simp add: boot_frames_def pages_frames_def)
  let ?M3 = "?M2\<lparr>nextfree := kva_of ?p, kernel := ?s2\<lparr>pages := (\<lambda>_. \<lparr>pp_link = None, pp_ref = 0\<rparr>)\<rparr>\<rparr>"
  have s2: "boot_pages end_kva ?M2 = (Inr (kva_of (f + 1)), ?M3)"
    using 2 np(1) by (simp add: boot_pages_def bnd_def [of "boot_alloc _ _"] thn_kern_modify)
  have n3: "next_frame end_kva ?M3 ?p" using kva_of_neq_0 [of ?p] lt by (simp add: next_frame_def boot_frames_def)
  have es: "unat (of_nat NENV * sizeof_Env) = 139264" by (simp add: NENV_def)
  have 3: "boot_alloc end_kva (of_nat NENV * sizeof_Env) ?M3 = (Inr (kva_of ?p), ?M3\<lparr>nextfree := kva_of (?p + 34)\<rparr>)"
    using boot_alloc_exec [OF n3, of "of_nat NENV * sizeof_Env"] np unfolding es by (simp add: boot_frames_def)
  let ?M4 = "?M3\<lparr>nextfree := kva_of (boot_frames f np), kernel := blank (kernel M) f\<rparr>"
  have s3: "boot_envs end_kva ?M3 = (Inr (kva_of ?p), ?M4)"
    using 3 by (simp add: boot_envs_def bnd_def thn_kern_modify blank_def boot_frames_def)
  have n4: "next_frame end_kva ?M4 (boot_frames f np)" using kva_of_neq_0 [OF lt(3)] by (simp add: next_frame_def)
  have 4: "boot_alloc end_kva 0 ?M4 = (Inr (kva_of (boot_frames f np)), ?M4)"
    using boot_alloc_exec [OF n4, of 0] np by (simp add: blank_def)
  let ?M5 = "?M4\<lparr>kernel := page_init (boot_frames f np) (blank (kernel M) f)\<rparr>"
  have s4: "page_init_boot end_kva ?M4 = (Inr (), ?M5)"
    using 4 PADDR_kva_of [OF lt(3)] kpa [OF lt(3)] by (simp add: page_init_boot_def bnd_def kern_def [of "modify _"])
  have "mem_init_alloc end_kva M = (Inr (kva_of (f + 1), kva_of ?p), ?M5)"
    by (simp only: mem_init_alloc_def thn_def bnd_def s1 s2 s3 s4 prod.case sum.case ret_exec)
  then show ?thesis by auto
qed

end
