(* ===== verification/KernSpace.thy ===== *)
theory KernSpace
  imports Boot UserMem
begin

text \<open>
  The kernel's address space at the end of mem\_init: what mem\_init\_alloc and mem\_init\_map leave above
  UTOP, page by page.
\<close>

section \<open>The state after page\_init\<close>

lemma boot_kdir:
  assumes np: "npages s = np" "np \<le> 65536" "boot_frames f np + 68 \<le> np" and f: "256 \<le> f" and fl: "page_free_list s = None"
  shows "\<exists>fl. kdir (page_init (boot_frames f np) (blank s f)) fl f \<and> room (page_init (boot_frames f np) (blank s f)) fl f"
proof -
  let ?s = "page_init (boot_frames f np) (blank s f)" and ?ff = "boot_frames f np"
  let ?fl = "rev (filter (\<lambda>i. \<not> page_reserved ?ff i) [0..<np])"
  have lt: "f < np" "f < ?ff" "f < 65536" using np by (auto simp: boot_frames_def)
  have n: "npages ?s = np" "pmem ?s f = (\<lambda>_. 0)(957 := page2pa f OR PTE_U OR PTE_P)" using np by (simp_all add: blank_def)
  have fp: "free_pages ?s ?fl" using page_init_rep [of "blank s f" ?ff] np fl by (simp add: blank_def)
  have pg: "PGNUM (page2pa f OR PTE_U OR PTE_P) = f"
    using lt(3) PGNUM_entry [of f "PTE_U OR PTE_P"] by (simp add: page2pa_def)
  have "page_reserved ?ff f" using f lt(2) by (simp add: page_reserved_def PGNUM_div)
  then have k: "kdir ?s ?fl f" using fp lt(1) n pg by (simp add: kdir_def)
  have "missing ?s f \<subseteq> {955..<1024} - {957}" by (auto simp: missing_def n(2))
  then have "card (missing ?s f) \<le> card ({955..<1024} - {957 :: nat})" by (rule card_mono [rotated]) simp
  moreover have "card ({955..<1024} - {957 :: nat}) = 68" by simp
  moreover have "68 \<le> length ?fl"
  proof -
    have "length (filter (\<lambda>i. \<not> page_reserved ?ff i) [?ff..<np]) \<le> length ?fl"
      using np(3) upt_add_eq_append [of 0 ?ff "np - ?ff"] by simp
    moreover have "filter (\<lambda>i. \<not> page_reserved ?ff i) [?ff..<np] = [?ff..<np]"
      using f lt(2) by (intro filter_True) (auto simp: page_reserved_def PGNUM_div)
    ultimately show ?thesis using np(3) by simp
  qed
  ultimately have "room ?s ?fl f" by (simp add: room_def)
  with k show ?thesis by blast
qed

section \<open>The regions\<close>

definition stack_region :: "nat \<Rightarrow> nat \<Rightarrow> region" where
  "stack_region k i = (KSTACKTOP - of_nat i * (KSTKSIZE + KSTKGAP) - KSTKSIZE, KSTKSIZE, page2pa (k + 8 * i), PTE_W OR PTE_P)"

definition kernel_regions :: "nat \<Rightarrow> nat \<Rightarrow> nat \<Rightarrow> region list" where
  "kernel_regions np f k =
     [(UPAGES, ROUNDUP (of_nat np * sizeof_PageInfo) PGSIZE, page2pa (f + 1), PTE_U OR PTE_P),
      (UENVS, ROUNDUP (of_nat NENV * sizeof_Env) PGSIZE, page2pa (f + 1 + pages_frames np), PTE_U OR PTE_P),
      (KERNBASE, 0x10000000, 0, PTE_W OR PTE_P)] @ map (stack_region k) [0..<NCPU]"

lemma mem_init_mp_regions:
  assumes "kern_pgdir s = d" "k + 64 \<le> 65536"
  shows "mem_init_mp (kva_of k) s = map_regions d (map (stack_region k) [0..<NCPU]) s"
proof -
  have step: "bnd (PADDR_kva (kva_of k + of_nat i * KSTKSIZE)) n s = n (page2pa (k + 8 * i)) s" if "i < NCPU" for i n s
  proof -
    have "kva_of k + of_nat i * KSTKSIZE = kva_of (k + 8 * i)" by (simp add: kva_of_def algebra_simps)
    moreover have lt: "k + 8 * i < 65536" using that assms(2) by (simp add: NCPU_def)
    moreover have "\<not> kva_of (k + 8 * i) < KERNBASE" using unat_kva_of [OF lt] by (simp add: word_less_nat_alt)
    ultimately show ?thesis using kva_of_pa [OF lt] by (simp add: bnd_def PADDR_kva_def)
  qed
  have "for_each is (\<lambda>i. bnd (PADDR_kva (kva_of k + of_nat i * KSTKSIZE)) (\<lambda>pa.
      boot_map_region (Some d) (KSTACKTOP - of_nat i * (KSTKSIZE + KSTKGAP) - KSTKSIZE) KSTKSIZE pa (PTE_W OR PTE_P))) s
    = map_regions d (map (stack_region k) is) s" if "set is \<subseteq> {..<NCPU}" for "is" s
    using that
  proof (induction "is" arbitrary: s)
    case (Cons i "is")
    then show ?case
      by (simp only: map_regions_def list.map for_each.simps stack_region_def prod.case thn_def bnd_def [of "boot_map_region _ _ _ _ _"]
        bnd_def [of "bnd _ _"] step set_simps insert_subset lessThan_iff)
  qed (simp add: map_regions_def)
  from this [of "[0..<NCPU]" s] assms(1) show ?thesis by (simp only: mem_init_mp_def Let_def bnd_gets set_upt atLeast0LessThan subset_refl)
qed

text \<open>
  What mem\_init maps at page number \<open>p\<close>: physical memory from KERNBASE, the arrays, the stacks of the
  processors, each above an unmapped gap of the same size.
\<close>

definition stack_index :: "nat \<Rightarrow> nat" where
  "stack_index p = (0xEFFFF - p) div 16"

definition in_stack :: "nat \<Rightarrow> bool" where
  "in_stack p \<longleftrightarrow> p < 0xF0000 \<and> stack_index p < NCPU \<and> (0xEFFFF - p) mod 16 < 8"

definition layout :: "nat \<Rightarrow> nat \<Rightarrow> nat \<Rightarrow> nat \<Rightarrow> u32" where
  "layout np f k p =
     (if 0xEF000 \<le> p \<and> p < 0xEF000 + pages_frames np then page2pa (f + 1 + (p - 0xEF000)) OR PTE_U OR PTE_P
      else if 0xEEC00 \<le> p \<and> p < 0xEEC22 then page2pa (f + 1 + pages_frames np + (p - 0xEEC00)) OR PTE_U OR PTE_P
      else if 0xF0000 \<le> p then page2pa (p - 0xF0000) OR PTE_W OR PTE_P
      else if in_stack p then page2pa (k + 8 * stack_index p + (7 - (0xEFFFF - p) mod 16)) OR PTE_W OR PTE_P
      else 0)"

lemma unat_ROUNDUP_pages:
  assumes "np \<le> 65536"
  shows "unat (ROUNDUP (of_nat np * sizeof_PageInfo) PGSIZE) = pages_frames np * 4096"
proof -
  have ps: "unat (of_nat np * sizeof_PageInfo) = 8 * np"
    using assms by (simp add: unat_word_ariths unat_of_nat mult.commute)
  then show ?thesis using unat_ROUNDUP [of "of_nat np * sizeof_PageInfo"] assms unfolding ps by (simp add: pages_frames_def)
qed

lemma stack_window:
  assumes "i < 8"
  shows "0xEFFF8 - 16 * i \<le> p \<and> p < 0xEFFF8 - 16 * i + 8 \<longleftrightarrow> p < 0xF0000 \<and> stack_index p = i \<and> (0xEFFFF - p) mod 16 < 8"
proof
  assume a: "0xEFFF8 - 16 * i \<le> p \<and> p < 0xEFFF8 - 16 * i + 8"
  then have e: "0xEFFFF - p = 0xEFFFF - 16 * i - p + 16 * i" "0xEFFFF - 16 * i - p < 8" using assms by linarith+
  have "(0xEFFFF - p) div 16 = i" "(0xEFFFF - p) mod 16 < 8" using e(2) by (subst e(1), simp)+
  moreover have "p < 0xF0000" using a by linarith
  ultimately show "p < 0xF0000 \<and> stack_index p = i \<and> (0xEFFFF - p) mod 16 < 8" by (simp add: stack_index_def)
next
  assume a: "p < 0xF0000 \<and> stack_index p = i \<and> (0xEFFFF - p) mod 16 < 8"
  have "0xEFFFF - p = 16 * stack_index p + (0xEFFFF - p) mod 16" unfolding stack_index_def by (rule mult_div_mod_eq [symmetric])
  then show "0xEFFF8 - 16 * i \<le> p \<and> p < 0xEFFF8 - 16 * i + 8" using a assms by linarith
qed

lemma in_stack_region:
  assumes "i < NCPU"
  shows "in_reg a (stack_region k i) \<longleftrightarrow> PGNUM a < 0xF0000 \<and> stack_index (PGNUM a) = i \<and> (0xEFFFF - PGNUM a) mod 16 < 8"
    and "reg_ok (stack_region k i)" "PGNUM (fst (stack_region k i)) = 0xEFFF8 - 16 * i"
proof -
  have "unat (of_nat i * (KSTKSIZE + KSTKGAP) :: u32) = i * 65536"
    using assms by (simp add: unat_word_ariths unat_of_nat)
  then have u: "unat (KSTACKTOP - of_nat i * (KSTKSIZE + KSTKGAP) - KSTKSIZE) = 0xEFFF8000 - i * 65536"
    using assms by (simp add: unat_sub_if')
  then show p: "PGNUM (fst (stack_region k i)) = 0xEFFF8 - 16 * i"
    using assms by (simp add: stack_region_def PGNUM_div)
  have "0xEFFF8000 - i * 65536 = 4096 * (0xEFFF8 - 16 * i)" by simp
  then have "(0xEFFF8000 - i * 65536) mod 4096 = 0" by simp
  then show "reg_ok (stack_region k i)" using u by (simp add: stack_region_def)
  have "in_reg a (stack_region k i) \<longleftrightarrow> 0xEFFF8 - 16 * i \<le> PGNUM a \<and> PGNUM a < 0xEFFF8 - 16 * i + 8"
    using p by (simp add: stack_region_def in_region_def)
  also have "\<dots> \<longleftrightarrow> PGNUM a < 0xF0000 \<and> stack_index (PGNUM a) = i \<and> (0xEFFFF - PGNUM a) mod 16 < 8"
    using stack_window [of i "PGNUM a"] assms by (simp add: NCPU_def)
  finally show "in_reg a (stack_region k i) \<longleftrightarrow> PGNUM a < 0xF0000 \<and> stack_index (PGNUM a) = i \<and> (0xEFFFF - PGNUM a) mod 16 < 8" .
qed

lemma in_array_regions:
  assumes "np \<le> 65536"
  shows "in_reg a (UPAGES, ROUNDUP (of_nat np * sizeof_PageInfo) PGSIZE, pa, w) \<longleftrightarrow> 0xEF000 \<le> PGNUM a \<and> PGNUM a < 0xEF000 + pages_frames np"
    "in_reg a (UENVS, ROUNDUP (of_nat NENV * sizeof_Env) PGSIZE, pa, w) \<longleftrightarrow> 0xEEC00 \<le> PGNUM a \<and> PGNUM a < 0xEEC22"
    "in_reg a (KERNBASE, 0x10000000, pa, w) \<longleftrightarrow> 0xF0000 \<le> PGNUM a"
    "reg_ok (UPAGES, ROUNDUP (of_nat np * sizeof_PageInfo) PGSIZE, pa, w)"
    "reg_ok (UENVS, ROUNDUP (of_nat NENV * sizeof_Env) PGSIZE, pa, w)" "reg_ok (KERNBASE, 0x10000000, pa, w)"
proof -
  have e: "unat (ROUNDUP (of_nat NENV * sizeof_Env) PGSIZE) = 34 * 4096"
    using unat_ROUNDUP [of "of_nat NENV * sizeof_Env"] by (simp add: NENV_def)
  have p: "PGNUM UPAGES = 0xEF000" "PGNUM UENVS = 0xEEC00" "PGNUM KERNBASE = 0xF0000" by (simp_all add: PGNUM_div)
  have w: "pages_frames np * 4096 \<le> 528384" using assms by (simp add: pages_frames_def)
  note u = unat_ROUNDUP_pages [OF assms]
  have lim: "PGNUM a < 0x100000" using PGNUM_less [of a] by simp
  show "in_reg a (UPAGES, ROUNDUP (of_nat np * sizeof_PageInfo) PGSIZE, pa, w) \<longleftrightarrow> 0xEF000 \<le> PGNUM a \<and> PGNUM a < 0xEF000 + pages_frames np"
    unfolding in_reg.simps in_region_def u p by simp
  show "in_reg a (UENVS, ROUNDUP (of_nat NENV * sizeof_Env) PGSIZE, pa, w) \<longleftrightarrow> 0xEEC00 \<le> PGNUM a \<and> PGNUM a < 0xEEC22"
    unfolding in_reg.simps in_region_def e p by simp
  show "in_reg a (KERNBASE, 0x10000000, pa, w) \<longleftrightarrow> 0xF0000 \<le> PGNUM a"
    using lim unfolding in_reg.simps in_region_def p by simp
  show "reg_ok (UPAGES, ROUNDUP (of_nat np * sizeof_PageInfo) PGSIZE, pa, w)" unfolding reg_ok.simps u using w by simp
  show "reg_ok (UENVS, ROUNDUP (of_nat NENV * sizeof_Env) PGSIZE, pa, w)" unfolding reg_ok.simps e by simp
  show "reg_ok (KERNBASE, 0x10000000, pa, w)" by simp
qed

lemma find_stack:
  "List.find (in_reg a) (map (stack_region k) [0..<NCPU]) = (if in_stack (PGNUM a) then Some (stack_region k (stack_index (PGNUM a))) else None)"
proof -
  let ?p = "PGNUM a"
  have "List.find (in_reg a) (map (stack_region k) is) = map_option (stack_region k) (List.find (\<lambda>i. in_reg a (stack_region k i)) is)" for "is"
    by (induction "is") auto
  moreover have "List.find (\<lambda>i. in_reg a (stack_region k i)) [0..<NCPU]
      = List.find (\<lambda>i. ?p < 0xF0000 \<and> (0xEFFFF - ?p) mod 16 < 8 \<and> 0 + i = stack_index ?p) [0..<NCPU]"
    by (rule find_cong_set) (auto simp del: in_reg.simps simp: in_stack_region)
  moreover have "\<dots> = (if in_stack ?p then Some (stack_index ?p) else None)"
    using find_region [of 0 "stack_index ?p" NCPU] find_None_iff [of "\<lambda>_. False" "[0..<NCPU]"]
    by (cases "?p < 0xF0000 \<and> (0xEFFFF - ?p) mod 16 < 8") (auto simp: in_stack_def)
  ultimately show ?thesis by simp
qed

lemma find_regions:
  assumes "np \<le> 65536"
  shows "List.find (in_reg a) (kernel_regions np f k) =
     (if 0xEF000 \<le> PGNUM a \<and> PGNUM a < 0xEF000 + pages_frames np
      then Some (UPAGES, ROUNDUP (of_nat np * sizeof_PageInfo) PGSIZE, page2pa (f + 1), PTE_U OR PTE_P)
      else if 0xEEC00 \<le> PGNUM a \<and> PGNUM a < 0xEEC22
      then Some (UENVS, ROUNDUP (of_nat NENV * sizeof_Env) PGSIZE, page2pa (f + 1 + pages_frames np), PTE_U OR PTE_P)
      else if 0xF0000 \<le> PGNUM a then Some (KERNBASE, 0x10000000, 0, PTE_W OR PTE_P)
      else if in_stack (PGNUM a) then Some (stack_region k (stack_index (PGNUM a))) else None)"
  unfolding kernel_regions_def append_Cons append_Nil find.simps in_array_regions [OF assms] find_stack by (rule refl)

lemma layout_entry:
  assumes "np \<le> 65536" "k + 64 \<le> 65536"
  shows "(case List.find (in_reg a) (kernel_regions np f k) of Some r \<Rightarrow> reg_entry a r | None \<Rightarrow> 0) = layout np f k (PGNUM a)"
proof -
  have pp: "page2pa g + of_nat n * PGSIZE = page2pa (g + n)" for g n
    by (simp add: page2pa_def push_bit_eq_mult algebra_simps)
  have p: "PGNUM UPAGES = 0xEF000" "PGNUM UENVS = 0xEEC00" "PGNUM KERNBASE = 0xF0000" by (simp_all add: PGNUM_div)
  have z: "page2pa 0 = 0" by (simp add: page2pa_def)
  have r: "reg_entry a (UPAGES, sz, page2pa g, PTE_U OR PTE_P) = page2pa (g + (PGNUM a - 0xEF000)) OR PTE_U OR PTE_P"
    "reg_entry a (UENVS, sz, page2pa g, PTE_U OR PTE_P) = page2pa (g + (PGNUM a - 0xEEC00)) OR PTE_U OR PTE_P"
    "reg_entry a (KERNBASE, sz, 0, PTE_W OR PTE_P) = page2pa (PGNUM a - 0xF0000) OR PTE_W OR PTE_P" for g sz
    unfolding reg_entry.simps pp p using pp [of 0 "PGNUM a - 0xF0000"] z by (simp_all add: or.assoc)
  have st: "reg_entry a (stack_region k (stack_index (PGNUM a)))
      = page2pa (k + 8 * stack_index (PGNUM a) + (7 - (0xEFFFF - PGNUM a) mod 16)) OR PTE_W OR PTE_P" if s: "in_stack (PGNUM a)"
  proof -
    have i: "stack_index (PGNUM a) < NCPU" using s by (simp add: in_stack_def)
    let ?q = "stack_index (PGNUM a)" and ?m = "(0xEFFFF - PGNUM a) mod 16"
    have e: "0xEFFFF - PGNUM a = 16 * ?q + ?m" unfolding stack_index_def by (rule mult_div_mod_eq [symmetric])
    have "?m < 8" "PGNUM a < 0xF0000" using s by (simp_all add: in_stack_def)
    then have "PGNUM a - (0xEFFF8 - 16 * ?q) = 7 - ?m" using e i by simp
    then show ?thesis
      using in_stack_region(3) [OF i, of k] pp by (simp add: stack_region_def or.assoc [symmetric])
  qed
  show ?thesis
    unfolding find_regions [OF assms(1)] layout_def using st r by (simp del: reg_entry.simps UPAGES_def UENVS_def KERNBASE_def PTE_U_def PTE_W_def PTE_P_def)
qed

lemma regions_apart:
  assumes "np \<le> 65536"
  shows "sorted_wrt disjoint_regs (kernel_regions np f k)" "\<forall>r \<in> set (kernel_regions np f k). reg_ok r"
proof -
  have pf: "pages_frames np \<le> 129" using assms by (simp add: pages_frames_def)
  have s: "in_reg a (stack_region k i) \<Longrightarrow> i < 8 \<Longrightarrow> PGNUM a < 0xF0000 \<and> 0xEFC00 \<le> PGNUM a" for a i
    using in_stack_region(1) [of i a k] by (auto simp: stack_index_def)
  note A = in_array_regions [OF assms] and C = in_reg.simps UPAGES_def UENVS_def KERNBASE_def PTE_U_def PTE_W_def PTE_P_def
    sizeof_PageInfo_def sizeof_Env_def PGSIZE_def
  have "sorted_wrt disjoint_regs (map (stack_region k) [0..<NCPU])"
    by (auto simp del: in_reg.simps simp: sorted_wrt_map sorted_wrt_upt disjoint_regs_def in_stack_region sorted_wrt_iff_nth_less)
  then show "sorted_wrt disjoint_regs (kernel_regions np f k)"
    using pf by (auto simp: kernel_regions_def disjoint_regs_def [of "(_, _)"] A sorted_wrt_append simp del: C dest!: s)
  show "\<forall>r \<in> set (kernel_regions np f k). reg_ok r"
    using in_stack_region(2) in_array_regions [OF assms] by (auto simp: kernel_regions_def simp del: reg_ok.simps)
qed

lemma regions_top:
  assumes "np \<le> 65536" "r \<in> set (kernel_regions np f k)" "in_reg a r"
  shows "955 \<le> PDX a \<and> PDX a \<noteq> 957"
proof -
  have pf: "pages_frames np \<le> 129" using assms by (simp add: pages_frames_def)
  have "List.find (in_reg a) (kernel_regions np f k) \<noteq> None" using assms(2,3) unfolding find_None_iff by blast
  then have "0xEF000 \<le> PGNUM a \<and> PGNUM a < 0xEF000 + pages_frames np \<or> 0xEEC00 \<le> PGNUM a \<and> PGNUM a < 0xEEC22
    \<or> 0xF0000 \<le> PGNUM a \<or> in_stack (PGNUM a)"
    by (simp add: find_regions [OF assms(1)] split: if_splits)
  moreover have "in_stack (PGNUM a) \<Longrightarrow> 0xEFC00 \<le> PGNUM a" by (auto simp: in_stack_def stack_index_def)
  ultimately show ?thesis using pf by (auto simp: PDX_div)
qed

lemma map_regions_append:
  assumes "map_regions d xs s = (Inr (), s1)"
  shows "map_regions d (xs @ ys) s = map_regions d ys s1"
  using assms
proof (induction xs arbitrary: s)
  case (Cons x xs)
  obtain va sz pa perm where x: "x = (va, sz, pa, perm)" by (cases x)
  then show ?case
    using Cons by (auto simp: map_regions_def thn_def bnd_def split: prod.splits sum.splits)
qed (simp add: map_regions_def)

lemma mem_init_map_regions:
  assumes s: "kern_pgdir s = f" "npages s = np" and lt: "f + 1 + pages_frames np < 65536" "k + 64 \<le> 65536"
    and r: "map_regions f (take 3 (kernel_regions np f k)) s = (Inr (), s3)" "kern_pgdir s3 = f"
  shows "mem_init_map (kva_of (f + 1)) (kva_of (f + 1 + pages_frames np)) (kva_of k) s = map_regions f (kernel_regions np f k) s"
proof -
  have pa: "bnd (PADDR_kva (kva_of g)) n t = n (page2pa g) t" if "g < 65536" for g n t
    using unat_kva_of [OF that] kva_of_pa [OF that] by (simp add: PADDR_kva_def word_less_nat_alt)
  have "mem_init_map (kva_of (f + 1)) (kva_of (f + 1 + pages_frames np)) (kva_of k) s = mem_init_mp (kva_of k) s3"
    using r(1) s lt unfolding mem_init_map_def kernel_regions_def map_regions_def
    by (auto simp: pa thn_def bnd_def [of "boot_map_region _ _ _ _ _"] simp del: KERNBASE_def UPAGES_def UENVS_def split: prod.splits sum.splits)
  also have "\<dots> = map_regions f (map (stack_region k) [0..<NCPU]) s3" by (rule mem_init_mp_regions [OF r(2) lt(2)])
  also have "\<dots> = map_regions f (take 3 (kernel_regions np f k) @ map (stack_region k) [0..<NCPU]) s"
    using map_regions_append [OF r(1)] by simp
  finally show ?thesis by (simp add: kernel_regions_def)
qed

section \<open>The kernel's address space\<close>

text \<open>
  \<open>blank_space f np s\<close>: the kernel's directory is frame \<open>f\<close>, it maps itself at UVPT, read-only for user
  code, and maps nothing else; there is room for its tables. The free frames may be in any order, and tables
  without entries may exist already: the self tests, which run before the mappings are made, leave both.
\<close>

definition blank_space :: "nat \<Rightarrow> nat \<Rightarrow> kst \<Rightarrow> bool" where
  "blank_space f np s \<longleftrightarrow> kern_pgdir s = f \<and> npages s = np \<and> pmem s f 957 = page2pa f OR PTE_U OR PTE_P
     \<and> (\<forall>a. PDX a \<noteq> 957 \<longrightarrow> upte s f a = 0) \<and> (\<exists>fr. kdir s fr f \<and> room s fr f)"

lemma alloc_blank_space:
  assumes f: "next_frame end_kva M f" "256 \<le> f" and np: "npages (kernel M) = np" "np \<le> 65536" "boot_frames f np + 68 \<le> np"
    and fl: "page_free_list (kernel M) = None"
  shows "\<exists>M'. mem_init_alloc end_kva M = (Inr (kva_of (f + 1), kva_of (f + 1 + pages_frames np)), M')
    \<and> blank_space f np (kernel M')"
proof -
  obtain M' where 1: "mem_init_alloc end_kva M = (Inr (kva_of (f + 1), kva_of (f + 1 + pages_frames np)), M')"
    "kernel M' = page_init (boot_frames f np) (blank (kernel M) f)"
    using mem_init_alloc_exec [OF f(1) np(1,2)] np(3) by auto
  let ?s = "kernel M'"
  have kd: "\<exists>fr. kdir ?s fr f \<and> room ?s fr f" using boot_kdir [OF np f(2) fl] 1(2) by auto
  have s: "kern_pgdir ?s = f" "npages ?s = np" "pmem ?s f = (\<lambda>_. 0)(957 := page2pa f OR PTE_U OR PTE_P)"
    using np(1) 1(2) by (simp_all add: blank_def)
  have "upte ?s f a = 0" if "PDX a \<noteq> 957" for a using that s(3) by (simp add: upte_def)
  then show ?thesis using 1(1) kd s by (auto simp: blank_space_def)
qed

lemma blank_space_map:
  assumes b: "blank_space f np s" and np: "np \<le> 65536" "boot_frames f np \<le> np" and k: "k + 64 \<le> 65536"
  shows "\<exists>s'. mem_init_map (kva_of (f + 1)) (kva_of (f + 1 + pages_frames np)) (kva_of k) s = (Inr (), s')
    \<and> kern_pgdir s' = f \<and> pmem s' f 957 = page2pa f OR PTE_U OR PTE_P
    \<and> (\<forall>a. PDX a \<noteq> 957 \<longrightarrow> upte s' f a = layout np f k (PGNUM a)) \<and> (\<exists>fr. kdir s' fr f)"
proof -
  obtain fr where kd: "kdir s fr f" "room s fr f" using b by (auto simp: blank_space_def)
  have s: "kern_pgdir s = f" "npages s = np" "pmem s f 957 = page2pa f OR PTE_U OR PTE_P"
    using b by (simp_all add: blank_space_def)
  have z: "upte s f a = 0" if "PDX a \<noteq> 957" for a using that b by (simp add: blank_space_def)
  let ?rs = "kernel_regions np f k"
  have ok: "\<forall>r \<in> set ?rs. reg_ok r" "sorted_wrt disjoint_regs ?rs" using regions_apart [OF np(1)] by blast+
  have ok3: "\<forall>r \<in> set (take 3 ?rs). reg_ok r" "sorted_wrt disjoint_regs (take 3 ?rs)"
    using ok sorted_wrt_take in_set_takeD by metis+
  have top: "955 \<le> PDX a \<and> PDX a \<noteq> 957 \<and> upte s f a = 0" if "r \<in> set ?rs" "in_reg a r" for r a
    using regions_top [OF np(1) that] z by blast
  then have top3: "955 \<le> PDX a \<and> PDX a \<noteq> 957 \<and> upte s f a = 0" if "r \<in> set (take 3 ?rs)" "in_reg a r" for r a
    using that in_set_takeD by metis
  obtain s3 where 3: "map_regions f (take 3 ?rs) s = (Inr (), s3)" "maps_only f s s3"
    using map_regions_exec [OF kd ok3] top3 by blast
  obtain s' fr' where 4: "map_regions f ?rs s = (Inr (), s')" "maps_only f s s'" "kdir s' fr' f"
    "\<forall>a. PDX a \<noteq> 957 \<longrightarrow> upte s' f a = (case List.find (in_reg a) ?rs of Some r \<Rightarrow> reg_entry a r | None \<Rightarrow> upte s f a)"
    using map_regions_exec [OF kd ok] top by blast
  have lt: "f + 1 + pages_frames np < 65536" using np by (simp add: boot_frames_def)
  have run: "mem_init_map (kva_of (f + 1)) (kva_of (f + 1 + pages_frames np)) (kva_of k) s = (Inr (), s')"
    using mem_init_map_regions [OF s(1,2) lt k 3(1)] mem_only_fields(2) [OF maps_only_mem [OF 3(2)]] s(1) 4(1) by simp
  have "upte s' f a = layout np f k (PGNUM a)" if "PDX a \<noteq> 957" for a
    using 4(4) that z [OF that] layout_entry [OF np(1) k] by metis
  then show ?thesis using run mem_only_fields(2) [OF maps_only_mem [OF 4(2)]] 4(2,3) s(1,3) by (auto simp: maps_only_def)
qed

text \<open>A machine with 4 MB of memory, whose kernel image ends at frame 512.\<close>

definition boot_machine :: machine where
  "boot_machine = zero_machine\<lparr>kernel := zero_kst\<lparr>npages := 1024\<rparr>\<rparr>"

lemma boot_machine:
  "next_frame 0xF0200000 boot_machine 512" "npages (kernel boot_machine) = 1024" "page_free_list (kernel boot_machine) = None"
  "boot_frames 512 1024 + 68 \<le> 1024" "kva_of 400 = 0xF0190000"
  by (simp_all add: next_frame_def boot_machine_def zero_machine_def zero_kst_def ROUNDUP_def ROUNDDOWN_def kva_of_def
    boot_frames_def pages_frames_def)

text \<open>C22: the two parts of mem\_init that build the kernel's address space. The allocations succeed when
  the boot allocator has the memory with 68 frames to spare (for the tables), and leave a directory that maps
  only itself, at UVPT and read-only. The mappings, made from any state with such a directory (whatever order
  the self tests in between, which are not part of this theorem, leave the free frames in), succeed, leave the
  entry of UVPT (957) alone and make every other address translate exactly as \<open>layout\<close> says: all of physical
  memory at KERNBASE, the arrays at UPAGES and UENVS, and the stack of each processor with nothing mapped
  below it.\<close>

theorem kernel_address_space:
  assumes f: "next_frame end_kva M f" "256 \<le> f" and np: "npages (kernel M) = np" "np \<le> 65536" "boot_frames f np + 68 \<le> np"
    and fl: "page_free_list (kernel M) = None" and k: "k + 64 \<le> 65536"
  shows "\<exists>p e M'. mem_init_alloc end_kva M = (Inr (p, e), M') \<and> blank_space f np (kernel M')
    \<and> (\<forall>s. blank_space f np s \<longrightarrow> (\<exists>s'. mem_init_map p e (kva_of k) s = (Inr (), s') \<and> kern_pgdir s' = f
         \<and> pmem s' f 957 = page2pa f OR PTE_U OR PTE_P
         \<and> (\<forall>a. PDX a \<noteq> 957 \<longrightarrow> upte s' f a = layout np f k (PGNUM a))))"
proof -
  obtain M' where "mem_init_alloc end_kva M = (Inr (kva_of (f + 1), kva_of (f + 1 + pages_frames np)), M')"
    "blank_space f np (kernel M')"
    using alloc_blank_space [OF f np fl] by blast
  moreover have "boot_frames f np \<le> np" using np(3) by simp
  note blank_space_map [OF _ np(2) this k]
  ultimately show ?thesis by blast
qed

theorem kernel_address_space_witness:
  "\<exists>p e M' s. mem_init_alloc 0xF0200000 boot_machine = (Inr (p, e), M') \<and> mem_init_map p e 0xF0190000 (kernel M') = (Inr (), s)
    \<and> upte s 512 0xF0001234 = 0x1003 \<and> upte s 512 0xEFFFF000 = 0x197003 \<and> upte s 512 0xEFFF7000 = 0
    \<and> pmem s 512 957 = 0x200005"
proof -
  obtain p e M' s where r: "mem_init_alloc 0xF0200000 boot_machine = (Inr (p, e), M')"
    "mem_init_map p e (kva_of 400) (kernel M') = (Inr (), s)" "\<forall>a. PDX a \<noteq> 957 \<longrightarrow> upte s 512 a = layout 1024 512 400 (PGNUM a)"
    "pmem s 512 957 = page2pa 512 OR PTE_U OR PTE_P"
    using kernel_address_space [OF boot_machine(1) _ boot_machine(2) _ boot_machine(4,3), of 400] by auto
  have "upte s 512 0xF0001234 = 0x1003" "upte s 512 0xEFFFF000 = 0x197003" "upte s 512 0xEFFF7000 = 0"
    using r(3) by (simp_all add: PDX_div PGNUM_div layout_def pages_frames_def in_stack_def stack_index_def page2pa_def)
  then show ?thesis using r(1,2,4) boot_machine(5) by (auto simp: page2pa_def)
qed

lemma page2pa_flags: "page2pa g AND 7 = 0"
proof -
  have "(7 :: u32) = mask 3" by (simp add: mask_eq_exp_minus_1)
  moreover have "page2pa g AND mask 3 = 0" unfolding page2pa_def by (rule bit_word_eqI) (auto simp: bit_simps)
  ultimately show ?thesis by simp
qed

lemma layout_rights:
  "layout np f k p AND PTE_U \<noteq> 0 \<Longrightarrow> layout np f k p AND PTE_W = 0 \<and> (np \<le> 65536 \<longrightarrow> 0xEEC00 \<le> p \<and> p < 0xEF400)"
proof -
  assume u: "layout np f k p AND PTE_U \<noteq> 0"
  have f: "(page2pa g OR w) AND m = w AND m" if "m AND 7 = m" for g w m
  proof -
    have "page2pa g AND m = (page2pa g AND 7) AND m" using that by (metis and.assoc and.commute)
    then show ?thesis by (simp add: page2pa_flags bit.conj_disj_distrib2)
  qed
  have g: "(page2pa g OR 5) AND 2 = 0" "(page2pa g OR 3) AND 4 = 0" for g using f [of 2] f [of 4] by simp_all
  show ?thesis using u by (auto simp: layout_def g pages_frames_def split: if_splits)
qed

lemma space_flags: "v AND 7 = 0 \<Longrightarrow> m AND 7 = m \<Longrightarrow> (v OR w) AND m = w AND (m :: u32)"
proof -
  assume a: "v AND 7 = 0" "m AND 7 = m"
  have "v AND m = (v AND 7) AND m" using a(2) by (metis and.assoc and.commute)
  then show ?thesis using a(1) by (simp add: bit.conj_disj_distrib2)
qed

text \<open>An entry grants a write only with both bits.\<close>

lemma grants_bits: "grants w True \<Longrightarrow> w AND PTE_U \<noteq> 0 \<and> w AND PTE_W \<noteq> 0" "grants w False \<Longrightarrow> w AND PTE_U \<noteq> 0"
proof -
  have b: "w AND n = n" if "w AND m = m" "m AND n = n" for m n
  proof -
    have "w AND n = (w AND m) AND n" using that(2) by (simp add: and.assoc)
    then show ?thesis using that by simp
  qed
  show "grants w True \<Longrightarrow> w AND PTE_U \<noteq> 0 \<and> w AND PTE_W \<noteq> 0" "grants w False \<Longrightarrow> w AND PTE_U \<noteq> 0"
    using b [of 7 4] b [of 7 2] b [of 5 4] by (simp_all add: grants_def)
qed

lemma layout_low: "p < 0xEEC00 \<Longrightarrow> layout np f k p = 0"
proof -
  assume p: "p < 0xEEC00"
  then have "128 \<le> 0xEFFFF - p" by linarith
  then have "8 \<le> stack_index p" using div_le_mono [of 128 "0xEFFFF - p" 16] by (simp add: stack_index_def)
  then show ?thesis using p by (simp add: layout_def in_stack_def)
qed

text \<open>What the processor lets user code do in an address space with that layout.\<close>

lemma layout_protects:
  assumes np: "np \<le> 65536" and e: "pmem s f 957 = page2pa f OR PTE_U OR PTE_P"
    and l: "\<And>a. PDX a \<noteq> 957 \<Longrightarrow> upte s f a = layout np f k (PGNUM a)"
  shows "mmu s f a True = None" "a < UTOP \<or> ULIM \<le> a \<Longrightarrow> mmu s f a False = None"
proof -
  have uvpt: "\<not> grants (pmem s f 957) True"
    using grants_bits(1) [of "pmem s f 957"] space_flags [OF page2pa_flags, of 2 f 5] by (auto simp: e or.assoc)
  have pte: "grants (upte s f a) w" if "mmu s f a w \<noteq> None" for w
    using that by (auto simp: mmu_def upte_def Let_def grants_def split: if_splits)
  have u: "a < UTOP \<longleftrightarrow> PGNUM a < 0xEEC00" "ULIM \<le> a \<longleftrightarrow> 0xEF800 \<le> PGNUM a"
    by (auto simp: word_less_nat_alt word_le_nat_alt PGNUM_div)
  note rights = layout_rights [of np f k "PGNUM a"]
  show "mmu s f a True = None"
  proof (cases "PDX a = 957")
    case True
    then show ?thesis using uvpt by (simp add: mmu_def)
  next
    case False
    show ?thesis
    proof (rule ccontr)
      assume "mmu s f a True \<noteq> None"
      from grants_bits(1) [OF pte [OF this]] show False using l [OF False] rights by simp
    qed
  qed
  show "mmu s f a False = None" if a: "a < UTOP \<or> ULIM \<le> a"
  proof -
    have n: "PDX a \<noteq> 957" using a u by (auto simp: PDX_div)
    show ?thesis
    proof (rule ccontr)
      assume "mmu s f a False \<noteq> None"
      from grants_bits(2) [OF pte [OF this]] have "layout np f k (PGNUM a) AND PTE_U \<noteq> 0" using l [OF n] by simp
      then show False using rights layout_low [of "PGNUM a" np f k] a u np by auto
    qed
  qed
qed

text \<open>C23: in the address space mem\_init builds, user code can write nowhere, the page tables it sees at
  UVPT included, and can read only between UTOP and ULIM: the processor's walk through the kernel's directory
  grants nothing else. As in C22, the mappings are made from any state with a directory as the allocations
  leave it.\<close>

theorem kernel_space_protected:
  assumes f: "next_frame end_kva M f" "256 \<le> f" and np: "npages (kernel M) = np" "np \<le> 65536" "boot_frames f np + 68 \<le> np"
    and fl: "page_free_list (kernel M) = None" and k: "k + 64 \<le> 65536"
  shows "\<exists>p e M'. mem_init_alloc end_kva M = (Inr (p, e), M') \<and> blank_space f np (kernel M')
    \<and> (\<forall>s. blank_space f np s \<longrightarrow> (\<exists>s'. mem_init_map p e (kva_of k) s = (Inr (), s') \<and> kern_pgdir s' = f
         \<and> (\<forall>a. mmu s' f a True = None \<and> (a < UTOP \<or> ULIM \<le> a \<longrightarrow> mmu s' f a False = None))))"
proof -
  obtain M' where 1: "mem_init_alloc end_kva M = (Inr (kva_of (f + 1), kva_of (f + 1 + pages_frames np)), M')"
    "blank_space f np (kernel M')"
    using alloc_blank_space [OF f np fl] by blast
  have le: "boot_frames f np \<le> np" using np(3) by simp
  have "\<exists>s'. mem_init_map (kva_of (f + 1)) (kva_of (f + 1 + pages_frames np)) (kva_of k) s = (Inr (), s') \<and> kern_pgdir s' = f
      \<and> (\<forall>a. mmu s' f a True = None \<and> (a < UTOP \<or> ULIM \<le> a \<longrightarrow> mmu s' f a False = None))" if b: "blank_space f np s" for s
    using blank_space_map [OF b np(2) le k] layout_protects [OF np(2)] by metis
  then show ?thesis using 1 by blast
qed

theorem kernel_space_protected_witness:
  "\<exists>p e M' s. mem_init_alloc 0xF0200000 boot_machine = (Inr (p, e), M') \<and> mem_init_map p e 0xF0190000 (kernel M') = (Inr (), s)
    \<and> mmu s 512 0xEF400000 True = None \<and> mmu s 512 0xF0100000 False = None"
proof -
  have "ULIM \<le> 0xF0100000" by simp
  then show ?thesis
    using kernel_space_protected [OF boot_machine(1) _ boot_machine(2) _ boot_machine(4,3), of 400] boot_machine(5) by fastforce
qed

end
