(* ===== verification/MemCheck.thy ===== *)
theory MemCheck
  imports KernSpace
begin

text \<open>
  The self tests of kern/pmap.c: programs over the allocator and the page tables that mem\_init runs
  before the kernel goes on; a failed assertion is a panic. Two of them change what they test on the way:
  check\_page\_free\_list reorders the free list and check\_page\_alloc takes it away and gives it back.

  \<^item> The loops that follow the links of the free list run for ever on a circular list (\<open>Spin\<close>).
  \<^item> \<open>pages\<close> is an array of the state, never NULL, and a pointer into it is an index.
\<close>

section \<open>Assertions and lists\<close>

definition assertK :: "bool \<Rightarrow> unit K" where
  "assertK b = (if b then ret () else panic ''assertion failed: %s'')"

definition check :: "(kst \<Rightarrow> bool) \<Rightarrow> unit K" where
  "check P = bnd (gets P) assertK"

partial_function (option) links :: "(nat \<Rightarrow> nat option) \<Rightarrow> nat option \<Rightarrow> nat list option" where
  [code]: "links next pp = (case pp of None \<Rightarrow> Some []
     | Some p \<Rightarrow> Option.bind (links next (next p)) (\<lambda>ps. Some (p # ps)))"

definition free_list_pages :: "nat list K" where
  "free_list_pages = bnd (gets (\<lambda>s. links (page_link s) (page_free_list s))) (\<lambda>r. case r of
     None \<Rightarrow> exit_with Spin | Some ps \<Rightarrow> ret ps)"

definition fill_frame :: "nat \<Rightarrow> nat \<Rightarrow> u32 \<Rightarrow> unit K" where
  "fill_frame f n w = modify (\<lambda>s. s\<lparr>pmem := (pmem s)(f := (\<lambda>i. if i < n then w else pmem s f i))\<rparr>)"

section \<open>check\_page\_free\_list\<close>

text \<open>The loop that moves the pages with low addresses first, with \<open>tp\<close> pointing to the end of either list.\<close>

datatype link_ref = Var nat | LinkOf nat

record sorter =
  heads :: "nat \<Rightarrow> nat option" \<comment> \<open>pp1 and pp2\<close>
  tp :: "nat \<Rightarrow> link_ref"
  sk :: kst

fun write_ref :: "link_ref \<Rightarrow> nat option \<Rightarrow> sorter \<Rightarrow> sorter" where
  "write_ref (Var v) x st = st\<lparr>heads := (heads st)(v := x)\<rparr>"
| "write_ref (LinkOf p) x st = st\<lparr>sk := upd_page p (\<lambda>q. q\<lparr>pp_link := x\<rparr>) (sk st)\<rparr>"

definition pagetype :: "nat \<Rightarrow> nat \<Rightarrow> nat" where
  "pagetype pdx_limit pp = (if PDX (page2pa pp) \<ge> pdx_limit then 1 else 0)"

definition sort_step :: "nat \<Rightarrow> nat \<Rightarrow> sorter \<Rightarrow> sorter" where
  "sort_step pdx_limit pp st = (let t = pagetype pdx_limit pp; st1 = write_ref (tp st t) (Some pp) st
     in st1\<lparr>tp := (tp st1)(t := LinkOf pp)\<rparr>)"

partial_function (option) sort_loop :: "nat \<Rightarrow> nat option \<Rightarrow> sorter \<Rightarrow> sorter option" where
  [code]: "sort_loop pdx_limit pp st = (case pp of None \<Rightarrow> Some st
     | Some p \<Rightarrow> let st' = sort_step pdx_limit p st in sort_loop pdx_limit (page_link (sk st') p) st')"

definition sort_end :: "sorter \<Rightarrow> kst" where
  "sort_end st = (let st1 = write_ref (tp st 1) None st; st2 = write_ref (tp st1 0) (heads st1 1) st1
     in (sk st2)\<lparr>page_free_list := heads st2 0\<rparr>)"

definition sort_free_list :: "nat \<Rightarrow> unit K" where
  "sort_free_list pdx_limit = bnd (gets (\<lambda>s. sort_loop pdx_limit (page_free_list s)
       \<lparr>heads = (\<lambda>_. None), tp = Var, sk = s\<rparr>)) (\<lambda>r. case r of
     None \<Rightarrow> exit_with Spin | Some st \<Rightarrow> modify (\<lambda>_. sort_end st))"

definition poison_page :: "nat \<Rightarrow> nat \<Rightarrow> unit K" where
  "poison_page pdx_limit pp = whenM (PDX (page2pa pp) < pdx_limit)
     (bnd (page2kva pp) (\<lambda>f. fill_frame f 32 0x97979797))"

definition check_free_page :: "u32 \<Rightarrow> nat \<Rightarrow> unit K" where
  "check_free_page first_free_page pp =
     thn (check (\<lambda>s. pp < npages s))
     (thn (assertK (page2pa pp \<noteq> 0))
     (thn (assertK (page2pa pp \<noteq> IOPHYSMEM))
     (thn (assertK (page2pa pp \<noteq> EXTPHYSMEM - PGSIZE))
     (thn (assertK (page2pa pp \<noteq> EXTPHYSMEM))
     (thn (if page2pa pp < EXTPHYSMEM then ret ()
           else bnd (KADDR_kva (page2pa pp)) (\<lambda>kva. assertK (kva \<ge> first_free_page)))
     (assertK (page2pa pp \<noteq> MPENTRY_PADDR)))))))"

definition list_not_null :: "unit K" where
  "list_not_null = bnd (gets page_free_list) (\<lambda>fl.
     if fl = None then panic (CHR 0x27 # ''page_free_list'' @ CHR 0x27 # '' is a null pointer!'') else ret ())"

definition poison_pages :: "nat \<Rightarrow> unit K" where
  "poison_pages pdx_limit = bnd free_list_pages (\<lambda>ps. for_each ps (poison_page pdx_limit))"

definition check_free_pages :: "u32 \<Rightarrow> unit K" where
  "check_free_pages first_free_page = bnd free_list_pages (\<lambda>ps.
     thn (for_each ps (check_free_page first_free_page))
     (let nfree_basemem = length (filter (\<lambda>p. page2pa p < EXTPHYSMEM) ps); nfree_extmem = length ps - nfree_basemem in
     thn (assertK (nfree_basemem > 0))
     (thn (assertK (nfree_extmem > 0))
     (cprintf ''check_page_free_list() succeeded!\<newline>'' []))))"

definition check_page_free_list :: "u32 \<Rightarrow> bool \<Rightarrow> unit M" where
  "check_page_free_list end_kva only_low_memory = (let pdx_limit = (if only_low_memory then 1 else NPDENTRIES) in
     thn (kern list_not_null)
     (thn (kern (whenM only_low_memory (sort_free_list pdx_limit)))
     (thn (kern (poison_pages pdx_limit))
     (bnd (boot_alloc end_kva 0) (\<lambda>first_free_page.
      kern (check_free_pages first_free_page))))))"

section \<open>check\_page\_alloc\<close>

text \<open>\<open>assert((pp = page_alloc(flags)))\<close>, three times, and the tests that the pages are different.\<close>

definition take_page :: "u32 \<Rightarrow> nat K" where
  "take_page alloc_flags = bnd (page_alloc alloc_flags) (\<lambda>r. case r of
     None \<Rightarrow> panic ''assertion failed: %s'' | Some p \<Rightarrow> ret p)"

definition take3 :: "(nat \<times> nat \<times> nat) K" where
  "take3 = bnd (take_page 0) (\<lambda>pp0. bnd (take_page 0) (\<lambda>pp1. bnd (take_page 0) (\<lambda>pp2.
     thn (assertK (pp1 \<noteq> pp0)) (thn (assertK (pp2 \<noteq> pp1 \<and> pp2 \<noteq> pp0)) (ret (pp0, pp1, pp2))))))"

definition no_page :: "unit K" where
  "no_page = bnd (page_alloc 0) (\<lambda>r. assertK (r = None))"

definition steal_list :: "nat option K" where
  "steal_list = bnd (gets page_free_list) (\<lambda>fl. thn (modify (\<lambda>s. s\<lparr>page_free_list := None\<rparr>)) (ret fl))"

definition in_memory :: "nat \<Rightarrow> unit K" where
  "in_memory pp = check (\<lambda>s. page2pa pp < of_nat (npages s) * PGSIZE)"

definition test_zero_flag :: "nat \<Rightarrow> unit K" where
  "test_zero_flag pp0 =
     thn (bnd (page2kva pp0) (\<lambda>f. fill_frame f 1024 0x01010101))
     (thn (page_free pp0)
     (bnd (take_page ALLOC_ZERO) (\<lambda>pp.
     thn (assertK (pp0 = pp))
     (bnd (page2kva pp) (\<lambda>c. check (\<lambda>s. \<forall>i \<in> set [0..<1024]. pmem s c i = 0))))))"

definition check_page_alloc :: "unit K" where
  "check_page_alloc =
     bnd free_list_pages (\<lambda>ps.
     bnd take3 (\<lambda>(pp0, pp1, pp2).
     thn (for_each [pp0, pp1, pp2] in_memory)
     (bnd steal_list (\<lambda>fl.
     thn no_page
     (thn (for_each [pp0, pp1, pp2] page_free)
     (bnd take3 (\<lambda>(pp0, pp1, pp2).
     thn no_page
     (thn (test_zero_flag pp0)
     (thn (modify (\<lambda>s. s\<lparr>page_free_list := fl\<rparr>))
     (thn (for_each [pp0, pp1, pp2] page_free)
     (bnd free_list_pages (\<lambda>ps'.
     thn (assertK (int (length ps) - int (length ps') = 0))
     (cprintf ''check_page_alloc() succeeded!\<newline>'' [])))))))))))))"

section \<open>The loop that sorts the free list\<close>

lemma links_flist: "flist next h xs \<Longrightarrow> links next h = Some xs"
proof (induction xs arbitrary: h)
  case Nil
  then show ?case by (simp add: links.simps)
next
  case (Cons x xs)
  then show ?case by (subst links.simps) simp
qed

lemma free_list_pages_exec: "flist (page_link s) (page_free_list s) xs \<Longrightarrow> free_list_pages s = (Inr xs, s)"
  by (simp add: free_list_pages_def links_flist)

text \<open>\<open>chain link h xs\<close>: from head \<open>h\<close> the links visit \<open>xs\<close>; where the last of them leads is left open.\<close>

fun chain :: "(nat \<Rightarrow> nat option) \<Rightarrow> nat option \<Rightarrow> nat list \<Rightarrow> bool" where
  "chain l h [] = True"
| "chain l h [x] = (h = Some x)"
| "chain l h (x # y # ys) = (h = Some x \<and> chain l (l x) (y # ys))"

lemma chain_cong: "(\<And>x. x \<in> set xs \<Longrightarrow> l x = l' x) \<Longrightarrow> chain l h xs = chain l' h xs"
  by (induction l h xs rule: chain.induct) auto

lemma chain_snoc: "chain l h xs \<Longrightarrow> xs \<noteq> [] \<Longrightarrow> distinct xs \<Longrightarrow> chain (l(last xs := Some x)) h (xs @ [x])"
proof (induction l h xs rule: chain.induct)
  case (3 l h x' y ys)
  then have "last (y # ys) \<noteq> x'" by (metis distinct.simps(2) last_in_set list.distinct(1))
  then show ?case using 3 by auto
qed auto

lemma chain_close:
  "chain l h xs \<Longrightarrow> xs \<noteq> [] \<Longrightarrow> distinct (xs @ ys) \<Longrightarrow> flist l z ys \<Longrightarrow> flist (l(last xs := z)) h (xs @ ys)"
proof (induction l h xs rule: chain.induct)
  case (3 l h x' y ys')
  then have "last (y # ys') \<noteq> x'" by (metis distinct.simps(2) distinct_append last_in_set list.distinct(1))
  then show ?case using 3 by auto
qed auto

abbreviation slink :: "sorter \<Rightarrow> nat \<Rightarrow> nat option" where
  "slink st \<equiv> page_link (sk st)"

definition end_ref :: "nat \<Rightarrow> nat list \<Rightarrow> link_ref" where
  "end_ref t xs = (if xs = [] then Var t else LinkOf (last xs))"

lemma write_end:
  "heads (write_ref (end_ref t xs) x st) = (if xs = [] then (heads st)(t := x) else heads st)"
  "slink (write_ref (end_ref t xs) x st) = (if xs = [] then slink st else (slink st)(last xs := x))"
  "tp (write_ref (end_ref t xs) x st) = tp st"
  "sk (write_ref (end_ref t xs) x st) = (sk st)\<lparr>pages := pages (sk (write_ref (end_ref t xs) x st))\<rparr>"
  "pp_ref (pages (sk (write_ref (end_ref t xs) x st)) p) = pp_ref (pages (sk st) p)"
  "p \<notin> set xs \<Longrightarrow> pages (sk (write_ref (end_ref t xs) x st)) p = pages (sk st) p"
  by (auto simp: end_ref_def upd_page_def fun_eq_iff)

text \<open>\<open>Q t\<close> is the list of the pages of type \<open>t\<close> met so far, \<open>R\<close> are the pages still to come.\<close>

definition sort_inv :: "kst \<Rightarrow> (nat \<Rightarrow> nat list) \<Rightarrow> nat list \<Rightarrow> sorter \<Rightarrow> bool" where
  "sort_inv s Q R st \<longleftrightarrow> (\<forall>t < 2. chain (slink st) (heads st t) (Q t) \<and> tp st t = end_ref t (Q t))
     \<and> distinct (Q 0 @ Q 1 @ R) \<and> sk st = s\<lparr>pages := pages (sk st)\<rparr>
     \<and> (\<forall>p. pp_ref (pages (sk st) p) = pp_ref (pages s p) \<and> (p \<notin> set (Q 0 @ Q 1) \<longrightarrow> pages (sk st) p = pages s p))"

lemma pages_upd: "t = s\<lparr>pages := P\<rparr> \<Longrightarrow> u = t\<lparr>pages := pages u\<rparr> \<Longrightarrow> u = s\<lparr>pages := pages u\<rparr>"
  by (cases u, cases s) simp

lemma tp_upd: "sk (st\<lparr>tp := f\<rparr>) = sk st" "heads (st\<lparr>tp := f\<rparr>) = heads st" "tp (st\<lparr>tp := f\<rparr>) = f"
  by simp_all

lemma sort_step_inv:
  assumes i: "sort_inv s Q (x # R) st" and f: "flist (slink st) (slink st x) R"
    and t_def: "t = pagetype lim x"
  shows "sort_inv s (Q(t := Q t @ [x])) R (sort_step lim x st)"
    "slink (sort_step lim x st) x = slink st x" "flist (slink (sort_step lim x st)) (slink st x) R"
proof -
  have t: "t = 0 \<or> t = 1" by (simp add: t_def pagetype_def)
  then have t2: "t < 2" by auto
  have C: "chain (slink st) (heads st j) (Q j)" "tp st j = end_ref j (Q j)" if "j < 2" for j
    using i that by (auto simp: sort_inv_def)
  have d: "distinct (Q t)" "x \<notin> set (Q 0)" "x \<notin> set (Q 1)" "x \<notin> set R" "set (Q 0) \<inter> set (Q 1) = {}" "set (Q t) \<inter> set R = {}"
    using i t by (auto simp: sort_inv_def)
  have last: "Q t \<noteq> [] \<Longrightarrow> last (Q t) \<in> set (Q t)" by simp
  let ?st = "write_ref (end_ref t (Q t)) (Some x) st"
  have st: "sort_step lim x st = ?st\<lparr>tp := (tp st)(t := LinkOf x)\<rparr>"
    unfolding sort_step_def Let_def t_def [symmetric] C(2) [OF t2] by (simp only: write_end(3))
  have same: "slink ?st p = slink st p" if "p \<notin> set (Q t)" for p using that by (simp add: write_end(6))
  have own: "chain (slink ?st) (heads ?st t) (Q t @ [x])"
    using chain_snoc [of "slink st" "heads st t" "Q t" x] C(1) [OF t2] d(1) by (simp add: write_end(1,2))
  have other: "chain (slink ?st) (heads ?st j) (Q j)" if "j < 2" "j \<noteq> t" for j
  proof -
    have "set (Q j) \<inter> set (Q t) = {}" using that t d(5) by (auto simp: less_2_cases_iff)
    then have "chain (slink ?st) (heads st j) (Q j)"
      using C(1) [OF that(1)] chain_cong [of "Q j" "slink ?st" "slink st"] same by blast
    moreover have "heads ?st j = heads st j" using that(2) by (simp add: write_end(1))
    ultimately show ?thesis by (simp only:)
  qed
  let ?Q = "Q(t := Q t @ [x])"
  have ends: "chain (slink ?st) (heads ?st j) (?Q j) \<and> ((tp st)(t := LinkOf x)) j = end_ref j (?Q j)" if "j < 2" for j
    using own other [OF that] C(2) [OF that] by (cases "j = t") (simp_all add: end_ref_def)
  have dist: "distinct (?Q 0 @ ?Q 1 @ R)" using i t by (auto simp: sort_inv_def)
  have "sk st = s\<lparr>pages := pages (sk st)\<rparr>" using i unfolding sort_inv_def by blast
  then have frame: "sk ?st = s\<lparr>pages := pages (sk ?st)\<rparr>" by (rule pages_upd [OF _ write_end(4)])
  have rest: "pp_ref (pages (sk ?st) p) = pp_ref (pages s p) \<and> (p \<notin> set (?Q 0 @ ?Q 1) \<longrightarrow> pages (sk ?st) p = pages s p)" for p
  proof -
    have "p \<notin> set (?Q 0 @ ?Q 1) \<Longrightarrow> p \<notin> set (Q 0 @ Q 1) \<and> p \<notin> set (Q t)" using t by auto
    moreover have "pp_ref (pages (sk st) p) = pp_ref (pages s p)" "p \<notin> set (Q 0 @ Q 1) \<longrightarrow> pages (sk st) p = pages s p"
      using i unfolding sort_inv_def by blast+
    ultimately show ?thesis by (metis write_end(5,6))
  qed
  show "sort_inv s ?Q R (sort_step lim x st)"
    unfolding sort_inv_def st tp_upd using ends dist frame rest by blast
  show "slink (sort_step lim x st) x = slink st x"
    unfolding st tp_upd using d(2,3) t by (intro same) auto
  show "flist (slink (sort_step lim x st)) (slink st x) R"
    unfolding st tp_upd using f flist_cong [of R "slink ?st" "slink st"] same d(6) by blast
qed

lemma sort_loop_exec:
  assumes "sort_inv s Q R st" "flist (slink st) h R"
  shows "\<exists>st'. sort_loop lim h st = Some st' \<and> sort_inv s (\<lambda>t. Q t @ filter (\<lambda>p. pagetype lim p = t) R) [] st'"
  using assms
proof (induction R arbitrary: Q st h)
  case Nil
  then show ?case by (subst sort_loop.simps) simp
next
  case (Cons x R)
  note S = sort_step_inv [OF Cons.prems(1) _ refl, where lim = lim]
  let ?t = "pagetype lim x" and ?st = "sort_step lim x st"
  let ?Q = "Q(?t := Q ?t @ [x])"
  have h: "h = Some x" "flist (slink st) (slink st x) R" using Cons.prems(2) by auto
  obtain st' where 1: "sort_loop lim (slink st x) ?st = Some st'"
    "sort_inv s (\<lambda>t. ?Q t @ filter (\<lambda>p. pagetype lim p = t) R) [] st'"
    using Cons.IH [OF S(1,3) [OF h(2)]] by blast
  have "(\<lambda>t. ?Q t @ filter (\<lambda>p. pagetype lim p = t) R) = (\<lambda>t. Q t @ filter (\<lambda>p. pagetype lim p = t) (x # R))"
    by (auto simp: fun_eq_iff)
  moreover have "sort_loop lim h st = sort_loop lim (slink st x) ?st"
    using h(1) S(2) [OF h(2)] by (subst sort_loop.simps) (simp add: Let_def)
  ultimately show ?case using 1 by metis
qed

lemma sort_end_exec:
  assumes "sort_inv s Q [] st"
  shows "list_rep (page_link (sort_end st)) (page_free_list (sort_end st)) (Q 0 @ Q 1)"
    and "sort_end st = s\<lparr>pages := pages (sort_end st), page_free_list := page_free_list (sort_end st)\<rparr>"
    and "pp_ref (pages (sort_end st) p) = pp_ref (pages s p)"
    and "p \<notin> set (Q 0 @ Q 1) \<Longrightarrow> pages (sort_end st) p = pages s p"
proof -
  have C: "chain (slink st) (heads st j) (Q j)" "tp st j = end_ref j (Q j)" if "j < 2" for j
    using assms that by (auto simp: sort_inv_def)
  have d: "distinct (Q 0 @ Q 1)" "distinct (Q 1)" "set (Q 0) \<inter> set (Q 1) = {}" using assms by (auto simp: sort_inv_def)
  let ?s1 = "write_ref (end_ref 1 (Q 1)) None st"
  let ?s2 = "write_ref (end_ref 0 (Q 0)) (heads ?s1 1) ?s1"
  have e: "sort_end st = (sk ?s2)\<lparr>page_free_list := heads ?s2 0\<rparr>"
    using C(2) [of 0] C(2) [of 1] unfolding sort_end_def Let_def by (simp add: write_end(3))
  have h1: "flist (slink ?s1) (heads ?s1 1) (Q 1)"
    using chain_close [OF C(1) [of 1], of "[]" None] d(2) by (auto simp: write_end(1,2))
  have "chain (slink ?s1) (heads st 0) (Q 0)"
  proof -
    have "slink ?s1 x = slink st x" if "x \<in> set (Q 0)" for x using that d(3) by (subst write_end(6)) auto
    then show ?thesis using C(1) [of 0] chain_cong [of "Q 0" "slink ?s1" "slink st"] by simp
  qed
  moreover have "heads ?s1 0 = heads st 0" by (simp add: write_end(1))
  ultimately have c0: "chain (slink ?s1) (heads ?s1 0) (Q 0)" by simp
  have "flist (slink ?s2) (heads ?s2 0) (Q 0 @ Q 1)"
  proof (cases "Q 0 = []")
    case True
    then show ?thesis using h1 write_end(1,2) [of 0 "[]" "heads ?s1 1" ?s1] by simp
  next
    case False
    then show ?thesis
      using chain_close [OF c0 False d(1) h1] write_end(1,2) [of 0 "Q 0" "heads ?s1 1" ?s1] by simp
  qed
  then show "list_rep (page_link (sort_end st)) (page_free_list (sort_end st)) (Q 0 @ Q 1)"
    unfolding list_rep_def e using d(1) by simp
  have s: "sk st = s\<lparr>pages := pages (sk st)\<rparr>" "pp_ref (pages (sk st) p) = pp_ref (pages s p)"
    "p \<notin> set (Q 0 @ Q 1) \<Longrightarrow> pages (sk st) p = pages s p"
    using assms unfolding sort_inv_def by blast+
  have "sk ?s2 = s\<lparr>pages := pages (sk ?s2)\<rparr>" by (rule pages_upd [OF pages_upd [OF s(1) write_end(4)] write_end(4)])
  moreover have "u = s\<lparr>pages := pages u\<rparr> \<Longrightarrow> u\<lparr>page_free_list := f\<rparr>
      = s\<lparr>pages := pages (u\<lparr>page_free_list := f\<rparr>), page_free_list := page_free_list (u\<lparr>page_free_list := f\<rparr>)\<rparr>" for u f
    by (cases u, cases s) simp
  ultimately show "sort_end st = s\<lparr>pages := pages (sort_end st), page_free_list := page_free_list (sort_end st)\<rparr>"
    unfolding e by blast
  have pg: "pages (sort_end st) p = pages (sk ?s2) p" unfolding e by simp
  show "pp_ref (pages (sort_end st) p) = pp_ref (pages s p)" unfolding pg write_end(5) by (rule s(2))
  show "pages (sort_end st) p = pages s p" if "p \<notin> set (Q 0 @ Q 1)"
    using that s(3) write_end(6) [of p "Q 0"] write_end(6) [of p "Q 1"] unfolding pg by auto
qed

lemma sort_free_list_exec:
  assumes "free_pages s xs"
  shows "\<exists>s'. sort_free_list lim s = (Inr (), s')
    \<and> free_pages s' (filter (\<lambda>p. PDX (page2pa p) < lim) xs @ filter (\<lambda>p. lim \<le> PDX (page2pa p)) xs)
    \<and> s' = s\<lparr>pages := pages s', page_free_list := page_free_list s'\<rparr>"
proof -
  let ?st = "\<lparr>heads = (\<lambda>_. None), tp = Var, sk = s\<rparr>"
  have xs: "flist (page_link s) (page_free_list s) xs" "distinct xs" "\<forall>p \<in> set xs. p < npages s \<and> pp_ref (pages s p) = 0"
    "\<forall>p < npages s. p \<notin> set xs \<longrightarrow> pp_link (pages s p) = None" "npages s \<le> 2 ^ 20"
    using assms by (auto simp: free_pages_def list_rep_def)
  have "sort_inv s (\<lambda>_. []) xs ?st" using xs(2) by (simp add: sort_inv_def end_ref_def)
  then obtain st where st: "sort_loop lim (page_free_list s) ?st = Some st"
    "sort_inv s (\<lambda>t. [] @ filter (\<lambda>p. pagetype lim p = t) xs) [] st"
    using sort_loop_exec [of s "\<lambda>_. []" xs ?st "page_free_list s" lim] xs(1) by auto
  note E = sort_end_exec [OF st(2), simplified append_Nil]
  have q: "filter (\<lambda>p. pagetype lim p = 0) xs = filter (\<lambda>p. PDX (page2pa p) < lim) xs"
    "filter (\<lambda>p. pagetype lim p = 1) xs = filter (\<lambda>p. lim \<le> PDX (page2pa p)) xs"
    by (rule filter_cong [OF refl], simp add: pagetype_def)+
  have n: "npages (sort_end st) = npages s" using arg_cong [OF E(2), of npages] by simp
  have "free_pages (sort_end st) (filter (\<lambda>p. PDX (page2pa p) < lim) xs @ filter (\<lambda>p. lim \<le> PDX (page2pa p)) xs)"
    using E(1) E(3,4) xs(3-5) n unfolding free_pages_def q by auto
  moreover have "sort_free_list lim s = (Inr (), sort_end st)" using st(1) by (simp add: sort_free_list_def)
  ultimately show ?thesis using E(2) by blast
qed

section \<open>check\_page\_free\_list passes\<close>

lemma poison_exec:
  assumes "\<forall>p \<in> set ps. p < npages s" "npages s \<le> 2 ^ 20"
  shows "\<exists>pm. for_each ps (poison_page lim) s = (Inr (), s\<lparr>pmem := pm\<rparr>)"
  using assms
proof (induction ps arbitrary: s)
  case Nil
  then show ?case by (intro exI [of _ "pmem s"]) simp
next
  case (Cons p ps)
  obtain pm where 1: "poison_page lim p s = (Inr (), s\<lparr>pmem := pm\<rparr>)"
  proof (cases "PDX (page2pa p) < lim")
    case True
    then show ?thesis using that Cons.prems page2kva_exec [of p s] by (simp add: poison_page_def fill_frame_def bnd_def)
  next
    case False
    then show ?thesis using that [of "pmem s"] by (simp add: poison_page_def)
  qed
  obtain pm' where 2: "for_each ps (poison_page lim) (s\<lparr>pmem := pm\<rparr>) = (Inr (), s\<lparr>pmem := pm\<rparr>\<lparr>pmem := pm'\<rparr>)"
    using Cons.IH [of "s\<lparr>pmem := pm\<rparr>"] Cons.prems by auto
  show ?case using 1 2 by (intro exI [of _ pm']) (simp add: thn_def bnd_def)
qed

lemma unat_page2pa: "p < 65536 \<Longrightarrow> unat (page2pa p) = p * 4096"
  using unat_page [of p] by (simp add: page2pa_def push_bit_eq_mult)

lemma check_free_page_exec:
  assumes p: "p < npages s" "npages s \<le> 65536" "\<not> page_reserved ff p" and ff: "256 < ff" "ff < 65536"
  shows "check_free_page (kva_of ff) p s = (Inr (), s)"
proof -
  have u: "unat (page2pa p) = p * 4096" using unat_page2pa p by simp
  have r: "p \<noteq> 0" "p \<noteq> 7" "p < 160 \<or> ff \<le> p" using p(3) ff(1) by (auto simp: page_reserved_def PGNUM_div)
  then have ne: "page2pa p \<noteq> 0" "page2pa p \<noteq> IOPHYSMEM" "page2pa p \<noteq> EXTPHYSMEM - PGSIZE" "page2pa p \<noteq> EXTPHYSMEM"
    "page2pa p \<noteq> MPENTRY_PADDR"
    using u ff(1) by (auto simp: word_unat_eq_iff)
  have top: "KADDR_kva (page2pa p) s = (Inr (kva_of p), s) \<and> kva_of p \<ge> kva_of ff" if "\<not> page2pa p < EXTPHYSMEM"
  proof -
    have "ff \<le> p" using that u r(3) by (auto simp: word_less_nat_alt)
    moreover have "PGNUM (page2pa p) = p" using p by simp
    moreover have "page2pa p + KERNBASE = kva_of p" by (simp add: kva_of_def page2pa_def push_bit_eq_mult add.commute)
    ultimately show ?thesis using p ff unat_kva_of [of p] unat_kva_of [of ff] by (simp add: KADDR_kva_def word_le_nat_alt)
  qed
  show ?thesis
    using ne top p(1) by (auto simp: check_free_page_def check_def assertK_def thn_def bnd_def)
qed

lemma check_free_pages_exec:
  assumes "\<forall>p \<in> set ps. p < npages s \<and> \<not> page_reserved ff p" "npages s \<le> 65536" "256 < ff" "ff < 65536"
  shows "for_each ps (check_free_page (kva_of ff)) s = (Inr (), s)"
  using assms(1)
proof (induction ps)
  case (Cons p ps)
  then show ?case using check_free_page_exec [of p s ff] assms(2-4) by (simp add: thn_def bnd_def)
qed simp

text \<open>C27: The test of a well-formed list returns; called at boot, it leaves the pages of the first 4 MB in front,
  both parts in their order.\<close>

theorem check_page_free_list_passes:
  assumes fp: "free_pages (kernel M) xs" "npages (kernel M) \<le> 65536" and ff: "next_frame end_kva M ff" "256 < ff" "ff < npages (kernel M)"
    and xs: "\<forall>p \<in> set xs. \<not> page_reserved ff p" "\<exists>p \<in> set xs. p < 256" "\<exists>p \<in> set xs. 256 \<le> p"
  shows "\<exists>M'. check_page_free_list end_kva only_low M = (Inr (), M')
    \<and> free_pages (kernel M') (if only_low then filter (\<lambda>p. p < 1024) xs @ filter (\<lambda>p. 1024 \<le> p) xs else xs)"
proof -
  let ?lim = "if only_low then 1 else NPDENTRIES"
  let ?ys = "if only_low then filter (\<lambda>p. p < 1024) xs @ filter (\<lambda>p. 1024 \<le> p) xs else xs"
  have p64: "\<forall>p \<in> set xs. p < 65536 \<and> p < npages (kernel M)" using fp by (auto simp: free_pages_def)
  have q: "filter (\<lambda>p. PDX (page2pa p) < 1) xs = filter (\<lambda>p. p < 1024) xs"
    "filter (\<lambda>p. 1 \<le> PDX (page2pa p)) xs = filter (\<lambda>p. 1024 \<le> p) xs"
    using p64 by (auto intro!: filter_cong simp: PDX_div)
  obtain s1 where 1: "whenM only_low (sort_free_list ?lim) (kernel M) = (Inr (), s1)" "free_pages s1 ?ys"
    "s1 = (kernel M)\<lparr>pages := pages s1, page_free_list := page_free_list s1\<rparr>"
  proof (cases only_low)
    case True
    then show ?thesis using that sort_free_list_exec [OF fp(1), of 1] q by auto
  next
    case False
    then show ?thesis using that [of "kernel M"] fp(1) by simp
  qed
  have n1: "npages s1 = npages (kernel M)" using arg_cong [OF 1(3), of npages] by simp
  have l1: "flist (page_link s1) (page_free_list s1) ?ys" using 1(2) by (simp add: free_pages_def list_rep_def)
  have set: "set ?ys = set xs" by auto
  obtain pm where 2: "for_each ?ys (poison_page ?lim) s1 = (Inr (), s1\<lparr>pmem := pm\<rparr>)"
    using poison_exec [of ?ys s1 ?lim] p64 n1 fp(2) unfolding set by auto
  let ?M2 = "M\<lparr>kernel := s1\<lparr>pmem := pm\<rparr>\<rparr>"
  have 3: "boot_alloc end_kva 0 ?M2 = (Inr (kva_of ff), ?M2\<lparr>nextfree := kva_of ff\<rparr>)"
  proof -
    have "next_frame end_kva ?M2 ff" using ff(1) by (simp add: next_frame_def split: if_splits)
    from boot_alloc_exec [OF this, of 0] show ?thesis using ff(3) n1 fp(2) by simp
  qed
  have 4: "for_each ?ys (check_free_page (kva_of ff)) (s1\<lparr>pmem := pm\<rparr>) = (Inr (), s1\<lparr>pmem := pm\<rparr>)"
    using check_free_pages_exec [of ?ys "s1\<lparr>pmem := pm\<rparr>" ff] p64 n1 fp(2) xs(1) ff(2,3) unfolding set by simp
  have low: "page2pa p < EXTPHYSMEM \<longleftrightarrow> p < 256" if "p \<in> set ?ys" for p
    using that p64 set unat_page2pa [of p] by (auto simp: word_less_nat_alt)
  let ?n = "length (filter (\<lambda>p. page2pa p < EXTPHYSMEM) ?ys)"
  have "filter (\<lambda>p. page2pa p < EXTPHYSMEM) ?ys \<noteq> []" using xs(2) set low by (auto simp: filter_empty_conv)
  moreover have "filter (\<lambda>p. \<not> page2pa p < EXTPHYSMEM) ?ys \<noteq> []" using xs(3) set low by (fastforce simp: filter_empty_conv)
  ultimately have c: "?n > 0" "length ?ys - ?n > 0"
    using sum_length_filter_compl [of "\<lambda>p. page2pa p < EXTPHYSMEM" ?ys] by (auto simp flip: length_greater_0_conv)
  have fl: "page_free_list (kernel M) \<noteq> None" using fp(1) xs(2) by (cases xs) (auto simp: free_pages_def list_rep_def)
  let ?s = "s1\<lparr>pmem := pm\<rparr>"
  let ?M3 = "?M2\<lparr>nextfree := kva_of ff\<rparr>"
  have fl': "free_list_pages t = (Inr ?ys, t)" if "t = s1 \<or> t = ?s" for t
    using that l1 free_list_pages_exec [of t ?ys] by auto
  have a: "kern list_not_null M = (Inr (), M)" using fl by (simp add: kern_def list_not_null_def)
  have b: "kern (whenM only_low (sort_free_list ?lim)) M = (Inr (), M\<lparr>kernel := s1\<rparr>)" using 1(1) by (simp only: kern_def prod.case)
  have c': "kern (poison_pages ?lim) (M\<lparr>kernel := s1\<rparr>) = (Inr (), ?M2)"
    using 2 fl' [of s1] by (simp add: kern_def poison_pages_def bnd_def)
  have "check_free_pages (kva_of ff) ?s = (Inr (), ?s\<lparr>trace := Cprintf ''check_page_free_list() succeeded!\<newline>'' [] # trace ?s\<rparr>)"
    unfolding check_free_pages_def Let_def thn_def bnd_def fl' [OF disjI2 [OF refl]] prod.case sum.case 4
    using c by (simp add: assertK_def cprintf_def emit_def del: EXTPHYSMEM_def)
  then have d: "kern (check_free_pages (kva_of ff)) ?M3
      = (Inr (), ?M3\<lparr>kernel := ?s\<lparr>trace := Cprintf ''check_page_free_list() succeeded!\<newline>'' [] # trace ?s\<rparr>\<rparr>)"
    by (simp add: kern_def)
  have "check_page_free_list end_kva only_low M
      = (Inr (), ?M3\<lparr>kernel := ?s\<lparr>trace := Cprintf ''check_page_free_list() succeeded!\<newline>'' [] # trace ?s\<rparr>\<rparr>)"
    unfolding check_page_free_list_def Let_def [of ?lim] by (simp only: thn_def bnd_def a b c' 3 d prod.case sum.case)
  moreover have "free_pages (?s\<lparr>trace := t\<rparr>) ?ys" for t using 1(2) by (simp add: free_pages_frame)
  ultimately show ?thesis by auto
qed

theorem check_page_free_list_passes_witness:
  "\<exists>M'. check_page_free_list 0xF0200000 True (boot_machine\<lparr>kernel := page_init 512 (kernel boot_machine)\<rparr>) = (Inr (), M')"
proof -
  let ?M = "boot_machine\<lparr>kernel := page_init 512 (kernel boot_machine)\<rparr>"
  let ?xs = "rev (filter (\<lambda>i. \<not> page_reserved 512 i) [0..<1024])"
  have fp: "free_pages (kernel ?M) ?xs" "npages (kernel ?M) \<le> 65536" "512 < npages (kernel ?M)"
    using page_init_rep [of "kernel boot_machine" 512] boot_machine(2,3) by (simp_all add: boot_machine_def zero_kst_def)
  have nf: "next_frame 0xF0200000 ?M 512" using boot_machine(1) by (simp add: next_frame_def split: if_splits)
  have "1 \<in> set ?xs" "1000 \<in> set ?xs" by (simp_all add: page_reserved_def PGNUM_div)
  moreover have "(1 :: nat) < 256" "256 \<le> (1000 :: nat)" by simp_all
  ultimately have "\<exists>p \<in> set ?xs. p < 256" "\<exists>p \<in> set ?xs. 256 \<le> p" by blast+
  then show ?thesis using check_page_free_list_passes [OF fp(1,2) nf _ fp(3), of True] by auto
qed

section \<open>check\_page\_alloc passes\<close>

text \<open>The three pages come off the list in its order and go back in reverse, twice, so the list is as before.\<close>

lemma take_page_exec: "page_free_list s = Some p \<Longrightarrow> take_page 0 s = (Inr p, page_pop p s)"
  by (simp add: take_page_def page_alloc_def bnd_def thn_def)

lemma take3_exec:
  assumes "page_free_list s = Some a" "page_link s a = Some b" "page_link s b = Some c" "a \<noteq> b" "c \<noteq> b" "c \<noteq> a"
  shows "take3 s = (Inr (a, b, c), page_pop c (page_pop b (page_pop a s)))"
proof -
  have "page_free_list (page_pop a s) = Some b" "page_free_list (page_pop b (page_pop a s)) = Some c"
    using assms by (simp_all add: page_pop_def upd_page_def)
  note T = take_page_exec [OF assms(1)] take_page_exec [OF this(1)] take_page_exec [OF this(2)]
  show ?thesis using assms(4-6) by (simp add: take3_def bnd_def [of "take_page _"] T assertK_def)
qed

lemma no_page_exec: "page_free_list s = None \<Longrightarrow> no_page s = (Inr (), s)"
  by (simp add: no_page_def page_alloc_def bnd_def assertK_def)

lemma free3_exec:
  assumes "\<forall>p \<in> {a, b, c}. pp_ref (pages s p) = 0 \<and> pp_link (pages s p) = None" "a \<noteq> b" "c \<noteq> b" "c \<noteq> a"
  shows "for_each [a, b, c] page_free s = (Inr (), page_push c (page_push b (page_push a s)))"
  using assms by (simp add: thn_def bnd_def page_free_exec page_push_def upd_page_def)

lemma in_memory_exec:
  assumes "\<forall>p \<in> set ps. p < npages s" "npages s \<le> 65536"
  shows "for_each ps in_memory s = (Inr (), s)"
  using assms(1)
proof (induction ps)
  case (Cons p ps)
  have "unat (of_nat (npages s) * PGSIZE :: u32) = npages s * 4096" using unat_page [of "npages s"] assms(2) by simp
  then have "page2pa p < of_nat (npages s) * PGSIZE"
    using Cons.prems assms(2) unat_page2pa [of p] by (simp add: word_less_nat_alt)
  then show ?case using Cons by (simp add: in_memory_def check_def assertK_def thn_def bnd_def)
qed simp

lemma test_zero_flag_exec:
  assumes "page_free_list s = None" "pp_ref (pages s p) = 0" "pp_link (pages s p) = None" "p < npages s" "npages s \<le> 2 ^ 20"
  shows "test_zero_flag p s = (Inr (), s\<lparr>pmem := (pmem s)(p := (\<lambda>_. 0))\<rparr>)"
proof -
  let ?s1 = "s\<lparr>pmem := (pmem s)(p := (\<lambda>i. if i < 1024 then 0x01010101 else pmem s p i))\<rparr>"
  let ?s3 = "s\<lparr>pmem := (pmem s)(p := (\<lambda>_. 0))\<rparr>"
  have 1: "bnd (page2kva p) (\<lambda>f. fill_frame f 1024 0x01010101) s = (Inr (), ?s1)"
    using page2kva_exec [OF assms(4,5)] by (simp add: bnd_def fill_frame_def)
  have 2: "page_free p ?s1 = (Inr (), page_push p ?s1)" using assms(2,3) by (simp add: page_free_exec)
  have pop: "page_pop p (page_push p ?s1) = ?s1"
    using assms(1,3) by (simp add: page_pop_def page_push_def upd_page_def) (simp add: fun_eq_iff)
  have "take_page ALLOC_ZERO (page_push p ?s1) = (Inr p, ?s3)"
    using page2kva_exec [of p ?s1] assms(4,5) pop
    by (simp add: take_page_def page_alloc_def bnd_def thn_def zero_frame_def page_push_def)
  then show ?thesis
    using page2kva_exec [of p ?s3] assms(4,5)
    by (simp add: test_zero_flag_def thn_def bnd_def 1 [unfolded bnd_def] 2 assertK_def check_def)
qed

text \<open>C28: check\_page\_alloc returns whenever at least three pages are free, and apart from its message and the
  contents of the third free page it leaves the state as it was: the same pages are free, in the same order.\<close>

theorem check_page_alloc_restores:
  assumes fp: "free_pages s (a # b # c # xs)" and n: "npages s \<le> 65536"
  shows "check_page_alloc s = (Inr (), s\<lparr>pmem := (pmem s)(c := (\<lambda>_. 0)),
    trace := Cprintf ''check_page_alloc() succeeded!\<newline>'' [] # trace s\<rparr>)"
proof -
  have l: "flist (page_link s) (page_free_list s) (a # b # c # xs)" using fp by (simp add: free_pages_def list_rep_def)
  have e: "page_free_list s = Some a" "page_link s a = Some b" "page_link s b = Some c" using l by auto
  have d: "a \<noteq> b" "c \<noteq> b" "c \<noteq> a" "b \<noteq> a" "b \<noteq> c" "a \<noteq> c" using fp by (auto simp: free_pages_def list_rep_def)
  have p: "a < npages s" "b < npages s" "c < npages s" "npages s \<le> 2 ^ 20"
    "pp_ref (pages s a) = 0" "pp_ref (pages s b) = 0" "pp_ref (pages s c) = 0"
    using fp n by (auto simp: free_pages_def)
  let ?h = "page_link s c"
  let ?s1 = "page_pop c (page_pop b (page_pop a s))"
  have s1: "?s1 = s\<lparr>pages := (pages s)(a := (pages s a)\<lparr>pp_link := None\<rparr>, b := (pages s b)\<lparr>pp_link := None\<rparr>,
      c := (pages s c)\<lparr>pp_link := None\<rparr>), page_free_list := ?h\<rparr>"
    using d by (simp add: page_pop_def upd_page_def)
  have 1: "take3 s = (Inr (a, b, c), ?s1)" by (rule take3_exec [OF e d(1-3)])
  have 2: "for_each [a, b, c] in_memory ?s1 = (Inr (), ?s1)" by (rule in_memory_exec) (use p n in \<open>auto simp: s1\<close>)
  let ?s2 = "?s1\<lparr>page_free_list := None\<rparr>"
  have 3: "steal_list ?s1 = (Inr ?h, ?s2)" by (simp add: steal_list_def s1)
  let ?s3 = "page_push c (page_push b (page_push a ?s2))"
  have 4: "no_page ?s2 = (Inr (), ?s2)" by (rule no_page_exec) simp
  have 5: "for_each [a, b, c] page_free ?s2 = (Inr (), ?s3)" by (rule free3_exec) (use p d in \<open>auto simp: s1\<close>)
  let ?s4 = "page_pop a (page_pop b (page_pop c ?s3))"
  have 6: "take3 ?s3 = (Inr (c, b, a), ?s4)" by (rule take3_exec) (use d in \<open>simp_all add: page_push_def upd_page_def\<close>)
  have s4: "?s4 = ?s2"
    unfolding s1 using d by (simp add: page_push_def page_pop_def upd_page_def) (auto simp: fun_eq_iff)
  let ?s5 = "?s2\<lparr>pmem := (pmem s)(c := (\<lambda>_. 0))\<rparr>"
  have 7: "test_zero_flag c ?s2 = (Inr (), ?s5)"
    using test_zero_flag_exec [of ?s2 c] p d by (simp add: s1)
  let ?s6 = "?s5\<lparr>page_free_list := ?h\<rparr>"
  let ?s7 = "page_push a (page_push b (page_push c ?s6))"
  have 8: "for_each [c, b, a] page_free ?s6 = (Inr (), ?s7)" by (rule free3_exec) (use p d in \<open>auto simp: s1\<close>)
  have s7: "?s7 = s\<lparr>pmem := (pmem s)(c := (\<lambda>_. 0))\<rparr>"
    unfolding s1 using d e by (simp add: page_push_def upd_page_def) (auto simp: fun_eq_iff intro!: kst.equality)
  have 9: "free_list_pages t = (Inr (a # b # c # xs), t)" if "pages t = pages s" "page_free_list t = page_free_list s" for t
    using that l free_list_pages_exec [of t "a # b # c # xs"] by simp
  have "check_page_alloc s = (Inr (), (s\<lparr>pmem := (pmem s)(c := (\<lambda>_. 0))\<rparr>)
      \<lparr>trace := Cprintf ''check_page_alloc() succeeded!\<newline>'' [] # trace s\<rparr>)"
    unfolding check_page_alloc_def
    by (simp only: bnd_def [of free_list_pages] 9 [OF refl refl] bnd_def [of take3] 1 bnd_def [of steal_list] 3 thn_def
      bnd_def [of "for_each _ _"] 2 bnd_def [of no_page] 4 5 6 s4 bnd_def [of "test_zero_flag _"] 7 bnd_def [of "modify _"] modify_exec
      8 s7 prod.case sum.case) (simp add: bnd_def 9 assertK_def cprintf_def emit_def)
  then show ?thesis by simp
qed

theorem check_page_alloc_restores_witness:
  "\<exists>s'. check_page_alloc pages_kst = (Inr (), s') \<and> page_free_list s' = page_free_list pages_kst"
proof -
  have "free_pages pages_kst (rev (filter (\<lambda>i. \<not> page_reserved 0 i) [0..<8]))"
    using page_init_rep [of "zero_kst\<lparr>npages := 8\<rparr>" 0] by (simp add: pages_kst_def zero_kst_def)
  moreover have "rev (filter (\<lambda>i. \<not> page_reserved 0 i) [0..<8]) = [6, 5, 4, 3, 2, 1]"
    by (simp add: page_reserved_def PGNUM_div upt_rec)
  ultimately have "free_pages pages_kst (6 # 5 # 4 # [3, 2, 1])" by simp
  from check_page_alloc_restores [OF this] show ?thesis by (simp add: pages_kst_def zero_kst_def)
qed

end
