(* ===== verification/MemInit.thy ===== *)
theory MemInit
  imports MemCheck
begin

text \<open>
  The rest of the self tests of kern/pmap.c, which exercise page\_insert, page\_remove, pgdir\_walk and
  mmio\_map\_region on the kernel's directory, and mem\_init as one sequence.

  \<^item> A pointer to an entry of a page table is a frame and an index; a test that follows NULL faults.
  \<^item> What the tests read and write at a virtual address goes through the installed directory, kern\_pgdir.
\<close>

section \<open>check\_kern\_pgdir\<close>

definition PTE_PS :: u32 where [simp]: "PTE_PS = 0x80"

definition check_va2pa :: "nat \<Rightarrow> u32 \<Rightarrow> u32 K" where
  "check_va2pa d va = bnd (load_word d (PDX va)) (\<lambda>pde.
     if pde AND PTE_P = 0 then ret (NOT 0)
     else if pde AND PTE_PS \<noteq> 0 then ret (PGADDR (PDX pde) (PTX va) (PGOFF va))
     else bnd (KADDR (PTE_ADDR pde)) (\<lambda>p. bnd (load_word p (PTX va)) (\<lambda>pte.
       if pte AND PTE_P = 0 then ret (NOT 0) else ret (PTE_ADDR pte))))"

definition assert_va2pa :: "nat \<Rightarrow> u32 \<Rightarrow> u32 \<Rightarrow> unit K" where
  "assert_va2pa d va pa = bnd (check_va2pa d va) (\<lambda>x. assertK (x = pa))"

text \<open>\<open>for (i = 0; i < n; i += PGSIZE)\<close>, for a multiple \<open>n\<close> of the page size.\<close>

definition for_pages :: "u32 \<Rightarrow> (u32 \<Rightarrow> unit K) \<Rightarrow> unit K" where
  "for_pages n f = for_each [0..<unat (n div PGSIZE)] (\<lambda>k. f (of_nat k * PGSIZE))"

definition check_stack :: "nat \<Rightarrow> u32 \<Rightarrow> nat \<Rightarrow> unit K" where
  "check_stack d kstacks n = (let base = KSTACKTOP - (KSTKSIZE + KSTKGAP) * (of_nat n + 1) in
     thn (for_pages KSTKSIZE (\<lambda>i. bnd (PADDR_kva (kstacks + of_nat n * KSTKSIZE)) (\<lambda>pa.
            assert_va2pa d (base + KSTKGAP + i) (pa + i))))
     (for_pages KSTKGAP (\<lambda>i. assert_va2pa d (base + i) (NOT 0))))"

definition check_pde :: "nat \<Rightarrow> nat \<Rightarrow> unit K" where
  "check_pde d i = bnd (load_word d i) (\<lambda>pde.
     if i \<in> {PDX UVPT, PDX (KSTACKTOP - 1), PDX UPAGES, PDX UENVS, PDX MMIOBASE} then assertK (pde AND PTE_P \<noteq> 0)
     else if i \<ge> PDX KERNBASE then thn (assertK (pde AND PTE_P \<noteq> 0)) (assertK (pde AND PTE_W \<noteq> 0))
     else assertK (pde = 0))"

definition check_kern_pgdir :: "u32 \<Rightarrow> u32 \<Rightarrow> u32 \<Rightarrow> unit K" where
  "check_kern_pgdir pages_kva envs_kva kstacks = bnd (gets (\<lambda>s. (kern_pgdir s, of_nat (npages s)))) (\<lambda>(pgdir, np).
     thn (for_pages (ROUNDUP (np * sizeof_PageInfo) PGSIZE) (\<lambda>i. bnd (PADDR_kva pages_kva) (\<lambda>pa. assert_va2pa pgdir (UPAGES + i) (pa + i))))
     (thn (for_pages (ROUNDUP (of_nat NENV * sizeof_Env) PGSIZE) (\<lambda>i. bnd (PADDR_kva envs_kva) (\<lambda>pa. assert_va2pa pgdir (UENVS + i) (pa + i))))
     (thn (for_pages (np * PGSIZE) (\<lambda>i. assert_va2pa pgdir (KERNBASE + i) i))
     (thn (for_each [0..<NCPU] (check_stack pgdir kstacks))
     (thn (for_each [0..<NPDENTRIES] (check_pde pgdir))
     (cprintf ''check_kern_pgdir() succeeded!\<newline>'' []))))))"

section \<open>check\_page\<close>

definition page_ref_is :: "nat \<Rightarrow> u16 \<Rightarrow> unit K" where
  "page_ref_is pp n = check (\<lambda>s. pp_ref (pages s pp) = n)"

definition insert_ok :: "nat \<Rightarrow> nat \<Rightarrow> u32 \<Rightarrow> u32 \<Rightarrow> unit K" where
  "insert_ok d pp va perm = bnd (page_insert (Some d) pp va perm) (\<lambda>r. assertK (r = 0))"

definition insert_fails :: "nat \<Rightarrow> nat \<Rightarrow> u32 \<Rightarrow> u32 \<Rightarrow> unit K" where
  "insert_fails d pp va perm = bnd (page_insert (Some d) pp va perm) (\<lambda>r. assertK (r <s 0))"

definition walk_word :: "nat \<Rightarrow> u32 \<Rightarrow> u32 K" where
  "walk_word d va = bnd (pgdir_walk (Some d) va False) (\<lambda>p. bnd (deref p) (\<lambda>(t, i). load_word t i))"

definition walk_bits :: "nat \<Rightarrow> u32 \<Rightarrow> u32 \<Rightarrow> bool \<Rightarrow> unit K" where
  "walk_bits d va m b = bnd (walk_word d va) (\<lambda>w. assertK ((w AND m \<noteq> 0) = b))"

definition clear_word :: "nat \<Rightarrow> u32 \<Rightarrow> unit K" where
  "clear_word d va = bnd (pgdir_walk (Some d) va False) (\<lambda>p. bnd (deref p) (\<lambda>(t, i). store_word t i 0))"

definition set_ref :: "nat \<Rightarrow> u16 \<Rightarrow> unit K" where
  "set_ref pp n = modify (upd_page pp (\<lambda>p. p\<lparr>pp_ref := n\<rparr>))"

text \<open>From the first test to the one that page\_insert maps a page where it is mapped already.\<close>

definition check_page_insert :: "nat \<Rightarrow> nat \<Rightarrow> nat \<Rightarrow> nat \<Rightarrow> unit K" where
  "check_page_insert d pp0 pp1 pp2 =
     thn no_page
     (thn (bnd (page_lookup (Some d) 0) (\<lambda>r. assertK (r = None)))
     (thn (insert_fails d pp1 0 PTE_W)
     (thn (page_free pp0)
     (thn (insert_ok d pp1 0 PTE_W)
     (thn (check (\<lambda>s. PTE_ADDR (pmem s d 0) = page2pa pp0))
     (thn (assert_va2pa d 0 (page2pa pp1))
     (thn (page_ref_is pp1 1)
     (thn (page_ref_is pp0 1)
     (thn (insert_ok d pp2 PGSIZE PTE_W)
     (thn (assert_va2pa d PGSIZE (page2pa pp2))
     (thn (page_ref_is pp2 1)
     (thn no_page
     (thn (insert_ok d pp2 PGSIZE PTE_W)
     (thn (assert_va2pa d PGSIZE (page2pa pp2))
     (thn (page_ref_is pp2 1)
     no_page)))))))))))))))"

definition check_page_perm :: "nat \<Rightarrow> nat \<Rightarrow> nat \<Rightarrow> unit K" where
  "check_page_perm d pp0 pp2 =
     thn (bnd (bnd (load_word d (PDX PGSIZE)) (\<lambda>pde. KADDR (PTE_ADDR pde))) (\<lambda>ptep.
          bnd (pgdir_walk (Some d) PGSIZE False) (\<lambda>r. assertK (r = Some (ptep, PTX PGSIZE)))))
     (thn (insert_ok d pp2 PGSIZE (PTE_W OR PTE_U))
     (thn (assert_va2pa d PGSIZE (page2pa pp2))
     (thn (page_ref_is pp2 1)
     (thn (walk_bits d PGSIZE PTE_U True)
     (thn (check (\<lambda>s. pmem s d 0 AND PTE_U \<noteq> 0))
     (thn (insert_ok d pp2 PGSIZE PTE_W)
     (thn (walk_bits d PGSIZE PTE_W True)
     (thn (walk_bits d PGSIZE PTE_U False)
     (insert_fails d pp0 PTSIZE PTE_W)))))))))"

definition check_page_replace :: "nat \<Rightarrow> nat \<Rightarrow> nat \<Rightarrow> unit K" where
  "check_page_replace d pp1 pp2 =
     thn (insert_ok d pp1 PGSIZE PTE_W)
     (thn (walk_bits d PGSIZE PTE_U False)
     (thn (assert_va2pa d 0 (page2pa pp1))
     (thn (assert_va2pa d PGSIZE (page2pa pp1))
     (thn (page_ref_is pp1 2)
     (thn (page_ref_is pp2 0)
     (thn (bnd (page_alloc 0) (\<lambda>pp. assertK (pp = Some pp2)))
     (thn (page_remove (Some d) 0)
     (thn (assert_va2pa d 0 (NOT 0))
     (thn (assert_va2pa d PGSIZE (page2pa pp1))
     (thn (page_ref_is pp1 1)
     (thn (page_ref_is pp2 0)
     (thn (insert_ok d pp1 PGSIZE 0)
     (thn (check (\<lambda>s. pp_ref (pages s pp1) \<noteq> 0))
     (thn (check (\<lambda>s. pp_link (pages s pp1) = None))
     (thn (page_remove (Some d) PGSIZE)
     (thn (assert_va2pa d 0 (NOT 0))
     (thn (assert_va2pa d PGSIZE (NOT 0))
     (thn (page_ref_is pp1 0)
     (thn (page_ref_is pp2 0)
     (thn (bnd (page_alloc 0) (\<lambda>pp. assertK (pp = Some pp1)))
     no_page))))))))))))))))))))"

definition check_page_walk :: "nat \<Rightarrow> nat \<Rightarrow> unit K" where
  "check_page_walk d pp0 =
     (let va = PGSIZE * of_nat NPDENTRIES + PGSIZE in
     thn (check (\<lambda>s. PTE_ADDR (pmem s d 0) = page2pa pp0))
     (thn (store_word d 0 0)
     (thn (page_ref_is pp0 1)
     (thn (set_ref pp0 0)
     (thn (page_free pp0)
     (bnd (pgdir_walk (Some d) va True) (\<lambda>ptep.
      bnd (bnd (load_word d (PDX va)) (\<lambda>pde. KADDR (PTE_ADDR pde))) (\<lambda>ptep1.
     thn (assertK (ptep = Some (ptep1, PTX va)))
     (thn (store_word d (PDX va) 0)
     (thn (set_ref pp0 0)
     (thn (bnd (page2kva pp0) (\<lambda>f. fill_frame f 1024 0xFFFFFFFF))
     (thn (page_free pp0)
     (thn (bnd (pgdir_walk (Some d) 0 True) (\<lambda>_. ret ()))
     (bnd (page2kva pp0) (\<lambda>ptep.
     thn (check (\<lambda>s. \<forall>i \<in> set [0..<1024]. pmem s ptep i AND PTE_P = 0))
     (thn (store_word d 0 0)
     (set_ref pp0 0)))))))))))))))))"

definition check_page_mmio :: "nat \<Rightarrow> unit K" where
  "check_page_mmio d =
     bnd (mmio_map_region 0 4097) (\<lambda>mm1. bnd (mmio_map_region 0 4096) (\<lambda>mm2.
     thn (assertK (mm1 \<ge> MMIOBASE \<and> mm1 + 8096 < MMIOLIM))
     (thn (assertK (mm2 \<ge> MMIOBASE \<and> mm2 + 8096 < MMIOLIM))
     (thn (assertK (mm1 mod PGSIZE = 0 \<and> mm2 mod PGSIZE = 0))
     (thn (assertK (mm1 + 8096 \<le> mm2))
     (thn (assert_va2pa d mm1 0)
     (thn (assert_va2pa d (mm1 + PGSIZE) PGSIZE)
     (thn (assert_va2pa d mm2 0)
     (thn (assert_va2pa d (mm2 + PGSIZE) (NOT 0))
     (thn (walk_bits d mm1 (PTE_W OR PTE_PWT OR PTE_PCD) True)
     (thn (walk_bits d mm1 PTE_U False)
     (thn (clear_word d mm1)
     (thn (clear_word d (mm1 + PGSIZE))
     (clear_word d mm2))))))))))))))"

definition check_page :: "unit K" where
  "check_page = bnd (gets kern_pgdir) (\<lambda>d.
     bnd take3 (\<lambda>(pp0, pp1, pp2).
     bnd steal_list (\<lambda>fl.
     thn (check_page_insert d pp0 pp1 pp2)
     (thn (check_page_perm d pp0 pp2)
     (thn (check_page_replace d pp1 pp2)
     (thn (check_page_walk d pp0)
     (thn (modify (\<lambda>s. s\<lparr>page_free_list := fl\<rparr>))
     (thn (for_each [pp0, pp1, pp2] page_free)
     (thn (check_page_mmio d)
     (cprintf ''check_page() succeeded!\<newline>'' []))))))))))"

section \<open>check\_page\_installed\_pgdir\<close>

text \<open>An access of the kernel to a virtual address; CR0\_WP makes read-only pages read-only for the kernel too.\<close>

definition kernel_word :: "bool \<Rightarrow> u32 \<Rightarrow> (nat \<times> nat) K" where
  "kernel_word write va = (let need = PTE_P OR (if write then PTE_W else 0) in
     bnd (gets kern_pgdir) (\<lambda>d. bnd (load_word d (PDX va)) (\<lambda>pde.
     if pde AND need \<noteq> need then panic ''page fault in kernel mode\<newline>''
     else bnd (load_word (PGNUM pde) (PTX va)) (\<lambda>pte.
     if pte AND need \<noteq> need then panic ''page fault in kernel mode\<newline>''
     else ret (PGNUM pte, unat (PGOFF va) div 4)))))"

definition kernel_load :: "u32 \<Rightarrow> u32 K" where
  "kernel_load va = bnd (kernel_word False va) (\<lambda>(f, i). load_word f i)"

definition kernel_store :: "u32 \<Rightarrow> u32 \<Rightarrow> unit K" where
  "kernel_store va w = bnd (kernel_word True va) (\<lambda>(f, i). store_word f i w)"

definition check_page_installed_pgdir :: "unit K" where
  "check_page_installed_pgdir = bnd (gets kern_pgdir) (\<lambda>d.
     bnd (take_page 0) (\<lambda>pp0. bnd (take_page 0) (\<lambda>pp1. bnd (take_page 0) (\<lambda>pp2.
     thn (page_free pp0)
     (thn (bnd (page2kva pp1) (\<lambda>f. fill_frame f 1024 0x01010101))
     (thn (bnd (page2kva pp2) (\<lambda>f. fill_frame f 1024 0x02020202))
     (thn (bnd (page_insert (Some d) pp1 PGSIZE PTE_W) (\<lambda>_. ret ()))
     (thn (page_ref_is pp1 1)
     (thn (bnd (kernel_load PGSIZE) (\<lambda>w. assertK (w = 0x01010101)))
     (thn (bnd (page_insert (Some d) pp2 PGSIZE PTE_W) (\<lambda>_. ret ()))
     (thn (bnd (kernel_load PGSIZE) (\<lambda>w. assertK (w = 0x02020202)))
     (thn (page_ref_is pp2 1)
     (thn (page_ref_is pp1 0)
     (thn (kernel_store PGSIZE 0x03030303)
     (thn (bnd (bnd (page2kva pp2) (\<lambda>f. load_word f 0)) (\<lambda>w. assertK (w = 0x03030303)))
     (thn (page_remove (Some d) PGSIZE)
     (thn (page_ref_is pp2 0)
     (thn (check (\<lambda>s. PTE_ADDR (pmem s d 0) = page2pa pp0))
     (thn (store_word d 0 0)
     (thn (page_ref_is pp0 1)
     (thn (set_ref pp0 0)
     (thn (page_free pp0)
     (cprintf ''check_page_installed_pgdir() succeeded!\<newline>'' [])))))))))))))))))))))))"

section \<open>mem\_init\<close>

definition CR0_PE :: u32 where [simp]: "CR0_PE = 0x1"
definition CR0_MP :: u32 where [simp]: "CR0_MP = 0x2"
definition CR0_EM :: u32 where [simp]: "CR0_EM = 0x4"
definition CR0_TS :: u32 where [simp]: "CR0_TS = 0x8"
definition CR0_NE :: u32 where [simp]: "CR0_NE = 0x20"
definition CR0_WP :: u32 where [simp]: "CR0_WP = 0x10000"
definition CR0_AM :: u32 where [simp]: "CR0_AM = 0x40000"
definition CR0_PG :: u32 where [simp]: "CR0_PG = 0x80000000"

definition configure_cr0 :: "unit M" where
  "configure_cr0 = bnd (gets cr0) (\<lambda>c0.
     let c1 = c0 OR (CR0_PE OR CR0_PG OR CR0_AM OR CR0_WP OR CR0_NE OR CR0_MP);
         c2 = c1 AND NOT (CR0_TS OR CR0_EM) in
     modify (\<lambda>M. M\<lparr>cr0 := c2\<rparr>))"

definition mem_init :: "u32 \<Rightarrow> u32 \<Rightarrow> unit M" where
  "mem_init end_kva kstacks =
     thn i386_detect_memory
     (bnd (mem_init_alloc end_kva) (\<lambda>(pages_kva, envs_kva).
     thn (check_page_free_list end_kva True)
     (thn (kern check_page_alloc)
     (thn (kern check_page)
     (thn (kern (mem_init_map pages_kva envs_kva kstacks))
     (thn (kern (check_kern_pgdir pages_kva envs_kva kstacks))
     (thn (kern (bnd (gets kern_pgdir) lcr3))
     (thn (check_page_free_list end_kva False)
     (thn configure_cr0
     (kern check_page_installed_pgdir))))))))))"

end
