(* ===== verification/Init.thy ===== *)
theory Init
  imports MemInit
begin

text \<open>
  kern/init.c: the start of the kernel on the first processor, the start of the others, and what each of
  them does when it starts; and the per-processor parts of kern/env.c and kern/trap.c.

  \<^item> \<open>linked\<close> holds what the linker places: addresses, the code for the other processors, and the programs.
  \<^item> A processor is its local APIC's registers, \<open>processors\<close>, by APIC ID; which of them exist is a parameter. A
    processor that gets a startup interrupt runs mp\_main up to the kernel lock while the first one waits.
  \<^item> A wait that nothing ends is \<open>Spin\<close>.
\<close>

section \<open>Per-processor set-up\<close>

record linked =
  end_kva :: u32
  kstacks_kva :: u32
  cpu_ts_kva :: "nat \<Rightarrow> u32"
  handlers :: "nat \<Rightarrow> u32"
  mpentry_code :: "u8 list"
  user_hello :: image

type_synonym processors = "u8 \<Rightarrow> (io_event list \<Rightarrow> nat \<Rightarrow> u32) option"

definition env_init_percpu :: "unit M" where
  "env_init_percpu = bnd (gets (\<lambda>M. cpunum (kernel M))) (\<lambda>c. modify (\<lambda>M. M\<lparr>segment_registers := (segment_registers M)(c :=
     \<lparr>sr_cs = GD_KT, sr_ds = GD_KD, sr_es = GD_KD, sr_fs = GD_UD OR 3, sr_gs = GD_UD OR 3, sr_ss = GD_KD, sr_ldt = 0\<rparr>)\<rparr>))"

text \<open>thiscpu is \<open>cpus[cpunum()]\<close>.\<close>

definition trap_init_cpu :: "linked \<Rightarrow> unit M" where
  "trap_init_cpu img = bnd lapic_cpunum (\<lambda>this. bnd (gets (\<lambda>M. cpu_id M this)) (\<lambda>thisid. bnd (gets (\<lambda>M. cpunum (kernel M))) (\<lambda>c.
     modify (\<lambda>M. let (g, sel) = trap_init_percpu thisid (cpu_ts_kva img this) (gdt M) in
       M\<lparr>cpu_ts := (cpu_ts M)(this := percpu_tss thisid), gdt := g, task_register := (task_register M)(c := sel)\<rparr>))))"

definition env_init_all :: "unit M" where
  "env_init_all = thn (kern env_init) env_init_percpu"

definition trap_init_all :: "linked \<Rightarrow> unit M" where
  "trap_init_all img = thn (modify (\<lambda>M. M\<lparr>idt := trap_init (handlers img) (idt M)\<rparr>)) (trap_init_cpu img)"

definition lapic_init_wait :: "unit M" where
  "lapic_init_wait M = (case lapic_init M of None \<Rightarrow> (Inl Spin, M) | Some r \<Rightarrow> r)"

section \<open>The other processors\<close>

text \<open>mp\_main, up to the point where it tells boot\_aps that it is up.\<close>

definition mp_setup :: "linked \<Rightarrow> unit M" where
  "mp_setup img =
     thn (kern (bnd (gets kern_pgdir) lcr3))
     (thn (bnd lapic_cpunum (\<lambda>n. kern (cprintf ''SMP: CPU %d starting\<newline>'' [of_nat n])))
     (thn lapic_init_wait
     (thn env_init_percpu
     (thn (trap_init_cpu img)
     (bnd lapic_cpunum (\<lambda>n. kern (modify (\<lambda>s. s\<lparr>cpus := (cpus s)(n := (cpus s n)\<lparr>cpu_status := CPU_STARTED\<rparr>)\<rparr>))))))))"

definition mp_main :: "linked \<Rightarrow> 'a M" where
  "mp_main img = thn (mp_setup img) (thn (kern lock_kernel) (kern sched_yield))"

text \<open>The processor with APIC ID \<open>apicid\<close>, if there is one, runs while this one waits: it takes its stack from
  mpentry\_kstack (mpentry.S) and calls mp\_main.\<close>

definition ap_runs :: "processors \<Rightarrow> linked \<Rightarrow> u8 \<Rightarrow> unit M" where
  "ap_runs ps img apicid M = (case ps apicid of None \<Rightarrow> (Inr (), M)
     | Some regs \<Rightarrow> (case mp_setup img (M\<lparr>reg_value := regs, boot_stack := (boot_stack M)(unat apicid := mpentry_kstack M),
           kernel := (kernel M)\<lparr>cpunum := unat apicid\<rparr>\<rparr>) of
         (r, M') \<Rightarrow> (r, M'\<lparr>reg_value := reg_value M, kernel := (kernel M')\<lparr>cpunum := cpunum (kernel M)\<rparr>\<rparr>)))"

definition wait_started :: "nat \<Rightarrow> unit M" where
  "wait_started c = bnd (gets (\<lambda>M. cpu_status (cpus (kernel M) c))) (\<lambda>st.
     if st \<noteq> CPU_STARTED then exit_with Spin else ret ())"

definition boot_ap :: "processors \<Rightarrow> linked \<Rightarrow> nat \<Rightarrow> unit M" where
  "boot_ap ps img c = bnd lapic_cpunum (\<lambda>me.
     if c = me then ret ()
     else thn (modify (\<lambda>M. M\<lparr>mpentry_kstack := kstacks_kva img + of_nat c * KSTKSIZE + KSTKSIZE\<rparr>))
       (bnd (gets (\<lambda>M. cpu_id M c)) (\<lambda>id.
        thn (lapic_startap id MPENTRY_PADDR)
       (thn (ap_runs ps img id)
       (wait_started c)))))"

fun store_bytes :: "u32 \<Rightarrow> u8 list \<Rightarrow> kst \<Rightarrow> kst" where
  "store_bytes pa [] s = s"
| "store_bytes pa (b # bs) s = store_bytes (pa + 1) bs (store_byte pa b s)"

definition boot_aps :: "processors \<Rightarrow> linked \<Rightarrow> unit M" where
  "boot_aps ps img =
     thn (kern (bnd (KADDR MPENTRY_PADDR) (\<lambda>_. modify (store_bytes MPENTRY_PADDR (mpentry_code img)))))
     (bnd (gets ncpu) (\<lambda>n. for_each [0..<n] (boot_ap ps img)))"

section \<open>The first processor\<close>

text \<open>The data is zero to begin with (the state of \<open>M\<close>); the build without TEST creates three times user\_hello.\<close>

definition i386_init :: "processors \<Rightarrow> linked \<Rightarrow> 'a M" where
  "i386_init ps img =
     thn cons_init
     (thn (kern (cprintf ''6828 decimal is %o octal!\<newline>'' [6828]))
     (thn (mem_init (end_kva img) (kstacks_kva img))
     (thn env_init_all
     (thn (trap_init_all img)
     (thn mp_init
     (thn lapic_init_wait
     (thn pic_init
     (thn (kern lock_kernel)
     (thn (boot_aps ps img)
     (thn (kern (env_create (user_hello img) ENV_TYPE_USER))
     (thn (kern (env_create (user_hello img) ENV_TYPE_USER))
     (thn (kern (env_create (user_hello img) ENV_TYPE_USER))
     (kern sched_yield)))))))))))))"

section \<open>Panics and warnings\<close>

text \<open>The kernel's panic: the message of the first one only, then the monitor, for ever.\<close>

definition kernel_panic :: "trap_hw \<Rightarrow> string \<Rightarrow> u32 \<Rightarrow> string \<Rightarrow> u32 list \<Rightarrow> 'a M" where
  "kernel_panic hw file line fmt args = bnd (gets panicstr) (\<lambda>first.
     thn (if first \<noteq> None then ret ()
          else thn (modify (\<lambda>M. M\<lparr>panicstr := Some fmt\<rparr>))
              (bnd lapic_cpunum (\<lambda>n.
               thn (kern (cprintf (''>>>\<newline>>>> kernel panic on CPU %d at '' @ file @ '':%d: '') [of_nat n, line]))
              (thn (kern (cprintf fmt args))
              (kern (cprintf ''\<newline>>>>\<newline>'' []))))))
     (kern (monitor hw None)))"

definition kernel_warn :: "string \<Rightarrow> u32 \<Rightarrow> string \<Rightarrow> u32 list \<Rightarrow> unit M" where
  "kernel_warn file line fmt args =
     thn (kern (cprintf (''kernel warning at '' @ file @ '':%d: '') [line]))
     (thn (kern (cprintf fmt args))
     (kern (cprintf ''\<newline>'' [])))"

section \<open>Mapping the local APIC\<close>

text \<open>
  \<open>lapic_space s j\<close>: the kernel's directory is well-formed and has the table of the device window, \<open>j\<close> pages
  of which are used; frames 0 and 7, which the boot code writes to, are not page tables.
\<close>

definition window :: "nat \<Rightarrow> u32" where
  "window j = MMIOBASE + of_nat j * PGSIZE"

definition lapic_space :: "kst \<Rightarrow> nat \<Rightarrow> bool" where
  "lapic_space s j \<longleftrightarrow> (let d = kern_pgdir s in (\<exists>fl. kdir s fl d) \<and> pmem s d 958 \<noteq> 0 \<and> d \<noteq> 0 \<and> d \<noteq> 7
     \<and> (\<forall>i < 1024. pmem s d i \<noteq> 0 \<longrightarrow> PGNUM (pmem s d i) \<noteq> 0 \<and> PGNUM (pmem s d i) \<noteq> 7)
     \<and> mmio_base s = window j \<and> (\<forall>k. j \<le> k \<longrightarrow> k < 1024 \<longrightarrow> upte s d (window k) = 0) \<and> 7 < npages s)"

lemma window:
  assumes "k < 1024"
  shows "unat (window k) = 0xEF800000 + k * 4096" "PDX (window k) = 958" "PGNUM (window k) = 0xEF800 + k"
proof -
  have "unat (of_nat k * PGSIZE :: u32) = k * 4096" using unat_page [of k] assms by simp
  then show u: "unat (window k) = 0xEF800000 + k * 4096" using assms by (simp add: window_def unat_word_ariths)
  then show "PDX (window k) = 958" "PGNUM (window k) = 0xEF800 + k" using assms by (simp_all add: PDX_div PGNUM_div)
qed

text \<open>Only frames 0 and 7 and fields that have nothing to do with memory differ.\<close>

definition same_memory :: "kst \<Rightarrow> kst \<Rightarrow> bool" where
  "same_memory s s' \<longleftrightarrow> kern_pgdir s' = kern_pgdir s \<and> npages s' = npages s \<and> pages s' = pages s
     \<and> page_free_list s' = page_free_list s \<and> mmio_base s' = mmio_base s \<and> (\<forall>f. f \<noteq> 0 \<longrightarrow> f \<noteq> 7 \<longrightarrow> pmem s' f = pmem s f)"

lemma lapic_space_cong:
  assumes "same_memory s s'" "lapic_space s j"
  shows "lapic_space s' j"
proof -
  let ?d = "kern_pgdir s"
  have m: "kern_pgdir s' = ?d" "npages s' = npages s" "mmio_base s' = mmio_base s" "free_pages s' fl = free_pages s fl" for fl
    using assms(1) by (auto simp: same_memory_def free_pages_def)
  have d: "pmem s' ?d = pmem s ?d" using assms by (auto simp: same_memory_def lapic_space_def Let_def)
  have "kdir s' fl ?d = kdir s fl ?d" for fl unfolding kdir_def d m by (rule refl)
  moreover have "upte s' ?d va = upte s ?d va" for va
    using assms d PDX_less [of va] by (auto simp: upte_def lapic_space_def same_memory_def Let_def)
  ultimately show ?thesis using assms(2) d m(1-3) by (simp add: lapic_space_def Let_def)
qed

text \<open>The table exists, so mmio\_map\_region allocates nothing: it stores one entry.\<close>

lemma lapic_space_step:
  assumes "lapic_space s j" "j + 1 < 1024"
  shows "\<exists>s'. mmio_map_region pa 4096 s = (Inr (window j), s') \<and> lapic_space s' (j + 1)
    \<and> s' = s\<lparr>pmem := pmem s', mmio_base := window (j + 1)\<rparr>"
proof -
  let ?d = "kern_pgdir s" and ?va = "window j" and ?p = "PTE_W OR PTE_P OR PTE_PCD OR PTE_PWT"
  obtain fl where k: "kdir s fl ?d" using assms(1) by (auto simp: lapic_space_def Let_def)
  have l: "pmem s ?d 958 \<noteq> 0" "mmio_base s = ?va" "upte s ?d ?va = 0" "?d \<noteq> 0" "?d \<noteq> 7" "7 < npages s"
    "\<forall>i < 1024. pmem s ?d i \<noteq> 0 \<longrightarrow> PGNUM (pmem s ?d i) \<noteq> 0 \<and> PGNUM (pmem s ?d i) \<noteq> 7"
    "\<And>k. j \<le> k \<Longrightarrow> k < 1024 \<Longrightarrow> upte s ?d (window k) = 0"
    using assms by (auto simp: lapic_space_def Let_def)
  note W = window [of j]
  have pdx: "PDX ?va = 958" using W(2) assms(2) by simp
  let ?w = "ROUNDDOWN pa PGSIZE OR ?p OR PTE_P"
  let ?s = "s\<lparr>pmem := (pmem s)(PGNUM (pmem s ?d (PDX ?va)) := (pmem s (PGNUM (pmem s ?d (PDX ?va))))(PTX ?va := ?w))\<rparr>"
  have "page_remove (Some ?d) ?va s = (Inr (), s)"
    using page_remove_exec [OF kdir_free [OF k] kdir_wf [OF k], of ?va] l(3) by (simp add: wf_mapped_def remove_post_def)
  moreover have "pgdir_walk (Some ?d) ?va True s = (Inr (Some (PGNUM (pmem s ?d (PDX ?va)), PTX ?va)), s)"
    using walk_present [OF kdir_wf [OF k]] l(1) pdx by simp
  ultimately have one: "boot_map_page (Some ?d) ?va (ROUNDDOWN pa PGSIZE) ?p s = (Inr (), ?s)"
    by (simp add: boot_map_page_def bnd_def thn_def)
  have ru: "ROUNDUP 4096 PGSIZE = 4096" "[0..<unat ((4096 :: u32) div PGSIZE)] = [0]" by (simp_all add: ROUNDUP_def ROUNDDOWN_def unat_div)
  have nx: "?va + 4096 = window (j + 1)" "window (Suc j) - 4096 = ?va" by (simp_all add: window_def algebra_simps)
  have lim: "\<not> window (j + 1) \<ge> MMIOLIM" using window(1) [of "j + 1"] assms(2) by (simp add: word_le_nat_alt)
  let ?t = "?s\<lparr>mmio_base := window (j + 1)\<rparr>"
  have z: "x + of_nat (0 :: nat) * PGSIZE = x" for x :: u32 by simp
  have "boot_map_region (Some ?d) ?va 4096 (ROUNDDOWN pa PGSIZE) ?p s = (Inr (), ?s)"
    unfolding boot_map_region_def ru(2) Let_def for_each.simps thn_def bnd_def z one by simp
  then have run: "mmio_map_region pa 4096 s = (Inr ?va, ?t)"
    using lim l(2) by (simp only: mmio_map_region_def bnd_gets prod.case Let_def ru(1) nx if_False thn_def bnd_def modify_exec sum.case ret_exec)
      (simp add: nx)
  note K = kdir_store [OF k, of ?va, OF _ _ refl, where w = ?w]
  have k': "kdir ?s fl ?d" "pmem ?s ?d = pmem s ?d" using K(1,2) l(1) pdx by simp_all
  have u: "upte ?s ?d (window i) = 0" if "j + 1 \<le> i" "i < 1024" for i
    using K(4) [of "window i"] l(1,8) pdx that window(2,3) [of i] W(3) by simp
  have "kdir ?t fl ?d" "upte ?t ?d va = upte ?s ?d va" for va
    using k'(1) by (simp_all add: kdir_def free_pages_def upte_def)
  then have "lapic_space ?t (j + 1)"
    using l k'(2) u unfolding lapic_space_def Let_def by auto
  then show ?thesis using run by (intro exI [of _ ?t]) simp
qed

section \<open>A processor starts\<close>

text \<open>The registers of the local APIC with number \<open>c\<close>; it delivers interrupts after some time.\<close>

definition apic_regs :: "nat \<Rightarrow> (io_event list \<Rightarrow> nat \<Rightarrow> u32) \<Rightarrow> bool" where
  "apic_regs c regs \<longleftrightarrow> (\<forall>log. regs log ID = push_bit 24 (of_nat c))
     \<and> (\<forall>log. \<exists>n. regs (replicate n (RegRead ICRLO) @ log) ICRLO AND DELIVS = 0)"

lemma apic_id:
  assumes "c < 256"
  shows "unat (drop_bit 24 (push_bit 24 (of_nat c) :: u32)) = c"
proof -
  have "drop_bit 24 (push_bit 24 (of_nat c) :: u32) = of_nat c"
  proof (rule bit_word_eqI)
    fix n assume "n < LENGTH(32)"
    have "n < 8" if "bit c n"
    proof (rule ccontr)
      assume "\<not> n < 8"
      then have "c < 2 ^ n" using assms power_increasing [of 8 n "2 :: nat"] by simp
      then show False using that by (simp add: bit_iff_odd)
    qed
    then show "bit (drop_bit 24 (push_bit 24 (of_nat c) :: u32)) n = bit (of_nat c :: u32) n"
      using \<open>n < LENGTH(32)\<close> by (auto simp: bit_simps bit_of_nat_iff)
  qed
  then show ?thesis using assms by (simp add: unat_of_nat)
qed

text \<open>What the start of processor \<open>c\<close> leaves behind: it is up, runs on its own stack of the array, has its own
  task state, whose kernel stack is the one mapped for it below KSTACKTOP, and its own descriptor.\<close>

definition own_stack :: "linked \<Rightarrow> nat \<Rightarrow> u32" where
  "own_stack img c = kstacks_kva img + of_nat c * KSTKSIZE + KSTKSIZE"

definition cpu_ready :: "linked \<Rightarrow> nat \<Rightarrow> machine \<Rightarrow> bool" where
  "cpu_ready img c M \<longleftrightarrow> cpu_status (cpus (kernel M) c) = CPU_STARTED \<and> boot_stack M c = own_stack img c \<and> cpu_ts M c = percpu_tss (of_nat c)
     \<and> task_register M c = GD_TSS0 + push_bit 3 (of_nat c)
     \<and> gdt M (5 + c) = (SEG16 STS_T32A (cpu_ts_kva img c) (TSS_SIZE - 1) 0)\<lparr>sd_s := False\<rparr>
     \<and> sr_cs (segment_registers M c) = GD_KT \<and> sr_ds (segment_registers M c) = GD_KD"

text \<open>The parts of the machine that the start of another processor leaves alone.\<close>

definition keeps_cpus :: "nat set \<Rightarrow> machine \<Rightarrow> machine \<Rightarrow> bool" where
  "keeps_cpus C M M' \<longleftrightarrow> ncpu M' = ncpu M \<and> cpu_id M' = cpu_id M \<and> lapicaddr M' = lapicaddr M \<and> lapic M' \<noteq> 0
     \<and> (\<forall>c. c \<notin> C \<longrightarrow> cpus (kernel M') c = cpus (kernel M) c \<and> cpu_ts M' c = cpu_ts M c \<and> gdt M' (5 + c) = gdt M (5 + c)
          \<and> boot_stack M' c = boot_stack M c \<and> task_register M' c = task_register M c \<and> segment_registers M' c = segment_registers M c)"

lemma keeps_ready: "keeps_cpus C M M' \<Longrightarrow> c \<notin> C \<Longrightarrow> cpu_ready img c M \<Longrightarrow> cpu_ready img c M'"
  by (simp add: keeps_cpus_def cpu_ready_def)

lemma lapic_cpunum_exec:
  "lapic M \<noteq> 0 \<Longrightarrow> apic_regs c (reg_value M) \<Longrightarrow> c < 256 \<Longrightarrow> lapic_cpunum M = (Inr c, log_io (RegRead ID) M)"
  using bnd_cpunum [of ret M] apic_id [of c] by (simp add: apic_regs_def bnd_def lapic_cpunum_def)

lemma mp_setup_exec:
  assumes l: "lapic M \<noteq> 0" "lapicaddr M \<noteq> 0" and c: "apic_regs c (reg_value M)" "c < 256" "cpu_id M c = of_nat c" "cpunum (kernel M) = c" "boot_stack M c = own_stack img c"
    and sp: "lapic_space (kernel M) j" "j + 1 < 1024"
  shows "\<exists>M'. mp_setup img M = (Inr (), M') \<and> lapic_space (kernel M') (j + 1) \<and> cpu_ready img c M' \<and> keeps_cpus {c} M M'"
proof -
  let ?M1 = "M\<lparr>kernel := (kernel M)\<lparr>trace := Lcr3 (kern_pgdir (kernel M)) # trace (kernel M)\<rparr>\<rparr>"
  have 1: "kern (bnd (gets kern_pgdir) lcr3) M = (Inr (), ?M1)" by (simp add: kern_def lcr3_def emit_def)
  let ?M2 = "(log_io (RegRead ID) ?M1)\<lparr>kernel := (kernel ?M1)\<lparr>trace := Cprintf ''SMP: CPU %d starting\<newline>'' [of_nat c] # trace (kernel ?M1)\<rparr>\<rparr>"
  have "lapic_cpunum ?M1 = (Inr c, log_io (RegRead ID) ?M1)" by (rule lapic_cpunum_exec) (use l c in simp_all)
  then have 2: "bnd lapic_cpunum (\<lambda>n. kern (cprintf ''SMP: CPU %d starting\<newline>'' [of_nat n])) ?M1 = (Inr (), ?M2)"
    by (simp add: bnd_def kern_def cprintf_def emit_def)
  have "lapic_space (kernel ?M2) j" by (rule lapic_space_cong [OF _ sp(1)]) (simp add: same_memory_def)
  from lapic_space_step [OF this sp(2), of "lapicaddr ?M2"] obtain s where s: "mmio_map_region (lapicaddr ?M2) 4096 (kernel ?M2) = (Inr (window j), s)"
    "lapic_space s (j + 1)" "s = (kernel ?M2)\<lparr>pmem := pmem s, mmio_base := window (j + 1)\<rparr>"
    by blast
  have w: "window j \<noteq> 0" using window(1) [of j] sp(2) by (auto simp: unat_eq_0 [symmetric])
  have "lapicaddr ?M2 \<noteq> 0" "\<forall>log. reg_value ?M2 log ID = push_bit 24 (of_nat c)"
    "\<forall>log. \<exists>n. reg_value ?M2 (replicate n (RegRead ICRLO) @ log) ICRLO AND DELIVS = 0"
    using l c(1) unfolding apic_regs_def by simp_all
  from lapic_init_exec [OF this(1) s(1) w this(2,3)] obtain log where
    "lapic_init ?M2 = Some (Inr (), ?M2\<lparr>kernel := s, lapic := window j, io_log := log\<rparr>)" by blast
  then have 3: "lapic_init_wait ?M2 = (Inr (), ?M2\<lparr>kernel := s, lapic := window j, io_log := log\<rparr>)" by (simp add: lapic_init_wait_def)
  let ?M3 = "?M2\<lparr>kernel := s, lapic := window j, io_log := log\<rparr>"
  have sc: "cpunum s = c" "cpus s = cpus (kernel M)" using arg_cong [OF s(3), of cpunum] arg_cong [OF s(3), of cpus] c(4) by simp_all
  let ?M4 = "?M3\<lparr>segment_registers := (segment_registers M)(c :=
     \<lparr>sr_cs = GD_KT, sr_ds = GD_KD, sr_es = GD_KD, sr_fs = GD_UD OR 3, sr_gs = GD_UD OR 3, sr_ss = GD_KD, sr_ldt = 0\<rparr>)\<rparr>"
  have 4: "env_init_percpu ?M3 = (Inr (), ?M4)" using sc by (simp add: env_init_percpu_def log_io_def)
  let ?M5 = "(log_io (RegRead ID) ?M4)\<lparr>cpu_ts := (cpu_ts M)(c := percpu_tss (of_nat c)),
     gdt := fst (trap_init_percpu (of_nat c) (cpu_ts_kva img c) (gdt M)),
     task_register := (task_register M)(c := GD_TSS0 + push_bit 3 (ucast (of_nat c :: u8)))\<rparr>"
  have "lapic_cpunum ?M4 = (Inr c, log_io (RegRead ID) ?M4)" by (rule lapic_cpunum_exec) (use w c in simp_all)
  then have 5: "trap_init_cpu img ?M4 = (Inr (), ?M5)"
    using sc c(3) by (simp add: trap_init_cpu_def bnd_def [of lapic_cpunum] trap_init_percpu_def) (simp add: log_io_def)
  have "lapic_cpunum ?M5 = (Inr c, log_io (RegRead ID) ?M5)" by (rule lapic_cpunum_exec) (use w c in simp_all)
  then have 6: "bnd lapic_cpunum (\<lambda>n. kern (modify (\<lambda>s. s\<lparr>cpus := (cpus s)(n := (cpus s n)\<lparr>cpu_status := CPU_STARTED\<rparr>)\<rparr>))) ?M5
      = (Inr (), (log_io (RegRead ID) ?M5)\<lparr>kernel := s\<lparr>cpus := (cpus s)(c := (cpus s c)\<lparr>cpu_status := CPU_STARTED\<rparr>)\<rparr>\<rparr>)"
    by (simp add: bnd_def kern_def)
  let ?M6 = "(log_io (RegRead ID) ?M5)\<lparr>kernel := s\<lparr>cpus := (cpus s)(c := (cpus s c)\<lparr>cpu_status := CPU_STARTED\<rparr>)\<rparr>\<rparr>"
  have run: "mp_setup img M = (Inr (), ?M6)"
    unfolding mp_setup_def by (simp only: thn_def bnd_def [of "kern _"] 1 bnd_def [of "bnd _ _"] 2 bnd_def [of lapic_init_wait] 3
      bnd_def [of env_init_percpu] 4 bnd_def [of "trap_init_cpu _"] 5 6 prod.case sum.case)
  have "lapic_space (kernel ?M6) (j + 1)" by (rule lapic_space_cong [OF _ s(2)]) (simp add: same_memory_def)
  moreover have u: "unat (of_nat c :: u8) = c" "drop_bit 3 GD_TSS0 = 5" using c(2) by (simp_all add: unat_of_nat)
  then have "ucast (of_nat c :: u8) = (of_nat c :: u16)"
    using c(2) by (simp add: word_unat_eq_iff unsigned_ucast_eq take_bit_nat_eq_self unat_of_nat)
  then have "cpu_ready img c ?M6" "keeps_cpus {c} M ?M6"
    using w sc(2) u c(5) by (simp_all add: cpu_ready_def keeps_cpus_def trap_init_percpu_def) (simp_all add: log_io_def)
  ultimately show ?thesis using run by blast
qed

section \<open>Starting the other processors\<close>

lemma store_byte_memory: "PGNUM pa = 0 \<or> PGNUM pa = 7 \<Longrightarrow> same_memory s (store_byte pa v s)"
  by (auto simp: same_memory_def store_byte_def Let_def)

lemma same_memory_trans: "same_memory s t \<Longrightarrow> same_memory t u \<Longrightarrow> same_memory s u"
  by (simp add: same_memory_def)

lemma same_memory_refl: "same_memory s s"
  by (simp add: same_memory_def)

lemma warm_reset_memory: "same_memory s (warm_reset pa s)"
  unfolding warm_reset_def comp_def
  by (intro same_memory_trans [OF same_memory_trans [OF same_memory_trans [OF store_byte_memory store_byte_memory] store_byte_memory]
    store_byte_memory]) (simp_all add: PGNUM_div)

lemma store_byte_fields: "cpus (store_byte pa v s) = cpus s" "npages (store_byte pa v s) = npages s" "cpunum (store_byte pa v s) = cpunum s"
  by (simp_all add: store_byte_def Let_def)

lemma warm_reset_fields: "cpus (warm_reset pa s) = cpus s" "cpunum (warm_reset pa s) = cpunum s"
  by (simp_all add: warm_reset_def store_byte_fields)

lemma store_bytes_fields: "cpus (store_bytes pa bs s) = cpus s" "cpunum (store_bytes pa bs s) = cpunum s"
  by (induction bs arbitrary: pa s) (simp_all add: store_byte_fields)

lemma store_bytes_memory:
  assumes "0x7000 \<le> unat pa" "unat pa + length bs \<le> 0x8000"
  shows "same_memory s (store_bytes pa bs s)"
  using assms
proof (induction bs arbitrary: pa s)
  case (Cons b bs)
  have "PGNUM pa = 7" using Cons.prems by (simp add: PGNUM_div)
  moreover have "unat (pa + 1) = unat pa + 1" using Cons.prems by (simp add: unat_word_ariths)
  ultimately show ?case
    using same_memory_trans [OF store_byte_memory Cons.IH [of "pa + 1"], of pa s b] Cons.prems by simp
qed (simp add: same_memory_refl)

lemma boot_ap_exec:
  assumes me: "lapic M \<noteq> 0" "lapicaddr M \<noteq> 0" "apic_regs me (reg_value M)" "me < 256"
    and c: "c < 256" "cpu_id M c = of_nat c" "c \<noteq> me \<longrightarrow> (\<exists>regs. ps (of_nat c) = Some regs \<and> apic_regs c regs)"
    and sp: "lapic_space (kernel M) j" "j + 1 < 1024"
  shows "\<exists>M' j'. boot_ap ps img c M = (Inr (), M') \<and> lapic_space (kernel M') j' \<and> j' \<le> j + 1
    \<and> (c \<noteq> me \<longrightarrow> cpu_ready img c M') \<and> keeps_cpus {c} M M' \<and> reg_value M' = reg_value M"
proof -
  let ?M1 = "log_io (RegRead ID) M"
  have 1: "lapic_cpunum M = (Inr me, ?M1)" by (rule lapic_cpunum_exec [OF me(1,3,4)])
  show ?thesis
  proof (cases "c = me")
    case True
    then have "boot_ap ps img c M = (Inr (), ?M1)" using 1 by (simp add: boot_ap_def bnd_def)
    then show ?thesis using True sp me by (intro exI [of _ ?M1] exI [of _ j]) (simp add: keeps_cpus_def log_io_def)
  next
    case False
    then obtain regs where regs: "ps (of_nat c) = Some regs" "apic_regs c regs" using c(3) by blast
    have u: "unat (of_nat c :: u8) = c" using c(1) by (simp add: unat_of_nat)
    let ?k = "kstacks_kva img + of_nat c * KSTKSIZE + KSTKSIZE"
    let ?M2 = "?M1\<lparr>mpentry_kstack := ?k\<rparr>"
    have "0 < npages (kernel ?M2)" using sp(1) by (simp add: lapic_space_def Let_def)
    from lapic_startap_exec [OF this] obtain M3 where 3: "lapic_startap (of_nat c) MPENTRY_PADDR ?M2 = (Inr (), M3)"
      "M3 = ?M2\<lparr>kernel := warm_reset MPENTRY_PADDR (kernel ?M2), io_log := io_log M3\<rparr>" by blast
    have M3: "lapic M3 = lapic M" "lapicaddr M3 = lapicaddr M" "cpu_id M3 = cpu_id M" "ncpu M3 = ncpu M" "reg_value M3 = reg_value M"
      "cpu_ts M3 = cpu_ts M" "gdt M3 = gdt M" "task_register M3 = task_register M" "segment_registers M3 = segment_registers M"
      "boot_stack M3 = boot_stack M" "mpentry_kstack M3 = ?k" "kernel M3 = warm_reset MPENTRY_PADDR (kernel M)"
      using arg_cong [OF 3(2), of lapic] arg_cong [OF 3(2), of lapicaddr] arg_cong [OF 3(2), of cpu_id] arg_cong [OF 3(2), of ncpu]
        arg_cong [OF 3(2), of reg_value] arg_cong [OF 3(2), of cpu_ts] arg_cong [OF 3(2), of gdt] arg_cong [OF 3(2), of task_register]
        arg_cong [OF 3(2), of segment_registers] arg_cong [OF 3(2), of boot_stack] arg_cong [OF 3(2), of mpentry_kstack] arg_cong [OF 3(2), of kernel]
      by (simp_all add: log_io_def)
    let ?A = "M3\<lparr>reg_value := regs, boot_stack := (boot_stack M3)(c := ?k), kernel := (kernel M3)\<lparr>cpunum := c\<rparr>\<rparr>"
    have "lapic_space (kernel M3) j" unfolding M3 by (rule lapic_space_cong [OF warm_reset_memory sp(1)])
    then have spA: "lapic_space (kernel ?A) j" by (rule lapic_space_cong [rotated]) (simp add: same_memory_def)
    have "\<exists>M'. mp_setup img ?A = (Inr (), M') \<and> lapic_space (kernel M') (j + 1) \<and> cpu_ready img c M' \<and> keeps_cpus {c} ?A M'"
      by (rule mp_setup_exec [OF _ _ _ c(1) _ _ _ spA sp(2)]) (use M3 me c regs in \<open>simp_all add: own_stack_def\<close>)
    then obtain A' where A: "mp_setup img ?A = (Inr (), A')" "lapic_space (kernel A') (j + 1)" "cpu_ready img c A'" "keeps_cpus {c} ?A A'" by blast
    let ?M4 = "A'\<lparr>reg_value := reg_value M, kernel := (kernel A')\<lparr>cpunum := cpunum (kernel M3)\<rparr>\<rparr>"
    have 4: "ap_runs ps img (of_nat c) M3 = (Inr (), ?M4)"
      using A(1) regs(1) M3 u by (simp add: ap_runs_def)
    have st: "cpu_ready img c ?M4" "keeps_cpus {c} M ?M4" "lapic_space (kernel ?M4) (j + 1)"
      using A(3,4) M3 lapic_space_cong [OF _ A(2), of "kernel ?M4"]
      by (simp_all add: cpu_ready_def keeps_cpus_def warm_reset_fields same_memory_def)
    have "wait_started c ?M4 = (Inr (), ?M4)" using st(1) by (simp add: wait_started_def cpu_ready_def)
    then have "boot_ap ps img c M = (Inr (), ?M4)"
      using False 3(1) 4 c(2) unfolding boot_ap_def bnd_def [of lapic_cpunum] 1
      by (simp add: bnd_def [of "gets _"] thn_def [of "lapic_startap _ _"] bnd_def [of "lapic_startap _ _"] thn_def [of "ap_runs _ _ _"]
        bnd_def [of "ap_runs _ _ _"])
    then show ?thesis using st False by (intro exI [of _ ?M4] exI [of _ "j + 1"]) simp
  qed
qed

text \<open>
  One processor after the other. \<open>processors_ok ps me n M\<close>: the first processor, whose APIC ID is its number
  \<open>me\<close>, has mapped its local APIC; each of the first \<open>n\<close> processors of the table has its number as APIC ID,
  and the others among them exist and have a local APIC that reports that ID and delivers interrupts.
\<close>

definition processors_ok :: "processors \<Rightarrow> nat \<Rightarrow> nat \<Rightarrow> machine \<Rightarrow> bool" where
  "processors_ok ps me n M \<longleftrightarrow> lapic M \<noteq> 0 \<and> lapicaddr M \<noteq> 0 \<and> apic_regs me (reg_value M) \<and> me < ncpu M \<and> ncpu M \<le> NCPU
     \<and> n \<le> ncpu M \<and> (\<forall>c < n. cpu_id M c = of_nat c \<and> (c \<noteq> me \<longrightarrow> (\<exists>regs. ps (of_nat c) = Some regs \<and> apic_regs c regs)))"

lemma keeps_cpus_trans: "keeps_cpus C M M' \<Longrightarrow> keeps_cpus D M' M'' \<Longrightarrow> keeps_cpus (C \<union> D) M M''"
  by (simp add: keeps_cpus_def)

lemma boot_loop_exec:
  assumes "processors_ok ps me n M" "set cs \<subseteq> {..<n}" "distinct cs" "lapic_space (kernel M) j" "j + length cs < 1024"
  shows "\<exists>M'. for_each cs (boot_ap ps img) M = (Inr (), M') \<and> keeps_cpus (set cs) M M' \<and> reg_value M' = reg_value M
    \<and> (\<exists>j'. lapic_space (kernel M') j') \<and> (\<forall>c \<in> set cs. c \<noteq> me \<longrightarrow> cpu_ready img c M')"
  using assms
proof (induction cs arbitrary: M j)
  case Nil
  then show ?case by (auto simp: keeps_cpus_def processors_ok_def)
next
  case (Cons c cs)
  have ok: "lapic M \<noteq> 0" "lapicaddr M \<noteq> 0" "apic_regs me (reg_value M)" "me < 256" "c < 256" "cpu_id M c = of_nat c"
    "c \<noteq> me \<longrightarrow> (\<exists>regs. ps (of_nat c) = Some regs \<and> apic_regs c regs)" "j + 1 < 1024"
    using Cons.prems(1,2,5) by (auto simp: processors_ok_def)
  obtain M1 j1 where 1: "boot_ap ps img c M = (Inr (), M1)" "lapic_space (kernel M1) j1" "j1 \<le> j + 1"
    "c \<noteq> me \<longrightarrow> cpu_ready img c M1" "keeps_cpus {c} M M1" "reg_value M1 = reg_value M"
    using boot_ap_exec [where M = M and c = c and me = me and j = j and ps = ps, OF ok(1-7) Cons.prems(4) ok(8)] by blast
  have "processors_ok ps me n M1" "ncpu M1 = ncpu M" using Cons.prems(1) 1(5,6) by (simp_all add: processors_ok_def keeps_cpus_def)
  then obtain M' where 2: "for_each cs (boot_ap ps img) M1 = (Inr (), M')" "keeps_cpus (set cs) M1 M'"
    "reg_value M' = reg_value M1" "\<exists>j'. lapic_space (kernel M') j'"
    "\<forall>c \<in> set cs. c \<noteq> me \<longrightarrow> cpu_ready img c M'"
    using Cons.IH [of M1 j1] Cons.prems(2,3,5) 1(2,3) by auto
  have "for_each (c # cs) (boot_ap ps img) M = (Inr (), M')" using 1(1) 2(1) by (simp add: thn_def bnd_def)
  moreover have "keeps_cpus (set (c # cs)) M M'" using keeps_cpus_trans [OF 1(5) 2(2)] by simp
  ultimately show ?case using 2(3-5) keeps_ready [OF 2(2)] 1(4,6) Cons.prems(3) by auto
qed

text \<open>boot\_aps up to its loop: the entry code is in frame 7.\<close>

lemma boot_aps_loop:
  assumes sp: "lapic_space (kernel M) j" and code: "length (mpentry_code img) \<le> 4096"
  obtains M1 where "boot_aps ps img M = for_each [0..<ncpu M] (boot_ap ps img) M1" "lapic_space (kernel M1) j"
    "M1 = M\<lparr>kernel := store_bytes MPENTRY_PADDR (mpentry_code img) (kernel M)\<rparr>"
proof -
  let ?M1 = "M\<lparr>kernel := store_bytes MPENTRY_PADDR (mpentry_code img) (kernel M)\<rparr>"
  have n: "7 < npages (kernel M)" using sp(1) by (simp add: lapic_space_def Let_def)
  then have "KADDR MPENTRY_PADDR (kernel M) = (Inr 7, kernel M)" using KADDR_exec [of "0x7000" "kernel M"] by (simp add: PGNUM_div)
  then have 1: "kern (bnd (KADDR MPENTRY_PADDR) (\<lambda>_. modify (store_bytes MPENTRY_PADDR (mpentry_code img)))) M = (Inr (), ?M1)"
    by (simp add: kern_def bnd_def)
  have "same_memory (kernel M) (kernel ?M1)" using store_bytes_memory [of MPENTRY_PADDR] code by simp
  from lapic_space_cong [OF this sp(1)] have "lapic_space (kernel ?M1) j" .
  moreover have "boot_aps ps img M = for_each [0..<ncpu M] (boot_ap ps img) ?M1"
    unfolding boot_aps_def thn_def bnd_def [of "kern _"] 1 by simp
  ultimately show ?thesis using that by blast
qed

text \<open>C25: on a machine on which every processor of the table exists, has its number in the table as its APIC
  ID and delivers interrupts, boot\_aps returns, and then each of the other processors has started: it is
  marked as started, it runs on its own stack of percpu\_kstacks (the one boot\_aps put in mpentry\_kstack for
  it), its task state points to its own kernel stack, and its task register and segment registers are set.
  (C26 shows what happens when a number is not an APIC ID.)\<close>

theorem boot_aps_starts_all:
  assumes ps: "processors_ok ps me (ncpu M) M" and sp: "lapic_space (kernel M) j" "j + ncpu M < 1024"
    and code: "length (mpentry_code img) \<le> 4096"
  shows "\<exists>M'. boot_aps ps img M = (Inr (), M') \<and> (\<forall>c < ncpu M. c \<noteq> me \<longrightarrow> cpu_ready img c M')"
proof -
  obtain M1 where 1: "boot_aps ps img M = for_each [0..<ncpu M] (boot_ap ps img) M1" "lapic_space (kernel M1) j"
    "M1 = M\<lparr>kernel := store_bytes MPENTRY_PADDR (mpentry_code img) (kernel M)\<rparr>"
    using boot_aps_loop [OF sp(1) code] .
  have ok: "processors_ok ps me (ncpu M) M1" using ps by (simp add: 1(3) processors_ok_def)
  obtain M' where "for_each [0..<ncpu M] (boot_ap ps img) M1 = (Inr (), M')" "\<forall>c \<in> set [0..<ncpu M]. c \<noteq> me \<longrightarrow> cpu_ready img c M'"
    using boot_loop_exec [where M = M1 and cs = "[0..<ncpu M]" and img = img, OF ok _ _ 1(2)] sp(2)
    by (auto simp: atLeast0LessThan)
  then show ?thesis using 1(1) by auto
qed

text \<open>Two processors, a directory in frame 1 with a table for device memory in frame 2.\<close>

definition two_cpus :: machine where
  "two_cpus = zero_machine\<lparr>kernel := zero_kst\<lparr>npages := 16, kern_pgdir := 1, pmem := (\<lambda>_ _. 0)(1 := (\<lambda>_. 0)(958 := 0x2003))\<rparr>,
     lapic := 0xEF7FF000, lapicaddr := 0xFEE00000, ncpu := 2, cpu_id := of_nat\<rparr>"

definition second_cpu :: processors where
  "second_cpu = (\<lambda>id. if id = 1 then Some (\<lambda>_ i. if i = ID then 0x1000000 else 0) else None)"

definition no_image :: linked where
  "no_image = \<lparr>end_kva = 0, kstacks_kva = 0xF0100000, cpu_ts_kva = (\<lambda>_. 0), handlers = (\<lambda>_. 0), mpentry_code = [0xFA],
     user_hello = (\<lambda>_. 0)\<rparr>"

lemma two_cpus_ready: "processors_ok second_cpu 0 2 two_cpus" "lapic_space (kernel two_cpus) 0" "ncpu two_cpus = 2"
proof -
  have "apic_regs 0 (reg_value two_cpus)" "apic_regs 1 (\<lambda>_ i. if i = ID then 0x1000000 else 0)"
    by (simp_all add: apic_regs_def two_cpus_def zero_machine_def push_bit_eq_mult)
  then show "processors_ok second_cpu 0 2 two_cpus"
    by (auto simp: processors_ok_def two_cpus_def zero_machine_def second_cpu_def less_2_cases_iff)
  have p: "PGNUM 0x2003 = 2" by (simp add: PGNUM_div)
  show "lapic_space (kernel two_cpus) 0"
    using p window(2) by (simp add: lapic_space_def two_cpus_def zero_machine_def zero_kst_def kdir_def free_pages_def list_rep_def
      window_def upte_def Let_def)
  show "ncpu two_cpus = 2" by (simp add: two_cpus_def)
qed

theorem boot_aps_starts_all_witness:
  "\<exists>M'. boot_aps second_cpu no_image two_cpus = (Inr (), M') \<and> cpu_status (cpus (kernel M') 1) = CPU_STARTED
     \<and> ts_esp0 (cpu_ts M' 1) = 0xEFFF0000 \<and> boot_stack M' 1 = 0xF0110000"
proof -
  have "length (mpentry_code no_image) \<le> 4096" by (simp add: no_image_def)
  from boot_aps_starts_all [OF two_cpus_ready(1) [folded two_cpus_ready(3)] two_cpus_ready(2) _ this] two_cpus_ready(3) obtain M' where
    "boot_aps second_cpu no_image two_cpus = (Inr (), M')" "cpu_ready no_image 1 M'" by auto
  then show ?thesis by (auto simp: cpu_ready_def percpu_tss_def own_stack_def no_image_def)
qed

text \<open>C26: boot\_aps uses the number of a processor in the table as its APIC ID (mp\_init numbers them in the order
  of the table and ignores the IDs there, C24). When the processors before number \<open>k\<close> start as in C25, but no
  processor of the machine has the APIC ID \<open>k\<close>, nothing answers the startup interrupts for number \<open>k\<close>, and the
  kernel waits for it for ever. This holds for every size of the table and every place of the first
  processor in it.\<close>

theorem boot_aps_hangs:
  assumes before: "processors_ok ps me k M" and sp: "lapic_space (kernel M) j" "j + k < 1024"
    and code: "length (mpentry_code img) \<le> 4096"
    and k: "k < ncpu M" "k \<noteq> me" "cpu_id M k = of_nat k" "ps (of_nat k) = None" "cpu_status (cpus (kernel M) k) \<noteq> CPU_STARTED"
  shows "\<exists>M'. boot_aps ps img M = (Inl Spin, M')"
proof -
  obtain M1 where 1: "boot_aps ps img M = for_each [0..<ncpu M] (boot_ap ps img) M1" "lapic_space (kernel M1) j"
    "M1 = M\<lparr>kernel := store_bytes MPENTRY_PADDR (mpentry_code img) (kernel M)\<rparr>"
    using boot_aps_loop [OF sp(1) code] .
  have ok: "processors_ok ps me k M1" using before by (simp add: 1(3) processors_ok_def)
  obtain M2 j' where 2: "for_each [0..<k] (boot_ap ps img) M1 = (Inr (), M2)" "keeps_cpus {0..<k} M1 M2"
    "reg_value M2 = reg_value M1" "lapic_space (kernel M2) j'"
    using boot_loop_exec [where M = M1 and cs = "[0..<k]" and img = img, OF ok _ _ 1(2)] sp(2)
    by (auto simp: atLeast0LessThan)
  have me: "lapic M2 \<noteq> 0" "apic_regs me (reg_value M2)" "me < 256" "cpu_id M2 k = of_nat k"
    "cpu_status (cpus (kernel M2) k) \<noteq> CPU_STARTED"
    using 2(2,3) before k by (auto simp: keeps_cpus_def 1(3) processors_ok_def store_bytes_fields)
  let ?M3 = "(log_io (RegRead ID) M2)\<lparr>mpentry_kstack := own_stack img k\<rparr>"
  have id: "lapic_cpunum M2 = (Inr me, log_io (RegRead ID) M2)" by (rule lapic_cpunum_exec [OF me(1-3)])
  have "0 < npages (kernel ?M3)" using 2(4) by (simp add: lapic_space_def Let_def log_io_def)
  from lapic_startap_exec [OF this] obtain M4 where 4: "lapic_startap (of_nat k) MPENTRY_PADDR ?M3 = (Inr (), M4)"
    "M4 = ?M3\<lparr>kernel := warm_reset MPENTRY_PADDR (kernel ?M3), io_log := io_log M4\<rparr>" by blast
  have "cpus (kernel M4) = cpus (kernel M2)"
    using arg_cong [OF 4(2), of "\<lambda>m. cpus (kernel m)"] by (simp add: warm_reset_fields log_io_def)
  then have w: "wait_started k M4 = (Inl Spin, M4)" using me(5) by (simp add: wait_started_def)
  have "boot_ap ps img k M2 = (Inl Spin, M4)"
    using id 4(1) w k(2,4) me(4) unfolding boot_ap_def bnd_def [of lapic_cpunum] own_stack_def
    by (simp add: bnd_def [of "gets _"] thn_def [of "lapic_startap _ _"] bnd_def [of "lapic_startap _ _"] thn_def [of "ap_runs _ _ _"]
      bnd_def [of "ap_runs _ _ _"] ap_runs_def log_io_def)
  moreover have "[0..<ncpu M] = [0..<k] @ k # [Suc k..<ncpu M]" using k(1) by (metis le_add1 less_imp_le_nat upt_add_eq_append upt_conv_Cons le_add_diff_inverse add_0)
  ultimately have "boot_aps ps img M = (Inl Spin, M4)"
    using 1(1) 2(1) by (simp add: for_each_append thn_def bnd_def)
  then show ?thesis by blast
qed

theorem boot_aps_hangs_witness:
  "\<exists>M'. boot_aps (\<lambda>id. if id = 2 then second_cpu 1 else None) no_image two_cpus = (Inl Spin, M')"
proof (rule boot_aps_hangs [where k = 1 and me = 0 and j = 0])
  show "processors_ok (\<lambda>id. if id = 2 then second_cpu 1 else None) 0 1 two_cpus"
    using two_cpus_ready(1) by (simp add: processors_ok_def)
qed (use two_cpus_ready(2) in \<open>simp_all add: two_cpus_def zero_machine_def zero_kst_def no_image_def\<close>)

end
