(* ===== verification/Spec2Isabelle.thy ===== *)
theory Spec2Isabelle
  imports Security Monitor Kdebug UserStart AgingTest Primes Init
begin

text \<open>
  The kernel of src/sched (JOS with a priority scheduler, sleep, and threads) and the library code it
  shares with its user programs. This theory imports all the others; each of them opens with what it holds.

  The program and its theories:

  \<^item> \<open>Prelude\<close>: the kernel monad \<open>'a K\<close> (a step on the state that returns or leaves the kernel), its
    laws, the rules for invariants of programs (\<open>keeps\<close>, \<open>noreturn\<close>, \<open>returns\<close>, with the collections
    \<open>exec\<close> and \<open>hoare_rules\<close>), and lemmas on lists and words.
  \<^item> \<open>Machine\<close> (inc/mmu.h, inc/memlayout.h, inc/types.h, inc/error.h, inc/syscall.h): constants, the
    memory layout, rounding and the parts of an address.
  \<^item> \<open>Console\<close> (kern/console.c, lib/readline.c): the input ring buffer, the decoding of keys, the
    screen memory, and readline. The devices are streams of bytes.
  \<^item> \<open>Kstate\<close> (inc/env.h, inc/trap.h, kern/cpu.h and the globals of kern/): the one state record \<open>kst\<close>,
    and the exits from the kernel (\<open>UserMode\<close>: the registers of an environment are restored; \<open>Idle\<close>:
    the CPU halts; \<open>Monitor\<close>, \<open>Spin\<close> and \<open>Panic\<close>).
  \<^item> \<open>Pages\<close> and \<open>PageTable\<close> (kern/pmap.c): the list of free frames, reference counts, the two-level
    page tables over word-addressed frames, mappings, and the check of user pointers.
  \<^item> \<open>Spinlock\<close> (kern/spinlock.c): the kernel lock, once as an operation of the state and once as a
    step relation over interleaved CPUs.
  \<^item> \<open>EnvTable\<close> and \<open>EnvFree\<close> (kern/env.c): ids, allocation, address spaces, loading of programs,
    env\_run; destruction of processes with their threads.
  \<^item> \<open>Sched\<close> (kern/sched.c): both policies, aging, sleepers, statistics, halting.
  \<^item> \<open>Syscall\<close> (kern/syscall.c): the system calls and their dispatch.
  \<^item> \<open>Trap\<close> and \<open>Security\<close> (kern/trap.c): descriptor tables, dispatch, reflection of page faults, the
    path of every trap from user mode, and the invariants all of them keep.
  \<^item> \<open>CString\<close> (lib/string.c), \<open>Printf\<close> (lib/printfmt.c, kern/printf.c, lib/printf.c), \<open>Monitor\<close>
    (kern/monitor.c) and \<open>Kdebug\<close> (kern/kdebug.c): strings over byte memory, formatted output, the
    command interpreter, and the search of debugging information.
  \<^item> \<open>UserMem\<close> and \<open>UserLib\<close> (lib/syscall.c, lib/fork.c, lib/pgfault.c, lib/ipc.c, lib/thread.c): memory as a
    user program reaches it through the page tables, and the user library as programs over the system
    calls: copy-on-write fork, messages, threads. \<open>UserStart\<close> (lib/libmain.c, lib/exit.c, lib/console.c): how
    a program starts and ends, and getchar.
  \<^item> \<open>AgingTest\<close> (user/agingtest.c): the contest of two workers that the test of the aging policy sets up, on
    the scheduler of \<open>Sched\<close>. \<open>Primes\<close> (user/primes.c): the concurrent prime sieve, a step relation over
    its processes and their messages.

  \<^item> \<open>Ports\<close> (kern/kclock.c, kern/picirq.c, the devices of kern/console.c) and \<open>Lapic\<close> (kern/lapic.c): the
    machine around the kernel state: a log of accesses to ports and registers, what a read returns
    being a function of that log; the drivers as programs over it, with models of the controllers
    that read the log.
  \<^item> \<open>MpConf\<close> (kern/mpconfig.c): the multiprocessor tables of the BIOS, from the bytes of memory.
  \<^item> \<open>Boot\<close>, \<open>KernMap\<close> and \<open>KernSpace\<close> (kern/pmap.c): the memory found at boot, boot\_alloc, and the
    kernel's address space, page by page. \<open>MemCheck\<close> and \<open>MemInit\<close>: the self tests, and mem\_init as a whole.
  \<^item> \<open>Init\<close> (kern/init.c): the start of the kernel and of the other processors, panics.

  How they interact: a trap (\<open>Trap.trap\<close>) takes the lock, copies the frame of the interrupted environment,
  dispatches to a system call, the page fault handler or the timer, and ends in \<open>env_run\<close> of some
  environment, directly or through \<open>sched_yield\<close>. System calls act on environments through \<open>envid2env\<close>
  and on memory through \<open>page_insert\<close>, \<open>page_lookup\<close> and \<open>page_remove\<close>. Operations on the kernel state
  run on the machine through \<open>kern\<close>.

  How state and operations correspond to the code:

  \<^item> A definition has the name of the C function; loops are folds or recursions over the indices the
    loop visits. A pointer to an element of an array of structures is its index, NULL is \<open>None\<close>; a
    pointer to a page table entry is a frame and an index. Integers keep their width.
  \<^item> An operation of type \<open>'a K\<close> yields \<open>Inr\<close> its result, or \<open>Inl\<close> an exit when the C function does not
    return: panics and switches to user mode are branches of the model. Error codes are the negative
    numbers of the code (\<open>err E_INVAL\<close>).
  \<^item> Printed text, TLB invalidations and loads of CR3 are events in \<open>trace\<close>.

  What the groups of lemmas show:

  \<^item> \<open>_exec\<close> lemmas give the exact result of an operation in a well-formed state, errors included;
    \<open>free_pages\<close>, \<open>env_table\<close>, \<open>wf_pgdir\<close> are the representation invariants they need and keep.
  \<^item> The translation of an address, \<open>upte\<close>, is the abstraction of page tables: page\_insert and
    page\_remove are updates of that map, user\_mem\_check is a statement about it.
  \<^item> \<open>eligible\<close> and \<open>choice\<close> are the abstraction of the scheduler: sched\_yield runs the choice.
    \<open>picked\<close> and \<open>after_pick\<close> are what one call of sched\_yield picks and leaves; the bounds on how long
    a ready environment waits are about successive calls.
  \<^item> \<open>pending_chars\<close> and \<open>device_chars\<close> are the abstraction of the console's input: cons\_getc is a queue.
  \<^item> \<open>blank_space\<close> is the kernel's directory before its mappings are made, \<open>layout\<close> the translation after.
  \<^item> \<open>contest\<close> is the state of two workers between decisions, with \<open>next_decision\<close> one run of sched\_yield:
    the order of their turns is exact. \<open>flows\<close> is the invariant of the prime sieve, against the sieve on lists.
  \<^item> \<open>keeps\<close> lemmas carry the invariants of \<open>Security\<close> through every operation to \<open>trap\<close>.
  \<^item> The locales (\<open>free_list\<close>, \<open>bounded_fifo\<close>, \<open>policy_contract\<close>) state contracts that
    are interpreted on the operations of the model.

  Bounds and fuel: no model has fuel. Loops over tables end with the table (NENV, NPDENTRIES); readers
  of strings, the monitor and the wait for a key are \<open>partial_function (option)\<close>, with theorems about
  when they return: strings end where \<open>str_at\<close> says so, and the console streams are infinite.

  The wait for the delivery of an interrupt (\<open>lapic_wait\<close>) is a \<open>partial_function\<close> as well.

  Assumptions on the hardware, where a theorem needs them, are hypotheses: \<open>clock_chip\<close> says that the
  clock chip returns the register that was selected last. The statements on the kernel's address space
  ask for at most 256 MB, what the mapping at KERNBASE holds.

  Not modelled: the assembly of boot, trap entry and context switch (kern/*.S, lib/*.S), except that a
  processor takes its stack from mpentry\_kstack (\<open>boot_stack\<close>); entrypgdir.c, a
  constant table; the message a panic of the user library prints; the other programs under user/, tests
  and examples that only call the library.
  Simplifications: the stores of a page fault frame to the user exception stack are events of the trace, not
  writes to memory; a processor that is woken runs to the kernel lock in one piece while boot\_aps waits; the
  attempts of ipc\_send are the states in which they are made, without the yields in between; the call stack
  that the spin lock prints before it panics is left out; and \<open>cpus\<close> has a slot for every number, so that a
  write behind the end of the array does not hit other memory.

  Interrupts are off inside the kernel and the kernel lock is held, so the model of one trap is sequential;
  the lock itself is where the interleaving of CPUs is modelled.
\<close>

end
